(* ===== verification/Prelude.thy ===== *)
theory Prelude
  imports
    Main
    "HOL-Library.Word"
    "HOL-Library.Char_ord"
    "HOL-Library.List_Lexorder"
    "HOL-Library.AList"
    "HOL-Library.Monad_Syntax"
begin

text \<open>
  Shared vocabulary of the development: the machine types the Rust code uses, results
  of fallible code, the pieces of the Rust standard library that several components use
  (UTF-8 validation, decimal printing and parsing of integers, ASCII case folding), and
  the generic lemmas on lists, options and maps.

  A Rust \<^verbatim>\<open>u8\<close> is a HOL \<open>char\<close>: both have exactly 256 values, and the order of
  \<open>HOL-Library.Char_ord\<close> is the numeric one. \<^verbatim>\<open>Bytes\<close>, \<^verbatim>\<open>Vec<u8>\<close> and the UTF-8
  content of a \<^verbatim>\<open>String\<close> are lists of such bytes; their Rust order (bytewise
  lexicographic) is the one of \<open>HOL-Library.List_Lexorder\<close>.
\<close>

named_theorems res_simps \<open>unfolding rules of the result monad\<close>
named_theorems std_simps \<open>evaluation rules of the modelled standard library\<close>

section \<open>Machine types\<close>

type_synonym bytes = string
type_synonym key = string
type_synonym u64 = "64 word"
type_synonym usize = "64 word"

definition USIZE_MAX :: nat where
  "USIZE_MAX = 2 ^ 64 - 1"

section \<open>Results\<close>

text \<open>\<^verbatim>\<open>Result<T, E>\<close> is \<open>E + T\<close>: \<open>Inl\<close> is \<^verbatim>\<open>Err\<close>, \<open>Inr\<close> is \<^verbatim>\<open>Ok\<close>. The
  operator \<open>res_bind\<close> is the question mark of Rust.\<close>

type_synonym ('e, 'a) res = "'e + 'a"

definition res_bind :: "('e, 'a) res \<Rightarrow> ('a \<Rightarrow> ('e, 'b) res) \<Rightarrow> ('e, 'b) res" where
  "res_bind r f = (case r of Inl e \<Rightarrow> Inl e | Inr x \<Rightarrow> f x)"

lemma res_bind_simps [simp, res_simps]:
  "res_bind (Inl e) f = Inl e"
  "res_bind (Inr x) f = f x"
  by (simp_all add: res_bind_def)

lemma res_bind_Inr_iff:
  "res_bind r f = Inr y \<longleftrightarrow> (\<exists>x. r = Inr x \<and> f x = Inr y)"
  by (cases r) auto

lemma res_bind_cong [fundef_cong]:
  "r = r' \<Longrightarrow> (\<And>x. r' = Inr x \<Longrightarrow> f x = g x) \<Longrightarrow> res_bind r f = res_bind r' g"
  by (cases r') auto

text \<open>\<^verbatim>\<open>Iterator::collect::<Result<Vec<_>, _>>()\<close>: the first error wins.\<close>

fun res_map :: "('a \<Rightarrow> ('e, 'b) res) \<Rightarrow> 'a list \<Rightarrow> ('e, 'b list) res" where
  "res_map f [] = Inr []"
| "res_map f (x # xs) = res_bind (f x) (\<lambda>y. res_bind (res_map f xs) (\<lambda>ys. Inr (y # ys)))"

lemma res_map_Inr:
  "(\<And>x. x \<in> set xs \<Longrightarrow> f x = Inr (g x)) \<Longrightarrow> res_map f xs = Inr (map g xs)"
  by (induction xs) auto

lemma res_map_length: "res_map f xs = Inr ys \<Longrightarrow> length ys = length xs"
  by (induction xs arbitrary: ys) (auto simp: res_bind_Inr_iff)

section \<open>Strings of the standard library\<close>

definition nat_of_char :: "char \<Rightarrow> nat" where
  "nat_of_char c = of_char c"

definition utf8_cont :: "char \<Rightarrow> bool" where
  "utf8_cont c \<longleftrightarrow> 128 \<le> nat_of_char c \<and> nat_of_char c \<le> 191"

text \<open>\<^verbatim>\<open>String::from_utf8\<close> accepts exactly the well-formed sequences of the Unicode
  standard: no overlong forms, no surrogates, nothing above U+10FFFF.\<close>

fun utf8_valid :: "bytes \<Rightarrow> bool" where
  "utf8_valid [] = True"
| "utf8_valid (a # s) =
     (let x = nat_of_char a in
      if x < 128 then utf8_valid s
      else if 194 \<le> x \<and> x \<le> 223 then
        (case s of c # s' \<Rightarrow> utf8_cont c \<and> utf8_valid s' | _ \<Rightarrow> False)
      else if 224 \<le> x \<and> x \<le> 239 then
        (case s of
           c # d # s' \<Rightarrow>
             utf8_cont c \<and> utf8_cont d
             \<and> (x = 224 \<longrightarrow> 160 \<le> nat_of_char c) \<and> (x = 237 \<longrightarrow> nat_of_char c \<le> 159)
             \<and> utf8_valid s'
         | _ \<Rightarrow> False)
      else if 240 \<le> x \<and> x \<le> 244 then
        (case s of
           c # d # e # s' \<Rightarrow>
             utf8_cont c \<and> utf8_cont d \<and> utf8_cont e
             \<and> (x = 240 \<longrightarrow> 144 \<le> nat_of_char c) \<and> (x = 244 \<longrightarrow> nat_of_char c \<le> 143)
             \<and> utf8_valid s'
         | _ \<Rightarrow> False)
      else False)"

declare utf8_valid.simps(2) [simp del]

definition is_ascii :: "bytes \<Rightarrow> bool" where
  "is_ascii s \<longleftrightarrow> list_all (\<lambda>c. nat_of_char c < 128) s"

lemma is_ascii_simps [simp]:
  "is_ascii []"
  "is_ascii (c # s) \<longleftrightarrow> nat_of_char c < 128 \<and> is_ascii s"
  "is_ascii (s @ t) \<longleftrightarrow> is_ascii s \<and> is_ascii t"
  by (auto simp: is_ascii_def)

lemma ascii_utf8_valid: "is_ascii s \<Longrightarrow> utf8_valid s"
  by (induction s) (auto simp: utf8_valid.simps(2))

lemma utf8_valid_ascii_append: "is_ascii s \<Longrightarrow> utf8_valid (s @ t) = utf8_valid t"
  by (induction s) (auto simp: utf8_valid.simps(2))

text \<open>\<^verbatim>\<open>u8::to_ascii_uppercase\<close>; \<^verbatim>\<open>eq_ignore_ascii_case\<close> compares the two foldings.\<close>

definition ascii_upper_char :: "char \<Rightarrow> char" where
  "ascii_upper_char c =
     (if 97 \<le> nat_of_char c \<and> nat_of_char c \<le> 122 then char_of (nat_of_char c - 32) else c)"

definition ascii_upper :: "bytes \<Rightarrow> bytes" where
  "ascii_upper s = map ascii_upper_char s"

definition eq_ignore_ascii_case :: "bytes \<Rightarrow> bytes \<Rightarrow> bool" where
  "eq_ignore_ascii_case s t \<longleftrightarrow> ascii_upper s = ascii_upper t"

section \<open>Decimal integers\<close>

definition is_digit :: "char \<Rightarrow> bool" where
  "is_digit c \<longleftrightarrow> 48 \<le> nat_of_char c \<and> nat_of_char c \<le> 57"

definition digit_val :: "char \<Rightarrow> nat" where
  "digit_val c = nat_of_char c - 48"

definition digit_char :: "nat \<Rightarrow> char" where
  "digit_char d = char_of (48 + d)"

text \<open>\<^verbatim>\<open>Display\<close> of unsigned and signed integers.\<close>

fun show_nat :: "nat \<Rightarrow> string" where
  "show_nat n = (if n < 10 then [digit_char n] else show_nat (n div 10) @ [digit_char (n mod 10)])"

declare show_nat.simps [simp del]

definition show_int :: "int \<Rightarrow> string" where
  "show_int i = (if i < 0 then CHR ''-'' # show_nat (nat (- i)) else show_nat (nat i))"

definition dec_val :: "string \<Rightarrow> nat" where
  "dec_val s = foldl (\<lambda>a c. 10 * a + digit_val c) 0 s"

definition parse_digits :: "string \<Rightarrow> nat option" where
  "parse_digits s = (if s \<noteq> [] \<and> list_all is_digit s then Some (dec_val s) else None)"

text \<open>\<^verbatim>\<open>str::parse\<close> for unsigned integers takes an optional plus sign, for signed ones an
  optional sign of either kind; the empty digit string, any other character and a value
  outside the type are errors.\<close>

definition parse_unsigned :: "nat \<Rightarrow> string \<Rightarrow> nat option" where
  "parse_unsigned w s =
     (case s of
        [] \<Rightarrow> None
      | c # ds \<Rightarrow>
          (case parse_digits (if c = CHR ''+'' then ds else s) of
             None \<Rightarrow> None
           | Some n \<Rightarrow> if n < 2 ^ w then Some n else None))"

definition parse_signed :: "nat \<Rightarrow> string \<Rightarrow> int option" where
  "parse_signed w s =
     (case s of
        [] \<Rightarrow> None
      | c # ds \<Rightarrow>
          if c = CHR ''-'' then
            (case parse_digits ds of
               None \<Rightarrow> None
             | Some n \<Rightarrow> if n \<le> 2 ^ (w - 1) then Some (- int n) else None)
          else
            (case parse_digits (if c = CHR ''+'' then ds else s) of
               None \<Rightarrow> None
             | Some n \<Rightarrow> if n < 2 ^ (w - 1) then Some (int n) else None))"

abbreviation parse_u64 :: "string \<Rightarrow> nat option" where
  "parse_u64 \<equiv> parse_unsigned 64"

abbreviation parse_usize :: "string \<Rightarrow> nat option" where
  "parse_usize \<equiv> parse_unsigned 64"

abbreviation parse_i64 :: "string \<Rightarrow> int option" where
  "parse_i64 \<equiv> parse_signed 64"

lemma digit_char_numerals [simp]:
  "digit_char 0 = CHR ''0''" "digit_char (Suc 0) = CHR ''1''" "digit_char 1 = CHR ''1''"
  "digit_char 2 = CHR ''2''" "digit_char 3 = CHR ''3''" "digit_char 4 = CHR ''4''"
  "digit_char 5 = CHR ''5''" "digit_char 6 = CHR ''6''" "digit_char 7 = CHR ''7''"
  "digit_char 8 = CHR ''8''" "digit_char 9 = CHR ''9''"
  by code_simp+

lemma nat_of_digit_char: "d < 10 \<Longrightarrow> nat_of_char (digit_char d) = 48 + d"
  by (simp add: nat_of_char_def digit_char_def)

lemma digit_char_props:
  assumes "d < 10"
  shows "is_digit (digit_char d)" and "digit_val (digit_char d) = d"
  using nat_of_digit_char [OF assms] assms by (auto simp: is_digit_def digit_val_def)

lemma show_nat_digits: "list_all is_digit (show_nat n)"
proof (induction n rule: show_nat.induct)
  case (1 n)
  show ?case
    by (cases "n < 10") (use 1 in \<open>simp_all add: show_nat.simps [of n] digit_char_props\<close>)
qed

lemma show_nat_not_Nil [simp]: "show_nat n \<noteq> []"
  by (subst show_nat.simps) simp

lemma dec_val_show_nat: "dec_val (show_nat n) = n"
proof (induction n rule: show_nat.induct)
  case (1 n)
  show ?case
  proof (cases "n < 10")
    case True
    then show ?thesis by (simp add: show_nat.simps [of n] dec_val_def digit_char_props)
  next
    case False
    then have "dec_val (show_nat (n div 10)) = n div 10" using 1 by simp
    with False show ?thesis
      by (simp add: show_nat.simps [of n] dec_val_def digit_char_props)
  qed
qed

lemma parse_digits_show_nat [simp]: "parse_digits (show_nat n) = Some n"
  by (simp add: parse_digits_def show_nat_digits dec_val_show_nat)

lemma show_nat_hd: "\<exists>c s. show_nat n = c # s \<and> is_digit c"
  using show_nat_digits [of n] show_nat_not_Nil [of n] by (cases "show_nat n") auto

lemma digit_not_sign: "is_digit c \<Longrightarrow> c \<noteq> CHR ''+'' \<and> c \<noteq> CHR ''-''"
  by (auto simp: is_digit_def nat_of_char_def)

lemma parse_unsigned_show_nat:
  assumes "n < 2 ^ w"
  shows "parse_unsigned w (show_nat n) = Some n"
proof -
  obtain c s where cs: "show_nat n = c # s" "is_digit c" using show_nat_hd by blast
  then show ?thesis
    using assms digit_not_sign [OF cs(2)] parse_digits_show_nat [of n]
    by (simp add: parse_unsigned_def)
qed

lemma parse_signed_show_int:
  assumes "- (2 ^ (w - 1)) \<le> i" and "i < 2 ^ (w - 1)"
  shows "parse_signed w (show_int i) = Some i"
proof (cases "i < 0")
  case True
  then have "nat (- i) \<le> 2 ^ (w - 1)" using assms(1) by (simp add: nat_le_iff)
  with True show ?thesis by (simp add: show_int_def parse_signed_def)
next
  case False
  obtain c s where cs: "show_nat (nat i) = c # s" "is_digit c" using show_nat_hd by blast
  have "nat i < 2 ^ (w - 1)" using False assms(2) by (simp add: nat_less_iff)
  with False cs show ?thesis
    using digit_not_sign [OF cs(2)] parse_digits_show_nat [of "nat i"]
    by (simp add: show_int_def parse_signed_def)
qed

lemma parse_unsigned_bound: "parse_unsigned w s = Some n \<Longrightarrow> n < 2 ^ w"
  by (auto simp: parse_unsigned_def split: list.splits option.splits if_splits)

lemma digit_ascii: "is_digit c \<Longrightarrow> nat_of_char c < 128"
  by (auto simp: is_digit_def)

lemma show_nat_ascii [simp]: "is_ascii (show_nat n)"
  using show_nat_digits [of n] unfolding is_ascii_def
  by (auto simp: list_all_iff digit_ascii)

lemma show_nat_utf8 [simp]: "utf8_valid (show_nat n)"
  by (rule ascii_utf8_valid) simp

section \<open>Generic lemmas\<close>

lemma map_upd_in_dom: "dom (m(k \<mapsto> v)) = insert k (dom m)"
  by simp

lemma map_of_update_distinct:
  "distinct (map fst al) \<Longrightarrow> distinct (map fst (AList.update k v al))"
  by (rule distinct_update)

text \<open>A checked vector index: \<open>None\<close> is the panic of Rust's bounds check.\<close>

definition nth_opt :: "'a list \<Rightarrow> nat \<Rightarrow> 'a option" where
  "nth_opt xs i = (if i < length xs then Some (xs ! i) else None)"

lemma nth_opt_Some [simp]: "i < length xs \<Longrightarrow> nth_opt xs i = Some (xs ! i)"
  by (simp add: nth_opt_def)

lemma nth_opt_eq_Some_iff: "nth_opt xs i = Some x \<longleftrightarrow> i < length xs \<and> xs ! i = x"
  by (auto simp: nth_opt_def)

section \<open>Loops over a list of steps that may fail\<close>

fun ofold :: "('a \<Rightarrow> 's \<Rightarrow> 's option) \<Rightarrow> 'a list \<Rightarrow> 's \<Rightarrow> 's option" where
  "ofold f [] s = Some s"
| "ofold f (x # xs) s = do { s' \<leftarrow> f x s; ofold f xs s' }"

lemma ofold_append: "ofold f (xs @ ys) s = do { s' \<leftarrow> ofold f xs s; ofold f ys s' }"
  by (induction xs arbitrary: s) (auto split: bind_splits)

section \<open>Runs of a step relation\<close>

inductive runs :: "('s \<Rightarrow> 's \<Rightarrow> bool) \<Rightarrow> 's \<Rightarrow> 's \<Rightarrow> bool" for step where
  run_refl: "runs step s s"
| run_step: "runs step s s' \<Longrightarrow> step s' s'' \<Longrightarrow> runs step s s''"

lemma runs_trans [trans]: "runs step s s' \<Longrightarrow> runs step s' s'' \<Longrightarrow> runs step s s''"
  by (rotate_tac, induction rule: runs.induct) (auto intro: run_step)

lemma runs_one: "step s s' \<Longrightarrow> runs step s s'"
  by (blast intro: run_refl run_step)

text \<open>The contract of an invariant of a transition system.\<close>

locale step_invariant =
  fixes step :: "'s \<Rightarrow> 's \<Rightarrow> bool"
    and inv :: "'s \<Rightarrow> bool"
  assumes step_keeps: "step s s' \<Longrightarrow> inv s \<Longrightarrow> inv s'"
begin

lemma runs_keep:
  assumes "runs step s s'" "inv s"
  shows "inv s'"
  using assms by induction (auto intro: step_keeps)

end

end
