(* ===== verification/Domain.thy ===== *)
theory Domain
  imports Prelude
begin

text \<open>
  The vocabulary of \<^verbatim>\<open>src/src/domain\<close>: RESP frames (\<^verbatim>\<open>protocol.rs\<close>), the project's error
  type (\<^verbatim>\<open>error.rs\<close>), the client commands and the lock each of them takes
  (\<^verbatim>\<open>command.rs\<close>), and the IEEE comparisons on \<^verbatim>\<open>f64\<close> scores.

  Command structs are inlined: the arguments of a constructor are the fields of the
  corresponding struct, in the struct's order. Error texts that the source writes in
  Chinese are named by an English gloss under \<open>Zh\<close>; ASCII texts are verbatim under \<open>Msg\<close>;
  texts produced by the standard library's own error types are \<open>Utf8Error\<close> and
  \<open>ParseIntError\<close>.
\<close>

section \<open>IEEE 754 binary64 comparison\<close>

text \<open>A score is the bit pattern of an \<^verbatim>\<open>f64\<close>. The order of the numbers is the order of the
  signed magnitude; the two zeros are equal and a NaN compares with nothing.\<close>

type_synonym f64 = "64 word"

definition f64_magnitude :: "f64 \<Rightarrow> nat" where
  "f64_magnitude x = unat x mod 2 ^ 63"

definition f64_negative :: "f64 \<Rightarrow> bool" where
  "f64_negative x \<longleftrightarrow> 2 ^ 63 \<le> unat x"

definition f64_is_nan :: "f64 \<Rightarrow> bool" where
  "f64_is_nan x \<longleftrightarrow> 2047 * 2 ^ 52 < f64_magnitude x"

definition f64_key :: "f64 \<Rightarrow> int" where
  "f64_key x = (if f64_negative x then - int (f64_magnitude x) else int (f64_magnitude x))"

definition f64_lt :: "f64 \<Rightarrow> f64 \<Rightarrow> bool" where
  "f64_lt x y \<longleftrightarrow> \<not> f64_is_nan x \<and> \<not> f64_is_nan y \<and> f64_key x < f64_key y"

definition f64_eq :: "f64 \<Rightarrow> f64 \<Rightarrow> bool" where
  "f64_eq x y \<longleftrightarrow> \<not> f64_is_nan x \<and> \<not> f64_is_nan y \<and> f64_key x = f64_key y"

section \<open>Frames and errors\<close>

datatype Frame =
    Simple string
  | Bulk bytes
  | Array "Frame list"
  | Integer int
  | Null
  | Error string

datatype err_text = Msg string | Zh string | Utf8Error | ParseIntError

text \<open>\<open>Panicked\<close> is not a variant of the source's enum: it marks an unwinding panic of the
  code that would have produced the result.\<close>

datatype KvError =
    Io
  | ProtocolError err_text
  | UnexpectedEof
  | Unimplement
  | NoError
  | Panicked

type_synonym 'a kvres = "(KvError, 'a) res"

section \<open>Commands\<close>

datatype Expiration = Exp_EX u64 | Exp_PX u64 | Exp_EXAT u64 | Exp_PXAT u64

datatype SetCondition = NX | XX

datatype Command =
    Set key bytes "Expiration option" "SetCondition option"
  | Get key
  | Ping "string option"
  | Unimplemented string "bytes list"
  | Eval string "string list" "string list"
  | LPush key "bytes list"
  | LPop key
  | BLPop key u64
  | HSet key "(string \<times> bytes) list"
  | HGet key string
  | HDel key "string list"
  | MSet "(key \<times> bytes) list"
  | MGet "key list"
  | Multi
  | Exec
  | MultiGroup "Command list"
  | JsonSet key string string
  | JsonGet key string
  | ZAdd key f64 bytes
  | ZScore key bytes
  | ZRank key bytes
  | ZRange key int int
  | ZRem key bytes

datatype LockSpec = LockWrite key | LockRead key | LockNone

fun lock_spec :: "Command \<Rightarrow> LockSpec" where
  "lock_spec (Set k _ _ _) = LockWrite k"
| "lock_spec (Get k) = LockRead k"
| "lock_spec (LPush k _) = LockWrite k"
| "lock_spec (LPop k) = LockWrite k"
| "lock_spec (BLPop k _) = LockWrite k"
| "lock_spec (HSet k _) = LockWrite k"
| "lock_spec (HGet k _) = LockRead k"
| "lock_spec (HDel k _) = LockWrite k"
| "lock_spec (MSet _) = LockNone"
| "lock_spec (MGet _) = LockNone"
| "lock_spec (Ping _) = LockNone"
| "lock_spec (Unimplemented _ _) = LockNone"
| "lock_spec (Eval _ _ _) = LockNone"
| "lock_spec Multi = LockNone"
| "lock_spec Exec = LockNone"
| "lock_spec (MultiGroup _) = LockNone"
| "lock_spec (JsonSet k _ _) = LockWrite k"
| "lock_spec (JsonGet k _) = LockRead k"
| "lock_spec (ZAdd k _ _) = LockWrite k"
| "lock_spec (ZScore k _) = LockRead k"
| "lock_spec (ZRank k _) = LockRead k"
| "lock_spec (ZRange k _ _) = LockRead k"
| "lock_spec (ZRem k _) = LockWrite k"

definition get_key :: "Command \<Rightarrow> key option" where
  "get_key c = (case lock_spec c of LockWrite k \<Rightarrow> Some k | LockRead k \<Rightarrow> Some k | LockNone \<Rightarrow> None)"

section \<open>Lemmas on scores\<close>

lemma f64_lt_irrefl [simp]: "\<not> f64_lt x x"
  by (simp add: f64_lt_def)

lemma f64_lt_trans: "f64_lt x y \<Longrightarrow> f64_lt y z \<Longrightarrow> f64_lt x z"
  by (auto simp: f64_lt_def)

lemma f64_eq_refl [simp]: "f64_eq x x \<longleftrightarrow> \<not> f64_is_nan x"
  by (simp add: f64_eq_def)

lemma f64_eq_sym: "f64_eq x y \<longleftrightarrow> f64_eq y x"
  by (auto simp: f64_eq_def)

lemma f64_eq_trans: "f64_eq x y \<Longrightarrow> f64_eq y z \<Longrightarrow> f64_eq x z"
  by (auto simp: f64_eq_def)

lemma f64_trichotomy:
  assumes "\<not> f64_is_nan x" and "\<not> f64_is_nan y"
  shows "f64_lt x y \<or> f64_eq x y \<or> f64_lt y x"
  using assms by (auto simp: f64_lt_def f64_eq_def)

lemma f64_lt_not_eq: "f64_lt x y \<Longrightarrow> \<not> f64_eq x y \<and> \<not> f64_lt y x"
  by (auto simp: f64_lt_def f64_eq_def)

lemma f64_eq_lt_cong:
  assumes "f64_eq x y"
  shows "f64_lt x z \<longleftrightarrow> f64_lt y z" and "f64_lt z x \<longleftrightarrow> f64_lt z y"
    and "f64_eq x z \<longleftrightarrow> f64_eq y z" and "f64_eq z x \<longleftrightarrow> f64_eq z y"
  using assms by (auto simp: f64_lt_def f64_eq_def)

end
