(* ===== verification/Skip_List.thy ===== *)
theory Skip_List
  imports Domain
begin

text \<open>
  The skip list of \<^verbatim>\<open>src/src/db/zset/skip_list.rs\<close>: an arena of nodes addressed by index, a free
  list, forward links with spans at every level and a backward link. Out-of-range indexing
  panics in Rust and is \<open>None\<close> here; a search that never ends would also be \<open>None\<close>. Spans and
  ranks are machine words, because \<^verbatim>\<open>delete_node\<close> subtracts one from a zero span and relies
  on wrap-around. The random draws that decide the height of a new node are a parameter.

  The abstraction of a skip list is its sequence of towers (index, score, member, height).
  \<open>nxt i ts\<close> is the link that a node followed by \<open>ts\<close> must carry at level \<open>i\<close>; the
  invariant \<open>zsl_ok\<close> says that every node carries exactly these links.
\<close>

definition ZSKIPLIST_MAXLEVEL :: nat where
  "ZSKIPLIST_MAXLEVEL = 32"

definition NULL_NODE :: nat where
  "NULL_NODE = USIZE_MAX"

text \<open>A \<^verbatim>\<open>Vec<Node>\<close> holds at most \<^verbatim>\<open>isize::MAX\<close> bytes; a node takes 72 bytes on the 64-bit
  targets. Growing further panics.\<close>

definition NODE_LIMIT :: nat where
  "NODE_LIMIT = (2 ^ 63 - 1) div 72"

record SkipListLevel =
  forward :: nat
  span :: usize

record SNode =
  score :: f64
  member :: bytes
  backward :: nat
  sn_level :: "SkipListLevel list"

record SkipList =
  nodes :: "SNode list"
  free_list :: "nat list"
  sl_head :: nat
  sl_tail :: nat
  max_level :: nat
  sl_length :: nat

section \<open>Access to the arena\<close>

definition get_level :: "SNode list \<Rightarrow> nat \<Rightarrow> nat \<Rightarrow> SkipListLevel option" where
  "get_level N a i = do { n \<leftarrow> nth_opt N a; nth_opt (sn_level n) i }"

definition upd_level ::
  "nat \<Rightarrow> nat \<Rightarrow> (SkipListLevel \<Rightarrow> SkipListLevel) \<Rightarrow> SNode list \<Rightarrow> SNode list option" where
  "upd_level a i f N =
     do { n \<leftarrow> nth_opt N a;
          l \<leftarrow> nth_opt (sn_level n) i;
          Some (N[a := n\<lparr>sn_level := (sn_level n)[i := f l]\<rparr>]) }"

definition upd_node :: "nat \<Rightarrow> (SNode \<Rightarrow> SNode) \<Rightarrow> SNode list \<Rightarrow> SNode list option" where
  "upd_node a f N = do { n \<leftarrow> nth_opt N a; Some (N[a := f n]) }"

section \<open>Operations\<close>

definition null_level :: SkipListLevel where
  "null_level = \<lparr>forward = NULL_NODE, span = 0\<rparr>"

definition SkipList_new :: SkipList where
  "SkipList_new =
     \<lparr>nodes = [\<lparr>score = 0, member = [], backward = NULL_NODE,
               sn_level = replicate ZSKIPLIST_MAXLEVEL null_level\<rparr>],
      free_list = [], sl_head = 0, sl_tail = NULL_NODE, max_level = 1, sl_length = 0\<rparr>"

text \<open>One draw per iteration: \<open>True\<close> when the random number is below \<^verbatim>\<open>ZSKIPLIST_P\<close>.\<close>

fun random_level_from :: "nat \<Rightarrow> bool list \<Rightarrow> nat" where
  "random_level_from l (True # ds) =
     (if l < ZSKIPLIST_MAXLEVEL then random_level_from (Suc l) ds else l)"
| "random_level_from l _ = l"

definition random_level :: "bool list \<Rightarrow> nat" where
  "random_level ds = random_level_from 1 ds"

definition allocate_node :: "f64 \<Rightarrow> bytes \<Rightarrow> nat \<Rightarrow> SkipList \<Rightarrow> (SkipList \<times> nat) option" where
  "allocate_node sc mem level_count sl =
     (let node = \<lparr>score = sc, member = mem, backward = NULL_NODE,
                  sn_level = replicate level_count null_level\<rparr>
      in if free_list sl \<noteq> [] then
           (let idx = last (free_list sl)
            in if idx < length (nodes sl) then
                 Some (sl\<lparr>free_list := butlast (free_list sl), nodes := (nodes sl)[idx := node]\<rparr>, idx)
               else None)
         else if length (nodes sl) < NODE_LIMIT then
           Some (sl\<lparr>nodes := nodes sl @ [node]\<rparr>, length (nodes sl))
         else None)"

definition before :: "f64 \<Rightarrow> bytes \<Rightarrow> SNode \<Rightarrow> bool" where
  "before sc mem n \<longleftrightarrow> f64_lt (score n) sc \<or> f64_eq (score n) sc \<and> member n < mem"

definition before_eq :: "f64 \<Rightarrow> bytes \<Rightarrow> SNode \<Rightarrow> bool" where
  "before_eq sc mem n \<longleftrightarrow> f64_lt (score n) sc \<or> f64_eq (score n) sc \<and> member n \<le> mem"

text \<open>The inner loop of \<^verbatim>\<open>insert\<close>, \<^verbatim>\<open>delete\<close> and \<^verbatim>\<open>get_rank\<close>: advance along one level while the
  next node is before the target, adding up the spans.\<close>

partial_function (option) walk ::
  "(SNode \<Rightarrow> bool) \<Rightarrow> SNode list \<Rightarrow> nat \<Rightarrow> nat \<Rightarrow> usize \<Rightarrow> (nat \<times> usize) option" where
  "walk P N i cur rank =
     do { l \<leftarrow> get_level N cur i;
          if forward l = NULL_NODE then Some (cur, rank)
          else
            do { n \<leftarrow> nth_opt N (forward l);
                 if P n then walk P N i (forward l) (rank + span l) else Some (cur, rank) } }"

declare walk.simps [code]

text \<open>The outer loop, from the top level down. The accumulator holds, for the levels already
  done, the node where the walk stopped and the rank reached there: \<^verbatim>\<open>update[i]\<close> and
  \<^verbatim>\<open>rank[i]\<close>.\<close>

fun search ::
  "(SNode \<Rightarrow> bool) \<Rightarrow> SNode list \<Rightarrow> nat \<Rightarrow> nat \<Rightarrow> usize \<Rightarrow> (nat \<times> usize) list \<Rightarrow>
   (nat \<times> usize \<times> (nat \<times> usize) list) option" where
  "search P N 0 cur rank acc = Some (cur, rank, acc)"
| "search P N (Suc i) cur rank acc =
     do { (c, r) \<leftarrow> walk P N i cur rank; search P N i c r ((c, r) # acc) }"

definition raise_level :: "nat \<Rightarrow> nat \<Rightarrow> nat \<Rightarrow> SNode list \<Rightarrow> SNode list option" where
  "raise_level head len i N = upd_level head i (\<lambda>l. l\<lparr>span := of_nat len\<rparr>) N"

definition link_level ::
  "nat \<Rightarrow> (nat \<times> usize) list \<Rightarrow> nat \<Rightarrow> SNode list \<Rightarrow> SNode list option" where
  "link_level new_idx upd i N =
     do { (up_idx, rank_i) \<leftarrow> nth_opt upd i;
          (_, rank_0) \<leftarrow> nth_opt upd 0;
          lu \<leftarrow> get_level N up_idx i;
          N1 \<leftarrow> upd_level new_idx i (\<lambda>l. l\<lparr>forward := forward lu\<rparr>) N;
          N2 \<leftarrow> upd_level up_idx i (\<lambda>l. l\<lparr>forward := new_idx\<rparr>) N1;
          lu2 \<leftarrow> get_level N2 up_idx i;
          N3 \<leftarrow> upd_level new_idx i (\<lambda>l. l\<lparr>span := span lu2 - (rank_0 - rank_i)\<rparr>) N2;
          upd_level up_idx i (\<lambda>l. l\<lparr>span := (rank_0 - rank_i) + 1\<rparr>) N3 }"

definition bump_level :: "(nat \<times> usize) list \<Rightarrow> nat \<Rightarrow> SNode list \<Rightarrow> SNode list option" where
  "bump_level upd i N =
     do { (up_idx, _) \<leftarrow> nth_opt upd i; upd_level up_idx i (\<lambda>l. l\<lparr>span := span l + 1\<rparr>) N }"

definition sl_insert :: "bool list \<Rightarrow> f64 \<Rightarrow> bytes \<Rightarrow> SkipList \<Rightarrow> (SkipList \<times> nat) option" where
  "sl_insert draws sc mem sl =
     do { (_, _, upd0) \<leftarrow> search (before sc mem) (nodes sl) (max_level sl) (sl_head sl) 0 [];
          (let level = random_level draws
           in do { (sl1, upd) \<leftarrow>
                     (if level > max_level sl then
                        do { N \<leftarrow> ofold (raise_level (sl_head sl) (sl_length sl))
                                    [max_level sl..<level] (nodes sl);
                             Some (sl\<lparr>nodes := N, max_level := level\<rparr>,
                               upd0 @ replicate (level - max_level sl) (sl_head sl, 0)) }
                      else Some (sl, upd0));
                   (sl2, new_idx) \<leftarrow> allocate_node sc mem level sl1;
                   N2 \<leftarrow> ofold (link_level new_idx upd) [0..<level] (nodes sl2);
                   N3 \<leftarrow> ofold (bump_level upd) [level..<max_level sl2] N2;
                   (prev_idx, _) \<leftarrow> nth_opt upd 0;
                   N4 \<leftarrow> upd_node new_idx
                          (\<lambda>n. n\<lparr>backward := (if prev_idx = sl_head sl2 then NULL_NODE else prev_idx)\<rparr>) N3;
                   l0 \<leftarrow> get_level N4 new_idx 0;
                   (if forward l0 \<noteq> NULL_NODE then
                      do { N5 \<leftarrow> upd_node (forward l0) (\<lambda>n. n\<lparr>backward := new_idx\<rparr>) N4;
                           Some (sl2\<lparr>nodes := N5, sl_length := Suc (sl_length sl2)\<rparr>, new_idx) }
                    else
                      Some (sl2\<lparr>nodes := N4, sl_tail := new_idx, sl_length := Suc (sl_length sl2)\<rparr>,
                        new_idx)) }) }"

definition unlink_level ::
  "nat \<Rightarrow> (nat \<times> usize) list \<Rightarrow> nat \<Rightarrow> SNode list \<Rightarrow> SNode list option" where
  "unlink_level target_idx upd i N =
     do { (up_idx, _) \<leftarrow> nth_opt upd i;
          lu \<leftarrow> get_level N up_idx i;
          if forward lu = target_idx then
            do { lt \<leftarrow> get_level N target_idx i;
                 N1 \<leftarrow> upd_level up_idx i (\<lambda>l. l\<lparr>span := span l + (span lt - 1)\<rparr>) N;
                 lt1 \<leftarrow> get_level N1 target_idx i;
                 upd_level up_idx i (\<lambda>l. l\<lparr>forward := forward lt1\<rparr>) N1 }
          else upd_level up_idx i (\<lambda>l. l\<lparr>span := span l - 1\<rparr>) N }"

fun shrink_levels :: "SNode list \<Rightarrow> nat \<Rightarrow> nat \<Rightarrow> nat option" where
  "shrink_levels N head 0 = Some 0"
| "shrink_levels N head (Suc m) =
     (if Suc m > 1 then
        do { l \<leftarrow> get_level N head m;
             if forward l = NULL_NODE then shrink_levels N head m else Some (Suc m) }
      else Some (Suc m))"

definition delete_node :: "nat \<Rightarrow> (nat \<times> usize) list \<Rightarrow> SkipList \<Rightarrow> SkipList option" where
  "delete_node target_idx upd sl =
     do { N1 \<leftarrow> ofold (unlink_level target_idx upd) [0..<max_level sl] (nodes sl);
          l0 \<leftarrow> get_level N1 target_idx 0;
          t \<leftarrow> nth_opt N1 target_idx;
          (N2, tail) \<leftarrow>
            (if forward l0 \<noteq> NULL_NODE then
               do { N2 \<leftarrow> upd_node (forward l0) (\<lambda>n. n\<lparr>backward := backward t\<rparr>) N1;
                    Some (N2, sl_tail sl) }
             else Some (N1, backward t));
          m \<leftarrow> shrink_levels N2 (sl_head sl) (max_level sl);
          N3 \<leftarrow> upd_node target_idx (\<lambda>n. n\<lparr>score := 0, member := []\<rparr>) N2;
          Some (sl\<lparr>nodes := N3, sl_tail := tail, max_level := m, sl_length := sl_length sl - 1,
                   free_list := free_list sl @ [target_idx]\<rparr>) }"

definition sl_delete :: "f64 \<Rightarrow> bytes \<Rightarrow> SkipList \<Rightarrow> (SkipList \<times> bool) option" where
  "sl_delete sc mem sl =
     do { (cur, _, upd) \<leftarrow> search (before sc mem) (nodes sl) (max_level sl) (sl_head sl) 0 [];
          l0 \<leftarrow> get_level (nodes sl) cur 0;
          if forward l0 \<noteq> NULL_NODE then
            do { t \<leftarrow> nth_opt (nodes sl) (forward l0);
                 if f64_eq (score t) sc \<and> member t = mem then
                   do { sl' \<leftarrow> delete_node (forward l0) upd sl; Some (sl', True) }
                 else Some (sl, False) }
          else Some (sl, False) }"

definition get_rank :: "f64 \<Rightarrow> bytes \<Rightarrow> SkipList \<Rightarrow> usize option option" where
  "get_rank sc mem sl =
     do { (cur, rank, _) \<leftarrow> search (before_eq sc mem) (nodes sl) (max_level sl) (sl_head sl) 0 [];
          if cur \<noteq> sl_head sl then
            do { n \<leftarrow> nth_opt (nodes sl) cur;
                 Some (if member n = mem then Some (rank - 1) else None) }
          else Some None }"

partial_function (option) walk_span ::
  "usize \<Rightarrow> SNode list \<Rightarrow> nat \<Rightarrow> nat \<Rightarrow> usize \<Rightarrow> (nat \<times> usize) option" where
  "walk_span target N i cur traversed =
     do { l \<leftarrow> get_level N cur i;
          if forward l = NULL_NODE then Some (cur, traversed)
          else if traversed + span l \<le> target then
            walk_span target N i (forward l) (traversed + span l)
          else Some (cur, traversed) }"

declare walk_span.simps [code]

fun search_span :: "usize \<Rightarrow> SNode list \<Rightarrow> nat \<Rightarrow> nat \<Rightarrow> usize \<Rightarrow> (f64 \<times> bytes) option option" where
  "search_span target N 0 cur traversed = Some None"
| "search_span target N (Suc i) cur traversed =
     do { (c, t) \<leftarrow> walk_span target N i cur traversed;
          if t = target then do { n \<leftarrow> nth_opt N c; Some (Some (score n, member n)) }
          else search_span target N i c t }"

definition get_element_by_rank :: "usize \<Rightarrow> SkipList \<Rightarrow> (f64 \<times> bytes) option option" where
  "get_element_by_rank rank sl =
     (if sl_length sl \<le> unat rank then Some None
      else search_span (rank + 1) (nodes sl) (max_level sl) (sl_head sl) 0)"

section \<open>Towers\<close>

datatype tower = Tower (t_idx: nat) (t_score: f64) (t_member: bytes) (t_height: nat)

text \<open>The next tower taller than \<open>i\<close> and its distance; past the end, the distance to the end.\<close>

fun nxt :: "nat \<Rightarrow> tower list \<Rightarrow> nat \<times> nat" where
  "nxt i [] = (NULL_NODE, 0)"
| "nxt i (t # ts) =
     (if i < t_height t then (t_idx t, 1) else (case nxt i ts of (f, d) \<Rightarrow> (f, Suc d)))"

definition link :: "nat \<Rightarrow> nat \<times> nat \<Rightarrow> SkipListLevel" where
  "link d x = \<lparr>forward = fst x, span = of_nat (d + snd x)\<rparr>"

fun links :: "(nat \<Rightarrow> SkipListLevel option) \<Rightarrow> nat \<Rightarrow> tower list \<Rightarrow> bool" where
  "links g i [] \<longleftrightarrow> True"
| "links g i (t # ts) \<longleftrightarrow> (i < t_height t \<longrightarrow> g (t_idx t) = Some (link 0 (nxt i ts))) \<and> links g i ts"

text \<open>The last tower of a prefix taller than \<open>i\<close>, and the number of towers after it.\<close>

fun pend :: "nat \<Rightarrow> nat \<Rightarrow> nat \<Rightarrow> tower list \<Rightarrow> nat \<times> nat" where
  "pend i cur d [] = (cur, d)"
| "pend i cur d (t # ts) =
     (if i < t_height t then pend i (t_idx t) 0 ts else pend i cur (Suc d) ts)"

definition idxs :: "tower list \<Rightarrow> nat set" where
  "idxs ts = t_idx ` set ts"

lemma idxs_simps [simp]:
  "idxs [] = {}" "idxs (t # ts) = insert (t_idx t) (idxs ts)" "idxs (xs @ ys) = idxs xs \<union> idxs ys"
  by (auto simp: idxs_def)

lemma image_idxs [simp]: "t_idx ` set ts = idxs ts"
  by (simp add: idxs_def)

lemma finite_idxs [simp]: "finite (idxs ts)"
  unfolding idxs_def by (rule finite_imageI) simp

lemma pend_idx: "fst (pend i cur d ts) \<in> insert cur (idxs ts)"
  by (induction ts arbitrary: cur d) auto

lemma pend_le: "snd (pend i cur d ts) \<le> d + length ts"
proof (induction ts arbitrary: cur d)
  case (Cons t ts)
  show ?case
    using Cons.IH [of "t_idx t" 0] Cons.IH [of cur "Suc d"] by auto
qed simp

lemma pend_append: "pend i cur d (xs @ ys) = (case pend i cur d xs of (c, e) \<Rightarrow> pend i c e ys)"
  by (induction xs arbitrary: cur d) auto

lemma pend_split:
  assumes "pend i cur 0 ts = (u, e)"
  shows "\<exists>xs ys. ts = xs @ ys \<and> length ys = e \<and>
    (xs = [] \<and> u = cur \<or> (\<exists>zs t. xs = zs @ [t] \<and> t_idx t = u \<and> i < t_height t))"
proof -
  have "pend i cur d ts = (u, e) \<Longrightarrow>
      (u = cur \<and> e = d + length ts) \<or>
      (\<exists>zs t ys. ts = zs @ t # ys \<and> t_idx t = u \<and> i < t_height t \<and> length ys = e)" for d
  proof (induction ts arbitrary: cur d)
    case (Cons t ts)
    show ?case
    proof (cases "i < t_height t")
      case True
      then consider "u = t_idx t" "e = length ts"
        | zs x ys where "ts = zs @ x # ys" "t_idx x = u" "i < t_height x" "length ys = e"
        using Cons.IH [of "t_idx t" 0] Cons.prems by auto
      then show ?thesis
      proof cases
        case 1
        then show ?thesis
          using True by (metis append_Nil)
      next
        case 2
        then show ?thesis
          by (metis append_Cons)
      qed
    next
      case False
      then show ?thesis
        using Cons.IH [of cur "Suc d"] Cons.prems by (metis add_Suc_right add_Suc append_Cons length_Cons pend.simps(2))
    qed
  qed simp
  from this [of 0] assms
  consider "u = cur" "e = length ts"
    | zs t ys where "ts = zs @ t # ys" "t_idx t = u" "i < t_height t" "length ys = e"
    by auto
  then show ?thesis
  proof cases
    case 1
    then show ?thesis
      by (intro exI [of _ "[]"] exI [of _ ts]) simp
  next
    case 2
    then show ?thesis
      by (intro exI [of _ "zs @ [t]"] exI [of _ ys]) simp
  qed
qed

lemma nxt_bounds: "fst (nxt i ts) \<in> insert NULL_NODE (idxs ts)" "snd (nxt i ts) \<le> length ts"
  by (induction ts) (auto split: prod.splits)

lemma nxt_NULL:
  assumes "NULL_NODE \<notin> idxs ts"
  shows "fst (nxt i ts) = NULL_NODE \<longleftrightarrow> (\<forall>t \<in> set ts. t_height t \<le> i)"
  using assms by (induction ts) (auto split: prod.splits)

lemma links_cong: "(\<And>a. a \<in> idxs ts \<Longrightarrow> g' a = g a) \<Longrightarrow> links g' i ts = links g i ts"
  by (induction ts) auto

lemma links_append: "links g i (xs @ t # ys) \<Longrightarrow> i < t_height t \<Longrightarrow> g (t_idx t) = Some (link 0 (nxt i ys))"
  by (induction xs) auto

lemma links_suffix: "links g i (xs @ ys) \<Longrightarrow> links g i ys"
  by (induction xs) auto

lemma links_short: "\<forall>t \<in> set ts. t_height t \<le> i \<Longrightarrow> links g i ts"
  by (induction ts) auto

section \<open>One level under insertion and deletion\<close>

text \<open>What \<^verbatim>\<open>insert\<close> and \<^verbatim>\<open>delete_node\<close> do to the links of one level, on the level's links
  alone: \<open>cur\<close> is a node whose link skips the \<open>d\<close> towers before \<open>xs\<close>.\<close>

lemma level_insert_tall:
  assumes "g cur = Some (link d (nxt i (xs @ ys)))" "links g i (xs @ ys)"
    and "distinct (cur # a # map t_idx (xs @ ys))" "i < h" "pend i cur d xs = (u, e)"
    and "g' = g(a := Some (link 0 (nxt i ys)), u := Some \<lparr>forward = a, span = of_nat (Suc e)\<rparr>)"
  shows "g' cur = Some (link d (nxt i (xs @ Tower a s m h # ys))) \<and> links g' i (xs @ Tower a s m h # ys)"
  using assms
proof (induction xs arbitrary: cur d)
  case Nil
  then have "links g' i ys = links g i ys"
    by (intro links_cong) auto
  with Nil show ?case
    by (auto simp: link_def)
next
  case (Cons t xs)
  show ?case
  proof (cases "i < t_height t")
    case True
    have IH: "g' (t_idx t) = Some (link 0 (nxt i (xs @ Tower a s m h # ys))) \<and>
        links g' i (xs @ Tower a s m h # ys)"
      using Cons.prems True by (intro Cons.IH) auto
    have "u \<noteq> cur"
      using Cons.prems(3,5) True pend_idx [of i "t_idx t" 0 xs] by auto
    then show ?thesis
      using IH Cons.prems True by auto
  next
    case False
    have "g' cur = Some (link (Suc d) (nxt i (xs @ Tower a s m h # ys))) \<and>
        links g' i (xs @ Tower a s m h # ys)"
      using Cons.prems False by (intro Cons.IH) (auto simp: link_def split: prod.splits)
    then show ?thesis
      using False by (auto simp: link_def split: prod.splits)
  qed
qed

lemma level_insert_short:
  assumes "g cur = Some (link d (nxt i (xs @ ys)))" "links g i (xs @ ys)"
    and "distinct (cur # a # map t_idx (xs @ ys))" "h \<le> i" "pend i cur d xs = (u, e)"
    and "g' = g(u := map_option (\<lambda>l. l\<lparr>span := span l + 1\<rparr>) (g u))"
  shows "g' cur = Some (link d (nxt i (xs @ Tower a s m h # ys))) \<and> links g' i (xs @ Tower a s m h # ys)"
  using assms
proof (induction xs arbitrary: cur d)
  case Nil
  then have "links g' i ys = links g i ys"
    by (intro links_cong) auto
  with Nil show ?case
    by (auto simp: link_def algebra_simps split: prod.splits)
next
  case (Cons t xs)
  show ?case
  proof (cases "i < t_height t")
    case True
    have IH: "g' (t_idx t) = Some (link 0 (nxt i (xs @ Tower a s m h # ys))) \<and>
        links g' i (xs @ Tower a s m h # ys)"
      using Cons.prems True by (intro Cons.IH) auto
    have "u \<noteq> cur"
      using Cons.prems(3,5) True pend_idx [of i "t_idx t" 0 xs] by auto
    then show ?thesis
      using IH Cons.prems True by auto
  next
    case False
    have "g' cur = Some (link (Suc d) (nxt i (xs @ Tower a s m h # ys))) \<and>
        links g' i (xs @ Tower a s m h # ys)"
      using Cons.prems False by (intro Cons.IH) (auto simp: link_def split: prod.splits)
    then show ?thesis
      using False by (auto simp: link_def split: prod.splits)
  qed
qed

lemma level_delete_tall:
  assumes "g cur = Some (link d (nxt i (xs @ t # ys)))" "links g i (xs @ t # ys)"
    and "distinct (cur # map t_idx (xs @ t # ys))" "i < t_height t" "pend i cur d xs = (u, e)"
    and "g' = g(u := Some (link e (nxt i ys)))"
  shows "g u = Some \<lparr>forward = t_idx t, span = of_nat (Suc e)\<rparr> \<and>
    g' cur = Some (link d (nxt i (xs @ ys))) \<and> links g' i (xs @ ys)"
  using assms
proof (induction xs arbitrary: cur d)
  case Nil
  then have "links g' i ys = links g i ys"
    by (intro links_cong) auto
  with Nil show ?case
    by (auto simp: link_def)
next
  case (Cons x xs)
  show ?case
  proof (cases "i < t_height x")
    case True
    have IH: "g u = Some \<lparr>forward = t_idx t, span = of_nat (Suc e)\<rparr> \<and>
        g' (t_idx x) = Some (link 0 (nxt i (xs @ ys))) \<and> links g' i (xs @ ys)"
      using Cons.prems True by (intro Cons.IH) auto
    have "u \<noteq> cur"
      using Cons.prems(3,5) True pend_idx [of i "t_idx x" 0 xs] by auto
    then show ?thesis
      using IH Cons.prems True by auto
  next
    case False
    have "g u = Some \<lparr>forward = t_idx t, span = of_nat (Suc e)\<rparr> \<and>
        g' cur = Some (link (Suc d) (nxt i (xs @ ys))) \<and> links g' i (xs @ ys)"
      using Cons.prems False by (intro Cons.IH) (auto simp: link_def split: prod.splits)
    then show ?thesis
      using False by (auto simp: link_def split: prod.splits)
  qed
qed

lemma level_delete_short:
  assumes "g cur = Some (link d (nxt i (xs @ t # ys)))" "links g i (xs @ t # ys)"
    and "distinct (cur # map t_idx (xs @ t # ys))" "t_height t \<le> i" "pend i cur d xs = (u, e)"
    and "t_idx t \<noteq> NULL_NODE"
    and "g' = g(u := map_option (\<lambda>l. l\<lparr>span := span l - 1\<rparr>) (g u))"
  shows "(\<exists>l. g u = Some l \<and> forward l \<noteq> t_idx t) \<and>
    g' cur = Some (link d (nxt i (xs @ ys))) \<and> links g' i (xs @ ys)"
  using assms
proof (induction xs arbitrary: cur d)
  case Nil
  then have "links g' i ys = links g i ys"
    by (intro links_cong) auto
  with Nil show ?case
    using nxt_bounds(1) [of i ys] by (auto simp: link_def split: prod.splits)
next
  case (Cons x xs)
  show ?case
  proof (cases "i < t_height x")
    case True
    have IH: "(\<exists>l. g u = Some l \<and> forward l \<noteq> t_idx t) \<and>
        g' (t_idx x) = Some (link 0 (nxt i (xs @ ys))) \<and> links g' i (xs @ ys)"
      using Cons.prems True by (intro Cons.IH) auto
    have "u \<noteq> cur"
      using Cons.prems(3,5) True pend_idx [of i "t_idx x" 0 xs] by auto
    then show ?thesis
      using IH Cons.prems True by auto
  next
    case False
    have "(\<exists>l. g u = Some l \<and> forward l \<noteq> t_idx t) \<and>
        g' cur = Some (link (Suc d) (nxt i (xs @ ys))) \<and> links g' i (xs @ ys)"
      using Cons.prems False by (intro Cons.IH) (auto simp: link_def split: prod.splits)
    then show ?thesis
      using False by (auto simp: link_def split: prod.splits)
  qed
qed

end
