(* ===== verification/Skip_List_Inv.thy ===== *)
theory Skip_List_Inv
  imports Skip_List
begin

text \<open>
  The invariant of the skip list and the refinement of its operations to a sequence of
  towers: every operation of \<^verbatim>\<open>skip_list.rs\<close> terminates without a panic on a list that
  satisfies \<open>zsl_ok\<close>, keeps it, and acts on the sequence of elements as specified.
\<close>

section \<open>The arena under updates\<close>

definition shape :: "SNode list \<Rightarrow> (f64 \<times> bytes \<times> nat \<times> nat) list" where
  "shape N = map (\<lambda>n. (score n, member n, backward n, length (sn_level n))) N"

lemma shape_length: "shape N = shape N' \<Longrightarrow> length N = length N'"
  unfolding shape_def by (rule map_eq_imp_length_eq)

lemma nth_opt_shape: "nth_opt (shape N) a = map_option (\<lambda>n. (score n, member n, backward n, length (sn_level n))) (nth_opt N a)"
  by (simp add: shape_def nth_opt_def)

lemma get_level_shape: "nth_opt (shape N) a = Some (s, m, b, h) \<Longrightarrow> i < h \<Longrightarrow> \<exists>l. get_level N a i = Some l"
  by (auto simp: nth_opt_shape get_level_def)

lemma get_level_bound: "get_level N a i = Some l \<Longrightarrow> a < length N"
  by (auto simp: get_level_def nth_opt_def split: bind_splits if_splits)

lemma upd_level_spec:
  assumes "get_level N a i = Some l"
  shows "\<exists>N'. upd_level a i f N = Some N' \<and> shape N' = shape N \<and>
    (\<forall>b j. get_level N' b j = (if b = a \<and> j = i then Some (f l) else get_level N b j))"
proof -
  have a: "a < length N" "i < length (sn_level (N ! a))" "sn_level (N ! a) ! i = l"
    using assms by (auto simp: get_level_def nth_opt_def split: bind_splits if_splits)
  have "shape (N[a := (N ! a)\<lparr>sn_level := (sn_level (N ! a))[i := f l]\<rparr>]) = shape N"
    using a by (intro nth_equalityI) (auto simp: shape_def nth_list_update)
  then show ?thesis
    using a by (auto simp: upd_level_def get_level_def nth_opt_def nth_list_update)
qed

lemma upd_node_spec:
  assumes "a < length N" and "\<And>n. sn_level (f n) = sn_level n"
  shows "\<exists>N'. upd_node a f N = Some N' \<and> get_level N' = get_level N \<and> length N' = length N \<and>
    (\<forall>b. nth_opt N' b = (if b = a then map_option f (nth_opt N a) else nth_opt N b))"
  using assms by (auto simp: upd_node_def get_level_def nth_opt_def nth_list_update fun_eq_iff)

lemma ofold_levels_gen:
  assumes "distinct js" and "set js \<subseteq> set is"
    and step: "\<And>i N. i \<in> set is \<Longrightarrow> shape N = shape N0 \<Longrightarrow> \<forall>a. get_level N a i = get_level N0 a i \<Longrightarrow>
      \<exists>N'. f i N = Some N' \<and> shape N' = shape N \<and> (\<forall>a. get_level N' a i = G i a) \<and>
        (\<forall>a j. j \<noteq> i \<longrightarrow> get_level N' a j = get_level N a j)"
    and N: "shape N = shape N0" "\<forall>i \<in> set js. \<forall>a. get_level N a i = get_level N0 a i"
  shows "\<exists>N'. ofold f js N = Some N' \<and> shape N' = shape N0 \<and>
    (\<forall>a i. get_level N' a i = (if i \<in> set js then G i a else get_level N a i))"
  using assms(1,2) N
proof (induction js arbitrary: N)
  case Nil
  then show ?case
    by simp
next
  case (Cons i js)
  obtain N1 where N1: "f i N = Some N1" "shape N1 = shape N" "\<And>a. get_level N1 a i = G i a"
    "\<And>a j. j \<noteq> i \<Longrightarrow> get_level N1 a j = get_level N a j"
    using step [of i N] Cons.prems by auto
  have "\<forall>j \<in> set js. \<forall>a. get_level N1 a j = get_level N0 a j"
    using Cons.prems N1(4) by (metis distinct.simps(2) list.set_intros(2))
  then obtain N' where N': "ofold f js N1 = Some N'" "shape N' = shape N0"
    "\<And>a j. get_level N' a j = (if j \<in> set js then G j a else get_level N1 a j)"
    using Cons.IH [of N1] Cons.prems N1(2) by auto
  have "get_level N' a j = (if j \<in> set (i # js) then G j a else get_level N a j)" for a j
    using N'(3) [of a j] N1(3) [of a] N1(4) [of j a] by auto
  then show ?case
    using N'(1,2) N1(1) by auto
qed

lemma ofold_levels:
  assumes "distinct is"
    and "\<And>i N. i \<in> set is \<Longrightarrow> shape N = shape N0 \<Longrightarrow> \<forall>a. get_level N a i = get_level N0 a i \<Longrightarrow>
      \<exists>N'. f i N = Some N' \<and> shape N' = shape N \<and> (\<forall>a. get_level N' a i = G i a) \<and>
        (\<forall>a j. j \<noteq> i \<longrightarrow> get_level N' a j = get_level N a j)"
  shows "\<exists>N'. ofold f is N0 = Some N' \<and> shape N' = shape N0 \<and>
    (\<forall>a i. get_level N' a i = (if i \<in> set is then G i a else get_level N0 a i))"
  by (rule ofold_levels_gen [OF assms(1) subset_refl assms(2)]) auto

section \<open>Searching\<close>

lemma walk_spec:
  assumes "get_level N cur i = Some (link d (nxt i (xs @ ys)))"
    and "links (\<lambda>a. get_level N a i) i (xs @ ys)" and "NULL_NODE \<notin> idxs (xs @ ys)"
    and "\<forall>t \<in> set xs. \<exists>n. nth_opt N (t_idx t) = Some n \<and> P n"
    and "\<forall>t \<in> set ys. \<exists>n. nth_opt N (t_idx t) = Some n \<and> \<not> P n"
  shows "walk P N i cur r =
    Some (fst (pend i cur d xs), r + of_nat (d + length xs - snd (pend i cur d xs)))"
  using assms
proof (induction xs arbitrary: cur d r)
  case Nil
  show ?case
  proof (cases "fst (nxt i ys) = NULL_NODE")
    case True
    then show ?thesis
      using Nil by (subst walk.simps) (simp add: link_def)
  next
    case False
    then obtain t where "t \<in> set ys" "t_idx t = fst (nxt i ys)"
        using nxt_bounds(1) [of i ys] by (metis imageE image_idxs insertE)
    then show ?thesis
      using Nil False by (subst walk.simps) (auto simp: link_def)
  qed
next
  case (Cons t xs)
  show ?case
  proof (cases "i < t_height t")
    case True
    obtain n where n: "nth_opt N (t_idx t) = Some n" "P n"
      using Cons.prems(4) by auto
    have le: "snd (pend i (t_idx t) 0 xs) \<le> length xs"
      using pend_le [of i "t_idx t" 0 xs] by simp
    have "walk P N i (t_idx t) (r + of_nat (Suc d)) =
        Some (fst (pend i (t_idx t) 0 xs),
          r + of_nat (Suc d) + of_nat (0 + length xs - snd (pend i (t_idx t) 0 xs)))"
      using Cons.prems True by (intro Cons.IH) auto
    moreover have "r + of_nat (Suc d) + of_nat (0 + length xs - snd (pend i (t_idx t) 0 xs))
        = r + of_nat (d + length (t # xs) - snd (pend i (t_idx t) 0 xs))"
      using le by (simp add: of_nat_diff algebra_simps)
    ultimately have "walk P N i (t_idx t) (r + of_nat (Suc d)) =
        Some (fst (pend i cur d (t # xs)), r + of_nat (d + length (t # xs) - snd (pend i cur d (t # xs))))"
      using True by simp
    then show ?thesis
      using Cons.prems True n by (subst walk.simps) (auto simp: link_def add_ac)
  next
    case False
    have "walk P N i cur r = Some (fst (pend i cur (Suc d) xs),
        r + of_nat (Suc d + length xs - snd (pend i cur (Suc d) xs)))"
      using Cons.prems False by (intro Cons.IH) (auto simp: link_def split: prod.splits)
    then show ?thesis
      using False by simp
  qed
qed

definition entry :: "nat \<Rightarrow> tower list \<Rightarrow> nat \<Rightarrow> nat \<times> usize" where
  "entry head xs i = (fst (pend i head 0 xs), of_nat (length xs - snd (pend i head 0 xs)))"

definition stands_at :: "nat \<Rightarrow> nat \<Rightarrow> nat \<Rightarrow> tower list \<Rightarrow> bool" where
  "stands_at head cur i xs \<longleftrightarrow>
     xs = [] \<and> cur = head \<or> (\<exists>zs t. xs = zs @ [t] \<and> t_idx t = cur \<and> i \<le> t_height t)"

lemma stands_at_pend: "stands_at head cur (Suc i) xs \<Longrightarrow> pend i head 0 xs = (cur, 0)"
  by (auto simp: stands_at_def pend_append split: prod.splits)

lemma search_spec:
  assumes "\<forall>j < i. get_level N head j = Some (link 0 (nxt j (xs @ ys))) \<and>
      links (\<lambda>a. get_level N a j) j (xs @ ys)" and null: "NULL_NODE \<notin> idxs (xs @ ys)"
    and P: "\<forall>t \<in> set xs. \<exists>n. nth_opt N (t_idx t) = Some n \<and> P n"
      "\<forall>t \<in> set ys. \<exists>n. nth_opt N (t_idx t) = Some n \<and> \<not> P n"
    and "xs = as @ bs" and "stands_at head cur i as"
  shows "search P N i cur (of_nat (length as)) acc =
    (let (c, r) = (if i = 0 then (cur, of_nat (length as)) else entry head xs 0)
     in Some (c, r, map (entry head xs) [0..<i] @ acc))"
  using assms(1,5,6)
proof (induction i arbitrary: cur as bs acc)
  case 0
  then show ?case
    by simp
next
  case (Suc i)
  have lv: "get_level N cur i = Some (link 0 (nxt i (bs @ ys)))"
  proof (cases as rule: rev_cases)
    case Nil
    then show ?thesis
      using Suc.prems by (auto simp: stands_at_def)
  next
    case (snoc zs t)
    then show ?thesis
      using Suc.prems links_append [of "\<lambda>a. get_level N a i" i zs t "bs @ ys"]
      by (auto simp: stands_at_def)
  qed
  have lk: "links (\<lambda>a. get_level N a i) i (bs @ ys)"
    using Suc.prems(1,2) links_suffix [of _ i as] by auto
  have pend: "pend i head 0 xs = pend i cur 0 bs"
    using stands_at_pend [OF Suc.prems(3)] Suc.prems(2) by (simp add: pend_append)
  obtain u e where ue: "pend i cur 0 bs = (u, e)"
    by force
  obtain cs ds where cd: "bs = cs @ ds" "length ds = e"
    "cs = [] \<and> u = cur \<or> (\<exists>zs t. cs = zs @ [t] \<and> t_idx t = u \<and> i < t_height t)"
    using pend_split [OF ue] by metis
  have w: "walk P N i cur (of_nat (length as)) = Some (u, of_nat (length (as @ cs)))"
    using walk_spec [OF lv lk _ _ P(2), of "of_nat (length as)"] null P(1) Suc.prems(2) ue cd
    by auto
  have at: "stands_at head u i (as @ cs)"
    using cd(3) Suc.prems(3) by (auto simp: stands_at_def)
  have ent: "entry head xs i = (u, of_nat (length (as @ cs)))"
    using ue pend cd Suc.prems(2) by (simp add: entry_def)
  have "search P N i u (of_nat (length (as @ cs))) ((u, of_nat (length (as @ cs))) # acc) =
    (let (c, r) = (if i = 0 then (u, of_nat (length (as @ cs))) else entry head xs 0)
     in Some (c, r, map (entry head xs) [0..<i] @ (u, of_nat (length (as @ cs))) # acc))"
    using Suc.prems at cd by (intro Suc.IH) auto
  then show ?case
    using w ent by (auto simp: Let_def split: prod.splits)
qed

section \<open>The invariant\<close>

definition level_ok :: "SNode list \<Rightarrow> tower list \<Rightarrow> nat \<Rightarrow> bool" where
  "level_ok N ts i \<longleftrightarrow>
     get_level N 0 i = Some (link 0 (nxt i ts)) \<and> links (\<lambda>a. get_level N a i) i ts"

fun stored :: "(f64 \<times> bytes \<times> nat \<times> nat) list \<Rightarrow> nat \<Rightarrow> tower list \<Rightarrow> bool" where
  "stored S pr [] \<longleftrightarrow> True"
| "stored S pr (t # ts) \<longleftrightarrow>
     nth_opt S (t_idx t) = Some (t_score t, t_member t, pr, t_height t) \<and> stored S (t_idx t) ts"

definition last_idx :: "nat \<Rightarrow> tower list \<Rightarrow> nat" where
  "last_idx pr xs = (if xs = [] then pr else t_idx (last xs))"

definition zsl_ok :: "SkipList \<Rightarrow> tower list \<Rightarrow> bool" where
  "zsl_ok sl ts \<longleftrightarrow>
     sl_head sl = 0 \<and> 1 \<le> max_level sl \<and> max_level sl \<le> ZSKIPLIST_MAXLEVEL \<and>
     length (nodes sl) \<le> NODE_LIMIT \<and>
     distinct (0 # map t_idx ts @ free_list sl) \<and>
     insert 0 (idxs ts \<union> set (free_list sl)) = {..<length (nodes sl)} \<and>
     (\<forall>t \<in> set ts. 1 \<le> t_height t \<and> t_height t \<le> max_level sl) \<and>
     stored (shape (nodes sl)) NULL_NODE ts \<and>
     (\<forall>i < max_level sl. level_ok (nodes sl) ts i) \<and>
     (\<forall>i. max_level sl \<le> i \<and> i < ZSKIPLIST_MAXLEVEL \<longrightarrow>
        (\<exists>w. get_level (nodes sl) 0 i = Some \<lparr>forward = NULL_NODE, span = w\<rparr>)) \<and>
     sl_tail sl = last_idx NULL_NODE ts \<and> sl_length sl = length ts"

lemma zsl_okD:
  assumes "zsl_ok sl ts"
  shows "sl_head sl = 0" "1 \<le> max_level sl" "max_level sl \<le> ZSKIPLIST_MAXLEVEL"
    "length (nodes sl) \<le> NODE_LIMIT" "distinct (0 # map t_idx ts @ free_list sl)"
    "insert 0 (idxs ts \<union> set (free_list sl)) = {..<length (nodes sl)}"
    "\<And>t. t \<in> set ts \<Longrightarrow> 1 \<le> t_height t \<and> t_height t \<le> max_level sl"
    "stored (shape (nodes sl)) NULL_NODE ts"
    "\<And>i. i < max_level sl \<Longrightarrow> level_ok (nodes sl) ts i"
    "\<And>i. max_level sl \<le> i \<Longrightarrow> i < ZSKIPLIST_MAXLEVEL \<Longrightarrow>
      \<exists>w. get_level (nodes sl) 0 i = Some \<lparr>forward = NULL_NODE, span = w\<rparr>"
    "sl_tail sl = last_idx NULL_NODE ts" "sl_length sl = length ts"
  using assms by (auto simp: zsl_ok_def)

lemma NODE_LIMIT_less: "n \<le> NODE_LIMIT \<Longrightarrow> n < NULL_NODE"
  by (simp add: NODE_LIMIT_def NULL_NODE_def USIZE_MAX_def)

lemma zsl_idx_less: "zsl_ok sl ts \<Longrightarrow> a \<in> idxs ts \<Longrightarrow> a < length (nodes sl) \<and> a \<noteq> 0"
  using zsl_okD(5,6) [of sl ts] by fastforce

lemma zsl_NULL: "zsl_ok sl ts \<Longrightarrow> NULL_NODE \<notin> idxs ts"
  using zsl_idx_less [of sl ts NULL_NODE] zsl_okD(4) [of sl ts] NODE_LIMIT_less by fastforce

lemma stored_append: "stored S pr (xs @ ys) \<longleftrightarrow> stored S pr xs \<and> stored S (last_idx pr xs) ys"
  by (induction xs arbitrary: pr) (auto simp: last_idx_def)

lemma stored_node:
  assumes "stored S pr ts" and "t \<in> set ts"
  shows "\<exists>b. nth_opt S (t_idx t) = Some (t_score t, t_member t, b, t_height t)"
  using assms by (induction ts arbitrary: pr) auto

lemma stored_cong:
  "(\<And>a. a \<in> idxs ts \<Longrightarrow> nth_opt S' a = nth_opt S a) \<Longrightarrow> stored S' pr ts = stored S pr ts"
  by (induction ts arbitrary: pr) auto

lemma zsl_node:
  assumes "zsl_ok sl ts" and "t \<in> set ts"
  shows "\<exists>n. nth_opt (nodes sl) (t_idx t) = Some n \<and> score n = t_score t \<and> member n = t_member t"
  using stored_node [OF zsl_okD(8) [OF assms(1)] assms(2)] by (auto simp: nth_opt_shape)

lemma pend_link:
  assumes "g cur = Some (link d (nxt i (xs @ ys)))" and "links g i (xs @ ys)"
    and "pend i cur d xs = (u, e)"
  shows "g u = Some (link e (nxt i ys))"
  using assms
proof (induction xs arbitrary: cur d)
  case (Cons t xs)
  show ?case
  proof (cases "i < t_height t")
    case True
    then show ?thesis
      using Cons.prems by (intro Cons.IH [of "t_idx t" 0]) auto
  next
    case False
    then show ?thesis
      using Cons.prems by (intro Cons.IH [of cur "Suc d"]) (auto simp: link_def split: prod.splits)
  qed
qed simp

lemma pend_zero:
  "\<forall>t \<in> set xs. 1 \<le> t_height t \<Longrightarrow> pend 0 cur 0 xs = (last_idx cur xs, 0)"
proof (induction xs arbitrary: cur)
  case (Cons t xs)
  then show ?case
    by (simp add: last_idx_def Suc_le_lessD)
qed (simp add: last_idx_def)

lemma entry_zero:
  "\<forall>t \<in> set xs. 1 \<le> t_height t \<Longrightarrow> entry 0 xs 0 = (last_idx 0 xs, of_nat (length xs))"
  by (simp add: entry_def pend_zero)

lemma nxt_zero:
  "\<forall>t \<in> set ts. 1 \<le> t_height t \<Longrightarrow> nxt 0 ts = (case ts of [] \<Rightarrow> (NULL_NODE, 0) | t # _ \<Rightarrow> (t_idx t, 1))"
  by (cases ts) (auto simp: Suc_le_eq)

text \<open>The predicates of the searches look at score and member only.\<close>

definition node_view :: "(SNode \<Rightarrow> bool) \<Rightarrow> (tower \<Rightarrow> bool) \<Rightarrow> bool" where
  "node_view P Q \<longleftrightarrow> (\<forall>n t. score n = t_score t \<and> member n = t_member t \<longrightarrow> P n = Q t)"

lemma zsl_search:
  assumes ok: "zsl_ok sl (xs @ ys)" and view: "node_view P Q"
    and "\<forall>t \<in> set xs. Q t" and "\<forall>t \<in> set ys. \<not> Q t"
  shows "search P (nodes sl) (max_level sl) (sl_head sl) 0 [] =
    Some (last_idx 0 xs, of_nat (length xs), map (entry 0 xs) [0..<max_level sl])"
proof -
  have nd: "\<exists>n. nth_opt (nodes sl) (t_idx t) = Some n \<and> P n = Q t" if "t \<in> set (xs @ ys)" for t
    using zsl_node [OF ok that] view by (auto simp: node_view_def)
  have ent: "entry 0 xs 0 = (last_idx 0 xs, of_nat (length xs))"
    using zsl_okD(7) [OF ok] by (intro entry_zero) auto
  have "search P (nodes sl) (max_level sl) 0 (of_nat (length ([] :: tower list))) [] =
    (let (c, r) = (if max_level sl = 0 then (0, of_nat (length ([] :: tower list))) else entry 0 xs 0)
     in Some (c, r, map (entry 0 xs) [0..<max_level sl] @ []))"
    using zsl_okD(9) [OF ok] zsl_NULL [OF ok] nd assms(3,4)
    by (intro search_spec [where ys = ys and bs = xs])
      (force simp: level_ok_def stands_at_def)+
  then show ?thesis
    using zsl_okD(1,2) [OF ok] ent by simp
qed

section \<open>Insertion\<close>

lemma random_level_bounds: "1 \<le> random_level ds \<and> random_level ds \<le> ZSKIPLIST_MAXLEVEL"
proof -
  have "l \<le> ZSKIPLIST_MAXLEVEL \<Longrightarrow> l \<le> random_level_from l ds \<and> random_level_from l ds \<le> ZSKIPLIST_MAXLEVEL" for l
    by (induction l ds rule: random_level_from.induct) auto
  then show ?thesis
    by (simp add: random_level_def ZSKIPLIST_MAXLEVEL_def)
qed

lemma nxt_short: "\<forall>t \<in> set ts. t_height t \<le> i \<Longrightarrow> nxt i ts = (NULL_NODE, length ts)"
  by (induction ts) auto

lemma pend_short: "\<forall>t \<in> set ts. t_height t \<le> i \<Longrightarrow> pend i cur d ts = (cur, d + length ts)"
  by (induction ts arbitrary: d) auto

lemma raise_spec:
  assumes ok: "zsl_ok sl ts" and l: "max_level sl < l" "l \<le> ZSKIPLIST_MAXLEVEL"
  shows "\<exists>N. ofold (raise_level (sl_head sl) (sl_length sl)) [max_level sl..<l] (nodes sl) = Some N \<and>
    zsl_ok (sl\<lparr>nodes := N, max_level := l\<rparr>) ts \<and> length N = length (nodes sl)"
proof -
  let ?G = "\<lambda>i a. if a = 0 then Some (link 0 (nxt i ts)) else get_level (nodes sl) a i"
  note D = zsl_okD [OF ok]
  have step: "\<exists>N'. raise_level (sl_head sl) (sl_length sl) i N = Some N' \<and> shape N' = shape N \<and>
      (\<forall>a. get_level N' a i = ?G i a) \<and> (\<forall>a j. j \<noteq> i \<longrightarrow> get_level N' a j = get_level N a j)"
    if i: "i \<in> set [max_level sl..<l]" and "shape N = shape (nodes sl)"
      and g: "\<forall>a. get_level N a i = get_level (nodes sl) a i" for i N
  proof -
    obtain w where "get_level N 0 i = Some \<lparr>forward = NULL_NODE, span = w\<rparr>"
      using D(10) [of i] i l g by auto
    moreover have "nxt i ts = (NULL_NODE, length ts)"
      using D(7) i by (intro nxt_short) fastforce
    ultimately show ?thesis
      using upd_level_spec [of N 0 i _ "\<lambda>l. l\<lparr>span := of_nat (sl_length sl)\<rparr>"] D(1,12) g
      by (fastforce simp: raise_level_def link_def)
  qed
  obtain N where
    N: "ofold (raise_level (sl_head sl) (sl_length sl)) [max_level sl..<l] (nodes sl) = Some N"
      "shape N = shape (nodes sl)"
      "\<And>a i. get_level N a i = (if i \<in> set [max_level sl..<l] then ?G i a else get_level (nodes sl) a i)"
    using ofold_levels [OF distinct_upt step] by blast
  have "level_ok N ts i" if "i < l" for i
  proof (cases "i < max_level sl")
    case True
    then show ?thesis
      using D(9) [OF True] N(3) by (simp add: level_ok_def)
  next
    case False
    then have "links (\<lambda>a. get_level N a i) i ts"
      using D(7) by (intro links_short) fastforce
    then show ?thesis
      using False that N(3) [of 0 i] by (simp add: level_ok_def)
  qed
  moreover have len: "length N = length (nodes sl)"
    using shape_length [OF N(2)] .
  ultimately have "zsl_ok (sl\<lparr>nodes := N, max_level := l\<rparr>) ts"
    using D l N(2,3) by (fastforce simp: zsl_ok_def)
  then show ?thesis
    using N(1) len by blast
qed

lemma allocate_spec:
  assumes ok: "zsl_ok sl ts" and room: "free_list sl \<noteq> [] \<or> length (nodes sl) < NODE_LIMIT"
  shows "\<exists>N fl a. allocate_node sc m h sl = Some (sl\<lparr>nodes := N, free_list := fl\<rparr>, a) \<and>
    a \<noteq> 0 \<and> a \<notin> idxs ts \<and> a < length N \<and> length N \<le> NODE_LIMIT \<and>
    distinct (0 # a # map t_idx ts @ fl) \<and> insert 0 (insert a (idxs ts \<union> set fl)) = {..<length N} \<and>
    (\<forall>b. b \<noteq> a \<longrightarrow> nth_opt N b = nth_opt (nodes sl) b) \<and>
    nth_opt N a = Some \<lparr>score = sc, member = m, backward = NULL_NODE, sn_level = replicate h null_level\<rparr>"
proof (cases "free_list sl" rule: rev_cases)
  case Nil
  note D = zsl_okD [OF ok]
  have "length (nodes sl) \<notin> {..<length (nodes sl)}"
    by simp
  then have new: "length (nodes sl) \<noteq> 0" "length (nodes sl) \<notin> idxs ts"
    unfolding D(6) [symmetric] by auto
  let ?N = "nodes sl @ [\<lparr>score = sc, member = m, backward = NULL_NODE, sn_level = replicate h null_level\<rparr>]"
  have "insert 0 (insert (length (nodes sl)) (idxs ts \<union> set [])) = {..<length ?N}"
    unfolding length_append_singleton lessThan_Suc D(6) [symmetric] using Nil by auto
  moreover have "distinct (0 # length (nodes sl) # map t_idx ts @ [])"
    using D(5) Nil new by simp
  moreover have "\<forall>b. b \<noteq> length (nodes sl) \<longrightarrow> nth_opt ?N b = nth_opt (nodes sl) b"
    by (auto simp: nth_opt_def nth_append)
  moreover have "allocate_node sc m h sl = Some (sl\<lparr>nodes := ?N, free_list := []\<rparr>, length (nodes sl))"
    using Nil room by (simp add: allocate_node_def)
  moreover have "nth_opt ?N (length (nodes sl)) =
      Some \<lparr>score = sc, member = m, backward = NULL_NODE, sn_level = replicate h null_level\<rparr>"
    by simp
  moreover have "length ?N \<le> NODE_LIMIT" "length (nodes sl) < length ?N"
    using Nil room by simp_all
  ultimately show ?thesis
    using new by blast
next
  case (snoc fl a)
  note D = zsl_okD [OF ok]
  have "a \<in> {..<length (nodes sl)}"
    unfolding D(6) [symmetric] using snoc by auto
  then show ?thesis
    using D(4,5,6) snoc
    by (intro exI [of _ "(nodes sl)[a := \<lparr>score = sc, member = m, backward = NULL_NODE,
          sn_level = replicate h null_level\<rparr>]"] exI [of _ fl] exI [of _ a])
      (auto simp: allocate_node_def nth_opt_def)
qed

lemma link_level_spec:
  assumes lu: "get_level N u i = Some lu" and la: "get_level N a i = Some la" and "a \<noteq> u"
    and upd: "nth_opt upd i = Some (u, ri)" "nth_opt upd 0 = Some (u0, r0)"
  shows "\<exists>N'. link_level a upd i N = Some N' \<and> shape N' = shape N \<and>
    (\<forall>b j. get_level N' b j =
       (if b = a \<and> j = i then Some \<lparr>forward = forward lu, span = span lu - (r0 - ri)\<rparr>
        else if b = u \<and> j = i then Some \<lparr>forward = a, span = (r0 - ri) + 1\<rparr>
        else get_level N b j))"
proof -
  obtain N1 where N1: "upd_level a i (\<lambda>l. l\<lparr>forward := forward lu\<rparr>) N = Some N1" "shape N1 = shape N"
    "\<And>b j. get_level N1 b j = (if b = a \<and> j = i then Some (la\<lparr>forward := forward lu\<rparr>) else get_level N b j)"
    using upd_level_spec [OF la] by blast
  have "get_level N1 u i = Some lu"
    using N1(3) lu \<open>a \<noteq> u\<close> by simp
  then obtain N2 where N2: "upd_level u i (\<lambda>l. l\<lparr>forward := a\<rparr>) N1 = Some N2" "shape N2 = shape N1"
    "\<And>b j. get_level N2 b j = (if b = u \<and> j = i then Some (lu\<lparr>forward := a\<rparr>) else get_level N1 b j)"
    using upd_level_spec by blast
  let ?sd = "r0 - ri"
  have a2: "get_level N2 a i = Some (la\<lparr>forward := forward lu\<rparr>)"
    using N2(3) N1(3) \<open>a \<noteq> u\<close> by simp
  obtain N3 where N3: "upd_level a i (\<lambda>l. l\<lparr>span := span lu - ?sd\<rparr>) N2 = Some N3" "shape N3 = shape N2"
    "\<And>b j. get_level N3 b j = (if b = a \<and> j = i then Some (la\<lparr>forward := forward lu, span := span lu - ?sd\<rparr>)
       else get_level N2 b j)"
    using upd_level_spec [OF a2, of "\<lambda>l. l\<lparr>span := span lu - ?sd\<rparr>"] by auto
  have u3: "get_level N3 u i = Some (lu\<lparr>forward := a\<rparr>)"
    using N3(3) N2(3) \<open>a \<noteq> u\<close> by simp
  obtain N4 where N4: "upd_level u i (\<lambda>l. l\<lparr>span := ?sd + 1\<rparr>) N3 = Some N4" "shape N4 = shape N3"
    "\<And>b j. get_level N4 b j = (if b = u \<and> j = i then Some (lu\<lparr>forward := a, span := ?sd + 1\<rparr>)
       else get_level N3 b j)"
    using upd_level_spec [OF u3, of "\<lambda>l. l\<lparr>span := ?sd + 1\<rparr>"] by auto
  have "link_level a upd i N = Some N4"
    using upd lu N1(1) N2(1,3) N3(1) N4(1) by (simp add: link_level_def)
  moreover have "get_level N4 b j =
       (if b = a \<and> j = i then Some \<lparr>forward = forward lu, span = span lu - ?sd\<rparr>
        else if b = u \<and> j = i then Some \<lparr>forward = a, span = ?sd + 1\<rparr>
        else get_level N b j)" for b j
    using N4(3) [of b j] N3(3) [of b j] N2(3) [of b j] N1(3) [of b j] \<open>a \<noteq> u\<close> by auto
  ultimately show ?thesis
    using N1(2) N2(2) N3(2) N4(2) by auto
qed

text \<open>The two loops of \<^verbatim>\<open>insert\<close> together: the new node is linked in below its height and the
  spans that cross it grow above.\<close>

lemma insert_loops:
  assumes lv: "\<And>i. i < m \<Longrightarrow> level_ok N (xs @ ys) i"
    and d: "distinct (0 # a # map t_idx (xs @ ys))" and hm: "1 \<le> h" "h \<le> m"
    and new: "\<And>i. i < h \<Longrightarrow> get_level N a i = Some null_level"
    and upd: "upd = map (entry 0 xs) [0..<m]" and ht: "\<forall>t \<in> set xs. 1 \<le> t_height t"
  shows "\<exists>N2 N3. ofold (link_level a upd) [0..<h] N = Some N2 \<and>
    ofold (bump_level upd) [h..<m] N2 = Some N3 \<and> shape N3 = shape N \<and>
    (\<forall>i < m. level_ok N3 (xs @ Tower a sc mem h # ys) i) \<and>
    (\<forall>i \<ge> m. \<forall>b. get_level N3 b i = get_level N b i)"
proof -
  define u where "u i = fst (pend i 0 0 xs)" for i
  define e where "e i = snd (pend i 0 0 xs)" for i
  have ue: "pend i 0 0 xs = (u i, e i)" for i
    by (simp add: u_def e_def)
  have upd_i: "nth_opt upd i = Some (u i, of_nat (length xs - e i))" if "i < m" for i
    using that by (simp add: upd entry_def ue)
  have upd_0: "nth_opt upd 0 = Some (last_idx 0 xs, of_nat (length xs))"
    using hm entry_zero [OF ht] by (simp add: upd)
  have sd: "(of_nat (length xs) :: usize) - of_nat (length xs - e i) = of_nat (e i)" for i
    using pend_le [of i 0 0 xs] by (simp add: e_def of_nat_diff)
  have lu: "get_level N (u i) i = Some (link (e i) (nxt i ys))" if "i < m" for i
    using pend_link [of "\<lambda>b. get_level N b i", OF _ _ ue] lv [OF that] by (auto simp: level_ok_def)
  have ua: "u i \<noteq> a" for i
    using pend_idx [of i 0 0 xs] d by (auto simp: u_def)
  let ?G = "\<lambda>i b. if b = a then Some (link 0 (nxt i ys))
    else if b = u i then Some \<lparr>forward = a, span = of_nat (Suc (e i))\<rparr> else get_level N b i"
  have step: "\<exists>N'. link_level a upd i M = Some N' \<and> shape N' = shape M \<and> (\<forall>b. get_level N' b i = ?G i b) \<and>
      (\<forall>b j. j \<noteq> i \<longrightarrow> get_level N' b j = get_level M b j)"
    if i: "i \<in> set [0..<h]" and "shape M = shape N" and g: "\<forall>b. get_level M b i = get_level N b i" for i M
  proof -
    have im: "i < m" "i < h"
      using i hm by auto
    have lM: "get_level M (u i) i = Some (link (e i) (nxt i ys))" "get_level M a i = Some null_level"
      using g lu [OF im(1)] new [OF im(2)] by auto
    have sp: "span (link (e i) (nxt i ys)) - (of_nat (length xs) - of_nat (length xs - e i)) = of_nat (snd (nxt i ys))"
      unfolding sd by (simp add: link_def)
    show ?thesis
      using link_level_spec [OF lM ua [symmetric] upd_i [OF im(1)] upd_0] g
      unfolding sp sd by (fastforce simp: link_def add.commute)
  qed
  obtain N2 where N2: "ofold (link_level a upd) [0..<h] N = Some N2" "shape N2 = shape N"
    "\<And>b i. get_level N2 b i = (if i \<in> set [0..<h] then ?G i b else get_level N b i)"
    using ofold_levels [OF distinct_upt step] by blast
  let ?H = "\<lambda>i b. if b = u i then map_option (\<lambda>l. l\<lparr>span := span l + 1\<rparr>) (get_level N b i) else get_level N b i"
  have step2: "\<exists>N'. bump_level upd i M = Some N' \<and> shape N' = shape M \<and> (\<forall>b. get_level N' b i = ?H i b) \<and>
      (\<forall>b j. j \<noteq> i \<longrightarrow> get_level N' b j = get_level M b j)"
    if i: "i \<in> set [h..<m]" and "shape M = shape N2" and g: "\<forall>b. get_level M b i = get_level N2 b i" for i M
  proof -
    have im: "i < m" "\<not> i < h"
      using i by auto
    have gN: "get_level M b i = get_level N b i" for b
      using g N2(3) im(2) by simp
    have "get_level M (u i) i = Some (link (e i) (nxt i ys))"
      using gN lu [OF im(1)] by simp
    from upd_level_spec [OF this, of "\<lambda>l. l\<lparr>span := span l + 1\<rparr>"] show ?thesis
      using upd_i [OF im(1)] gN lu [OF im(1)] by (fastforce simp: bump_level_def)
  qed
  obtain N3 where N3: "ofold (bump_level upd) [h..<m] N2 = Some N3" "shape N3 = shape N2"
    "\<And>b i. get_level N3 b i = (if i \<in> set [h..<m] then ?H i b else get_level N2 b i)"
    using ofold_levels [OF distinct_upt step2] by blast
  have "level_ok N3 (xs @ Tower a sc mem h # ys) i" if "i < m" for i
  proof (cases "i < h")
    case True
    then have "(\<lambda>b. get_level N3 b i) = (\<lambda>b. get_level N b i)
        (a := Some (link 0 (nxt i ys)), u i := Some \<lparr>forward = a, span = of_nat (Suc (e i))\<rparr>)"
      using N3(3) [of _ i] N2(3) [of _ i] ua [of i] by (auto simp: fun_eq_iff)
    then show ?thesis
      using level_insert_tall [of "\<lambda>b. get_level N b i" 0 0 i xs ys a h "u i" "e i" "\<lambda>b. get_level N3 b i" sc mem]
        lv [OF that] d True ue by (auto simp: level_ok_def)
  next
    case False
    then have "(\<lambda>b. get_level N3 b i) = (\<lambda>b. get_level N b i)
        (u i := map_option (\<lambda>l. l\<lparr>span := span l + 1\<rparr>) (get_level N (u i) i))"
      using N3(3) [of _ i] that by (auto simp: fun_eq_iff)
    then show ?thesis
      using level_insert_short [of "\<lambda>b. get_level N b i" 0 0 i xs ys a h "u i" "e i" "\<lambda>b. get_level N3 b i" sc mem]
        lv [OF that] d False ue by (auto simp: level_ok_def)
  qed
  moreover have "get_level N3 b i = get_level N b i" if "m \<le> i" for i b
    using N3(3) [of b i] N2(3) [of b i] that hm by auto
  ultimately show ?thesis
    using N2 N3 by auto
qed

lemma stored_insert:
  assumes "stored S NULL_NODE (xs @ ys)" and "distinct (a # map t_idx (xs @ ys))"
    and "nth_opt S' a = Some (sc, m, last_idx NULL_NODE xs, h)"
    and "\<And>b. b \<noteq> a \<Longrightarrow> nth_opt S' b =
      (if ys \<noteq> [] \<and> b = t_idx (hd ys) then map_option (\<lambda>(s, m, _, h). (s, m, a, h)) (nth_opt S b) else nth_opt S b)"
  shows "stored S' NULL_NODE (xs @ Tower a sc m h # ys)"
proof -
  have "stored S' NULL_NODE xs = stored S NULL_NODE xs"
    using assms(2,4) by (intro stored_cong) (cases ys; force)
  moreover have "stored S' a ys"
  proof (cases ys)
    case (Cons y zs)
    have "stored S' (t_idx y) zs = stored S (t_idx y) zs"
      using assms(2,4) Cons by (intro stored_cong) force
    then show ?thesis
      using assms(1,2,4) Cons by (auto simp: stored_append)
  qed simp
  ultimately show ?thesis
    using assms(1,3) by (simp add: stored_append)
qed

definition t_before :: "f64 \<Rightarrow> bytes \<Rightarrow> tower \<Rightarrow> bool" where
  "t_before sc m t \<longleftrightarrow> f64_lt (t_score t) sc \<or> f64_eq (t_score t) sc \<and> t_member t < m"

lemma view_before: "node_view (before sc m) (t_before sc m)"
  by (simp add: node_view_def before_def t_before_def)

lemma insert_prepare:
  assumes ok: "zsl_ok sl (xs @ ys)" and h: "1 \<le> h" "h \<le> ZSKIPLIST_MAXLEVEL"
  shows "\<exists>sl1. (if h > max_level sl then
        do { N \<leftarrow> ofold (raise_level (sl_head sl) (sl_length sl)) [max_level sl..<h] (nodes sl);
             Some (sl\<lparr>nodes := N, max_level := h\<rparr>,
               map (entry 0 xs) [0..<max_level sl] @ replicate (h - max_level sl) (sl_head sl, 0)) }
      else Some (sl, map (entry 0 xs) [0..<max_level sl])) =
      Some (sl1, map (entry 0 xs) [0..<max_level sl1]) \<and> zsl_ok sl1 (xs @ ys) \<and> h \<le> max_level sl1 \<and>
    free_list sl1 = free_list sl \<and> length (nodes sl1) = length (nodes sl)"
proof (cases "h > max_level sl")
  case True
  note D = zsl_okD [OF ok]
  obtain N where N: "ofold (raise_level (sl_head sl) (sl_length sl)) [max_level sl..<h] (nodes sl) = Some N"
    "zsl_ok (sl\<lparr>nodes := N, max_level := h\<rparr>) (xs @ ys)" "length N = length (nodes sl)"
    using raise_spec [OF ok True h(2)] by blast
  have "entry 0 xs i = (0, 0)" if "max_level sl \<le> i" for i
    using D(7) that by (subst entry_def, subst (1 2) pend_short) fastforce+
  then have "map (entry 0 xs) [0..<h] =
      map (entry 0 xs) [0..<max_level sl] @ replicate (h - max_level sl) (sl_head sl, 0)"
    using True D(1) by (intro nth_equalityI) (auto simp: nth_append)
  then show ?thesis
    using True N by simp
next
  case False
  then show ?thesis
    using ok by simp
qed

lemma upd_node_shape:
  assumes "a < length N"
  shows "\<exists>N'. upd_node a (\<lambda>n. n\<lparr>backward := p\<rparr>) N = Some N' \<and> get_level N' = get_level N \<and>
    length N' = length N \<and>
    (\<forall>b. nth_opt (shape N') b =
      (if b = a then map_option (\<lambda>(s, m, _, h). (s, m, p, h)) (nth_opt (shape N) b) else nth_opt (shape N) b))"
proof -
  obtain N' where N': "upd_node a (\<lambda>n. n\<lparr>backward := p\<rparr>) N = Some N'" "get_level N' = get_level N"
    "length N' = length N"
    "\<And>b. nth_opt N' b = (if b = a then map_option (\<lambda>n. n\<lparr>backward := p\<rparr>) (nth_opt N a) else nth_opt N b)"
    using upd_node_spec [OF assms, of "\<lambda>n. n\<lparr>backward := p\<rparr>"] by auto
  then show ?thesis
    by (auto simp: nth_opt_shape option.map_comp comp_def)
qed

text \<open>Allocation and the two loops.\<close>

definition linked_in :: "SkipList \<Rightarrow> SNode list \<Rightarrow> nat list \<Rightarrow> tower list \<Rightarrow> tower \<Rightarrow> tower list \<Rightarrow> bool" where
  "linked_in sl N fl xs t ys \<longleftrightarrow>
     length N \<le> NODE_LIMIT \<and> distinct (0 # t_idx t # map t_idx (xs @ ys) @ fl) \<and>
     insert 0 (insert (t_idx t) (idxs (xs @ ys) \<union> set fl)) = {..<length N} \<and>
     (\<forall>i < max_level sl. level_ok N (xs @ t # ys) i) \<and>
     (\<forall>i \<ge> max_level sl. get_level N 0 i = get_level (nodes sl) 0 i) \<and>
     (\<forall>b. b \<noteq> t_idx t \<longrightarrow> nth_opt (shape N) b = nth_opt (shape (nodes sl)) b) \<and>
     nth_opt (shape N) (t_idx t) = Some (t_score t, t_member t, NULL_NODE, t_height t)"

lemma insert_link:
  assumes ok: "zsl_ok sl (xs @ ys)" and h: "1 \<le> h" "h \<le> max_level sl"
    and room: "free_list sl \<noteq> [] \<or> length (nodes sl) < NODE_LIMIT"
    and upd: "upd = map (entry 0 xs) [0..<max_level sl]"
  shows "\<exists>N fl a N2 N3. allocate_node sc m h sl = Some (sl\<lparr>nodes := N, free_list := fl\<rparr>, a) \<and>
    ofold (link_level a upd) [0..<h] N = Some N2 \<and>
    ofold (bump_level upd) [h..<max_level sl] N2 = Some N3 \<and>
    linked_in sl N3 fl xs (Tower a sc m h) ys"
proof -
  note D = zsl_okD [OF ok]
  obtain N fl a where
    al: "allocate_node sc m h sl = Some (sl\<lparr>nodes := N, free_list := fl\<rparr>, a)"
    and a: "a \<noteq> 0" "a \<notin> idxs (xs @ ys)" "a < length N" "length N \<le> NODE_LIMIT"
      "distinct (0 # a # map t_idx (xs @ ys) @ fl)"
      "insert 0 (insert a (idxs (xs @ ys) \<union> set fl)) = {..<length N}"
    and N: "\<And>b. b \<noteq> a \<Longrightarrow> nth_opt N b = nth_opt (nodes sl) b"
      "nth_opt N a = Some \<lparr>score = sc, member = m, backward = NULL_NODE, sn_level = replicate h null_level\<rparr>"
    using allocate_spec [OF ok room, of sc m h] by auto
  have gN: "get_level N b = get_level (nodes sl) b" if "b \<noteq> a" for b
    using N(1) [OF that] by (simp add: get_level_def fun_eq_iff)
  have lv: "level_ok N (xs @ ys) i" if "i < max_level sl" for i
  proof -
    have "links (\<lambda>b. get_level N b i) i (xs @ ys) = links (\<lambda>b. get_level (nodes sl) b i) i (xs @ ys)"
      using gN a(2) by (intro links_cong) metis
    then show ?thesis
      using D(9) [OF that] gN [of 0] a(1) by (simp add: level_ok_def)
  qed
  have d: "distinct (0 # a # map t_idx (xs @ ys))"
    using a(5) by auto
  have new: "get_level N a i = Some null_level" if "i < h" for i
    using N(2) that by (simp add: get_level_def)
  have ht: "\<forall>t \<in> set xs. 1 \<le> t_height t"
    using D(7) by auto
  obtain N2 N3 where
    loops: "ofold (link_level a upd) [0..<h] N = Some N2" "ofold (bump_level upd) [h..<max_level sl] N2 = Some N3"
    and N3: "shape N3 = shape N" "\<And>i. i < max_level sl \<Longrightarrow> level_ok N3 (xs @ Tower a sc m h # ys) i"
      "\<And>i b. max_level sl \<le> i \<Longrightarrow> get_level N3 b i = get_level N b i"
    using insert_loops [OF lv d h new upd ht, of sc m] by blast
  have "linked_in sl N3 fl xs (Tower a sc m h) ys"
    using shape_length [OF N3(1)] a N N3 gN [of 0] by (auto simp: linked_in_def nth_opt_shape)
  then show ?thesis
    using al loops by blast
qed

text \<open>The last phase sets the backward links and the tail.\<close>

lemma insert_backlinks:
  assumes ok: "zsl_ok sl (xs @ ys)" and h: "1 \<le> h" "h \<le> max_level sl"
    and li: "linked_in sl N fl xs (Tower a sc m h) ys"
    and prev: "prev = (if last_idx 0 xs = 0 then NULL_NODE else last_idx 0 xs)"
  shows "\<exists>N4 l0 sl'. upd_node a (\<lambda>n. n\<lparr>backward := prev\<rparr>) N = Some N4 \<and> get_level N4 a 0 = Some l0 \<and>
    (if forward l0 \<noteq> NULL_NODE then
        do { N5 \<leftarrow> upd_node (forward l0) (\<lambda>n. n\<lparr>backward := a\<rparr>) N4;
             Some (sl\<lparr>free_list := fl, nodes := N5, sl_length := Suc (sl_length sl)\<rparr>, a) }
      else Some (sl\<lparr>free_list := fl, nodes := N4, sl_tail := a, sl_length := Suc (sl_length sl)\<rparr>, a)) =
      Some (sl', a) \<and>
    zsl_ok sl' (xs @ Tower a sc m h # ys)"
proof -
  let ?ts = "xs @ Tower a sc m h # ys"
  note D = zsl_okD [OF ok]
  have L: "length N \<le> NODE_LIMIT" "distinct (0 # a # map t_idx (xs @ ys) @ fl)"
    "insert 0 (insert a (idxs (xs @ ys) \<union> set fl)) = {..<length N}"
    "\<And>i. i < max_level sl \<Longrightarrow> level_ok N ?ts i"
    "\<And>i. max_level sl \<le> i \<Longrightarrow> get_level N 0 i = get_level (nodes sl) 0 i"
    "\<And>b. b \<noteq> a \<Longrightarrow> nth_opt (shape N) b = nth_opt (shape (nodes sl)) b"
    "nth_opt (shape N) a = Some (sc, m, NULL_NODE, h)"
    using li by (simp_all add: linked_in_def)
  have aN: "a < length N"
    using L(3) by blast
  have ht: "\<forall>t \<in> set ys. 1 \<le> t_height t"
    using D(7) by auto
  have prev': "prev = last_idx NULL_NODE xs"
    using D(5) prev by (cases xs rule: rev_cases) (auto simp: last_idx_def)
  obtain N4 where N4: "upd_node a (\<lambda>n. n\<lparr>backward := prev\<rparr>) N = Some N4" "get_level N4 = get_level N"
    "length N4 = length N"
    "\<And>b. nth_opt (shape N4) b =
      (if b = a then map_option (\<lambda>(s, m, _, h). (s, m, prev, h)) (nth_opt (shape N) b) else nth_opt (shape N) b)"
    using upd_node_shape [OF aN] by blast
  define l0 where "l0 = link 0 (nxt 0 ys)"
  have l0: "get_level N4 a 0 = Some l0"
    using L(4) [of 0] D(2) h(1) links_append [of "\<lambda>b. get_level N b 0" 0 xs "Tower a sc m h" ys]
    by (simp add: N4(2) level_ok_def l0_def)
  have fwd: "forward l0 = (if ys = [] then NULL_NODE else t_idx (hd ys))"
    using nxt_zero [OF ht] by (cases ys) (auto simp: link_def l0_def)
  have hd_ys: "t_idx (hd ys) < length N4 \<and> t_idx (hd ys) \<noteq> NULL_NODE \<and> t_idx (hd ys) \<noteq> a" if "ys \<noteq> []"
  proof -
    have in_ys: "t_idx (hd ys) \<in> idxs (xs @ ys)"
      using that by (cases ys) auto
    then have "t_idx (hd ys) \<in> {..<length N}"
      unfolding L(3) [symmetric] by simp
    then show ?thesis
      using in_ys L(1,2) NODE_LIMIT_less [of "length N"] N4(3) by auto
  qed
  define tail where "tail = (if ys = [] then a else sl_tail sl)"
  obtain N5 where fin: "(if forward l0 \<noteq> NULL_NODE then
        do { N5 \<leftarrow> upd_node (forward l0) (\<lambda>n. n\<lparr>backward := a\<rparr>) N4;
             Some (sl\<lparr>free_list := fl, nodes := N5, sl_length := Suc (sl_length sl)\<rparr>, a) }
      else Some (sl\<lparr>free_list := fl, nodes := N4, sl_tail := a, sl_length := Suc (sl_length sl)\<rparr>, a)) =
      Some (sl\<lparr>free_list := fl, nodes := N5, sl_tail := tail, sl_length := Suc (sl_length sl)\<rparr>, a)"
    and N5: "get_level N5 = get_level N" "length N5 = length N"
      "\<And>b. nth_opt (shape N5) b =
        (if ys \<noteq> [] \<and> b = t_idx (hd ys) then map_option (\<lambda>(s, m, _, h). (s, m, a, h)) (nth_opt (shape N4) b)
         else nth_opt (shape N4) b)"
  proof (cases "ys = []")
    case True
    then show thesis
      using that [of N4] N4(2,3) fwd by (simp add: tail_def)
  next
    case False
    then show thesis
      using that upd_node_shape [of "t_idx (hd ys)" N4 a] hd_ys N4(2,3) fwd
      by (auto simp: tail_def)
  qed
  have st: "stored (shape N5) NULL_NODE ?ts"
  proof (rule stored_insert [OF D(8)])
    show "distinct (a # map t_idx (xs @ ys))"
      using L(2) by auto
    show "nth_opt (shape N5) a = Some (sc, m, last_idx NULL_NODE xs, h)"
      using N5(3) [of a] N4(4) [of a] L(7) hd_ys prev' by auto
    show "nth_opt (shape N5) b = (if ys \<noteq> [] \<and> b = t_idx (hd ys)
        then map_option (\<lambda>(s, m, _, h). (s, m, a, h)) (nth_opt (shape (nodes sl)) b)
        else nth_opt (shape (nodes sl)) b)" if "b \<noteq> a" for b
      using N5(3) [of b] N4(4) [of b] L(6) [OF that] that by auto
  qed
  have lv5: "level_ok N5 ?ts i" if "i < max_level sl" for i
    using L(4) [OF that] N5(1) by (simp add: level_ok_def)
  have hi: "\<exists>w. get_level N5 0 i = Some \<lparr>forward = NULL_NODE, span = w\<rparr>"
    if "max_level sl \<le> i" "i < ZSKIPLIST_MAXLEVEL" for i
    using D(10) [OF that] N5(1) L(5) [OF that(1)] by simp
  have "tail = last_idx NULL_NODE ?ts"
    using D(11) by (auto simp: tail_def last_idx_def)
  then have "zsl_ok (sl\<lparr>free_list := fl, nodes := N5, sl_tail := tail, sl_length := Suc (sl_length sl)\<rparr>) ?ts"
    unfolding zsl_ok_def using D(1,2,3,7,12) L(1,2,3) h st lv5 hi N5(2) by auto
  then show ?thesis
    using N4(1) l0 fin by blast
qed

lemma sl_insert_spec:
  assumes ok: "zsl_ok sl (xs @ ys)"
    and split: "\<forall>t \<in> set xs. t_before sc m t" "\<forall>t \<in> set ys. \<not> t_before sc m t"
    and room: "free_list sl \<noteq> [] \<or> length (nodes sl) < NODE_LIMIT"
  shows "\<exists>sl' a. sl_insert ds sc m sl = Some (sl', a) \<and>
    zsl_ok sl' (xs @ Tower a sc m (random_level ds) # ys)"
proof -
  let ?h = "random_level ds"
  have h: "1 \<le> ?h" "?h \<le> ZSKIPLIST_MAXLEVEL"
    using random_level_bounds by auto
  obtain sl1 where prep: "(if ?h > max_level sl then
        do { N \<leftarrow> ofold (raise_level (sl_head sl) (sl_length sl)) [max_level sl..<?h] (nodes sl);
             Some (sl\<lparr>nodes := N, max_level := ?h\<rparr>,
               map (entry 0 xs) [0..<max_level sl] @ replicate (?h - max_level sl) (sl_head sl, 0)) }
      else Some (sl, map (entry 0 xs) [0..<max_level sl])) =
      Some (sl1, map (entry 0 xs) [0..<max_level sl1])"
    and sl1: "zsl_ok sl1 (xs @ ys)" "?h \<le> max_level sl1" "free_list sl1 = free_list sl"
      "length (nodes sl1) = length (nodes sl)"
    using insert_prepare [OF ok h] by blast
  note D = zsl_okD [OF sl1(1)]
  have room1: "free_list sl1 \<noteq> [] \<or> length (nodes sl1) < NODE_LIMIT"
    using room sl1(3,4) by simp
  obtain N fl a N2 N3 where
    li: "allocate_node sc m ?h sl1 = Some (sl1\<lparr>nodes := N, free_list := fl\<rparr>, a)"
      "ofold (link_level a (map (entry 0 xs) [0..<max_level sl1])) [0..<?h] N = Some N2"
      "ofold (bump_level (map (entry 0 xs) [0..<max_level sl1])) [?h..<max_level sl1] N2 = Some N3"
      "linked_in sl1 N3 fl xs (Tower a sc m ?h) ys"
    using insert_link [OF sl1(1) h(1) sl1(2) room1 refl] by blast
  have ht: "\<forall>t \<in> set xs. 1 \<le> t_height t"
    using D(7) by auto
  show ?thesis
    using insert_backlinks [OF sl1(1) h(1) sl1(2) li(4) refl]
      zsl_search [OF ok view_before split] prep li(1,2,3) D(1,2) entry_zero [OF ht]
    by (auto simp: sl_insert_def Let_def)
qed

section \<open>Deletion\<close>

lemma unlink_tall_spec:
  assumes lu: "get_level N u i = Some \<lparr>forward = t, span = w\<rparr>" and lt: "get_level N t i = Some lt"
    and "u \<noteq> t" and upd: "nth_opt upd i = Some (u, r)"
  shows "\<exists>N'. unlink_level t upd i N = Some N' \<and> shape N' = shape N \<and>
    (\<forall>b j. get_level N' b j =
      (if b = u \<and> j = i then Some \<lparr>forward = forward lt, span = w + (span lt - 1)\<rparr> else get_level N b j))"
proof -
  obtain N1 where N1: "upd_level u i (\<lambda>l. l\<lparr>span := span l + (span lt - 1)\<rparr>) N = Some N1" "shape N1 = shape N"
    "\<And>b j. get_level N1 b j = (if b = u \<and> j = i then Some \<lparr>forward = t, span = w + (span lt - 1)\<rparr> else get_level N b j)"
    using upd_level_spec [OF lu, of "\<lambda>l. l\<lparr>span := span l + (span lt - 1)\<rparr>"] by auto
  have u1: "get_level N1 u i = Some \<lparr>forward = t, span = w + (span lt - 1)\<rparr>"
    and t1: "get_level N1 t i = Some lt"
    using N1(3) lt \<open>u \<noteq> t\<close> by auto
  obtain N2 where N2: "upd_level u i (\<lambda>l. l\<lparr>forward := forward lt\<rparr>) N1 = Some N2" "shape N2 = shape N1"
    "\<And>b j. get_level N2 b j =
      (if b = u \<and> j = i then Some \<lparr>forward = forward lt, span = w + (span lt - 1)\<rparr> else get_level N1 b j)"
    using upd_level_spec [OF u1, of "\<lambda>l. l\<lparr>forward := forward lt\<rparr>"] by auto
  have "unlink_level t upd i N = Some N2"
    using upd lu lt N1(1) t1 N2(1) by (simp add: unlink_level_def)
  then show ?thesis
    using N1(2,3) N2(2,3) by auto
qed

lemma delete_loop:
  assumes lv: "\<And>i. i < m \<Longrightarrow> level_ok N (xs @ t # ys) i"
    and d: "distinct (0 # map t_idx (xs @ t # ys))" and null: "t_idx t \<noteq> NULL_NODE"
    and upd: "upd = map (entry 0 xs) [0..<m]"
  shows "\<exists>N1. ofold (unlink_level (t_idx t) upd) [0..<m] N = Some N1 \<and> shape N1 = shape N \<and>
    (\<forall>i < m. level_ok N1 (xs @ ys) i) \<and> (\<forall>i. get_level N1 (t_idx t) i = get_level N (t_idx t) i) \<and>
    (\<forall>i \<ge> m. \<forall>b. get_level N1 b i = get_level N b i)"
proof -
  define u where "u i = fst (pend i 0 0 xs)" for i
  define e where "e i = snd (pend i 0 0 xs)" for i
  have ue: "pend i 0 0 xs = (u i, e i)" for i
    by (simp add: u_def e_def)
  have upd_i: "nth_opt upd i = Some (u i, of_nat (length xs - e i))" if "i < m" for i
    using that by (simp add: upd entry_def ue)
  have ut: "u i \<noteq> t_idx t" for i
    using pend_idx [of i 0 0 xs] d by (auto simp: u_def)
  let ?g = "\<lambda>i b. get_level N b i"
  let ?G = "\<lambda>i. if i < t_height t then (?g i)(u i := Some (link (e i) (nxt i ys)))
    else (?g i)(u i := map_option (\<lambda>l. l\<lparr>span := span l - 1\<rparr>) (?g i (u i)))"
  have tall: "get_level N (u i) i = Some \<lparr>forward = t_idx t, span = of_nat (Suc (e i))\<rparr> \<and>
      ?G i 0 = Some (link 0 (nxt i (xs @ ys))) \<and> links (?G i) i (xs @ ys)"
    if "i < m" "i < t_height t" for i
    using level_delete_tall [of "?g i" 0 0 i xs t ys "u i" "e i", OF _ _ d that(2) ue refl] lv [OF that(1)] that
    by (simp add: level_ok_def)
  have short: "(\<exists>l. get_level N (u i) i = Some l \<and> forward l \<noteq> t_idx t) \<and>
      ?G i 0 = Some (link 0 (nxt i (xs @ ys))) \<and> links (?G i) i (xs @ ys)"
    if "i < m" "\<not> i < t_height t" for i
    using level_delete_short [of "?g i" 0 0 i xs t ys "u i" "e i", OF _ _ d _ ue null refl] lv [OF that(1)] that
    by (simp add: level_ok_def)
  have step: "\<exists>N'. unlink_level (t_idx t) upd i M = Some N' \<and> shape N' = shape M \<and>
      (\<forall>b. get_level N' b i = ?G i b) \<and> (\<forall>b j. j \<noteq> i \<longrightarrow> get_level N' b j = get_level M b j)"
    if i: "i \<in> set [0..<m]" and "shape M = shape N" and g: "\<forall>b. get_level M b i = get_level N b i" for i M
  proof (cases "i < t_height t")
    case True
    have im: "i < m"
      using i by simp
    have lt: "get_level M (t_idx t) i = Some (link 0 (nxt i ys))"
      using links_append [of "?g i" i xs t ys] lv [OF im] True g by (simp add: level_ok_def)
    have lu: "get_level M (u i) i = Some \<lparr>forward = t_idx t, span = of_nat (Suc (e i))\<rparr>"
      using tall [OF im True] g by simp
    have "\<lparr>forward = forward (link 0 (nxt i ys)), span = of_nat (Suc (e i)) + (span (link 0 (nxt i ys)) - 1)\<rparr>
        = link (e i) (nxt i ys)"
      by (simp add: link_def)
    then show ?thesis
      using unlink_tall_spec [OF lu lt ut upd_i [OF im]] g True by auto
  next
    case False
    have im: "i < m"
      using i by simp
    obtain l where l: "get_level M (u i) i = Some l" "forward l \<noteq> t_idx t"
      using short [OF im False] g by auto
    show ?thesis
      using upd_level_spec [OF l(1), of "\<lambda>l. l\<lparr>span := span l - 1\<rparr>"] l upd_i [OF im] g False
      by (fastforce simp: unlink_level_def)
  qed
  obtain N1 where N1: "ofold (unlink_level (t_idx t) upd) [0..<m] N = Some N1" "shape N1 = shape N"
    "\<And>b i. get_level N1 b i = (if i \<in> set [0..<m] then ?G i b else get_level N b i)"
    using ofold_levels [OF distinct_upt step] by blast
  have "level_ok N1 (xs @ ys) i" if "i < m" for i
  proof -
    have "(\<lambda>b. get_level N1 b i) = ?G i"
      using N1(3) [of _ i] that by (auto simp: fun_eq_iff)
    then show ?thesis
      using tall [OF that] short [OF that] N1(3) [of 0 i] that
      unfolding level_ok_def by (cases "i < t_height t") simp_all
  qed
  moreover have "get_level N1 (t_idx t) i = get_level N (t_idx t) i" for i
    using N1(3) [of "t_idx t" i] ut [of i] by auto
  ultimately show ?thesis
    using N1 by auto
qed

lemma shrink_levels_spec:
  assumes "1 \<le> M" and "\<And>i. i < M \<Longrightarrow> get_level N 0 i = Some (link 0 (nxt i ts))"
  shows "\<exists>m. shrink_levels N 0 M = Some m \<and> 1 \<le> m \<and> m \<le> M \<and>
    (\<forall>i. m \<le> i \<and> i < M \<longrightarrow> fst (nxt i ts) = NULL_NODE)"
  using assms
proof (induction M)
  case 0
  then show ?case
    by simp
next
  case (Suc M)
  show ?case
  proof (cases "M = 0 \<or> fst (nxt M ts) \<noteq> NULL_NODE")
    case True
    then show ?thesis
      using Suc.prems(2) [of M] by (auto simp: link_def)
  next
    case False
    then obtain m where "shrink_levels N 0 M = Some m" "1 \<le> m" "m \<le> M"
      "\<forall>i. m \<le> i \<and> i < M \<longrightarrow> fst (nxt i ts) = NULL_NODE"
      using Suc by auto
    then show ?thesis
      using False Suc.prems(2) [of M] by (auto simp: link_def less_Suc_eq)
  qed
qed

lemma stored_delete:
  assumes "stored S NULL_NODE (xs @ t # ys)" and "distinct (map t_idx (xs @ t # ys))"
    and "\<And>b. b \<noteq> t_idx t \<Longrightarrow> nth_opt S' b =
      (if ys \<noteq> [] \<and> b = t_idx (hd ys)
       then map_option (\<lambda>(s, m, _, h). (s, m, last_idx NULL_NODE xs, h)) (nth_opt S b) else nth_opt S b)"
  shows "stored S' NULL_NODE (xs @ ys)"
proof -
  have "stored S' NULL_NODE xs = stored S NULL_NODE xs"
  proof (rule stored_cong)
    fix a
    assume "a \<in> idxs xs"
    moreover have "t_idx t \<notin> idxs xs" "ys \<noteq> [] \<Longrightarrow> t_idx (hd ys) \<notin> idxs xs"
      using assms(2) by (auto simp: hd_in_set) (metis IntI emptyE hd_in_set idxs_def imageI)
    ultimately have "a \<noteq> t_idx t" "\<not> (ys \<noteq> [] \<and> a = t_idx (hd ys))"
      by auto
    then show "nth_opt S' a = nth_opt S a"
      using assms(3) [of a] by presburger
  qed
  moreover have "stored S' (last_idx NULL_NODE xs) ys"
  proof (cases ys)
    case (Cons y zs)
    have "stored S' (t_idx y) zs = stored S (t_idx y) zs"
    proof (rule stored_cong)
      fix a
      assume "a \<in> idxs zs"
      then have "a \<noteq> t_idx t" "a \<noteq> t_idx (hd ys)"
        using assms(2) Cons by auto
      then show "nth_opt S' a = nth_opt S a"
        using assms(3) [of a] by presburger
    qed
    moreover have "t_idx y \<noteq> t_idx t"
      using assms(2) Cons by auto
    ultimately show ?thesis
      using assms(1) assms(3) [of "t_idx y"] Cons by (simp add: stored_append)
  qed simp
  ultimately show ?thesis
    using assms(1) by (simp add: stored_append)
qed

lemma delete_node_spec:
  assumes ok: "zsl_ok sl (xs @ t # ys)" and upd: "upd = map (entry 0 xs) [0..<max_level sl]"
  shows "\<exists>sl'. delete_node (t_idx t) upd sl = Some sl' \<and> zsl_ok sl' (xs @ ys) \<and>
    nodes sl' \<noteq> [] \<and> length (nodes sl') = length (nodes sl) \<and> free_list sl' = free_list sl @ [t_idx t]"
proof -
  note D = zsl_okD [OF ok]
  let ?t = "t_idx t" and ?M = "max_level sl"
  have tN: "?t < length (nodes sl)" "?t \<noteq> 0"
    using zsl_idx_less [OF ok, of ?t] by auto
  have null: "NULL_NODE \<notin> idxs (xs @ t # ys)"
    by (rule zsl_NULL [OF ok])
  have d: "distinct (0 # map t_idx (xs @ t # ys))"
    using D(5) by auto
  obtain N1 where N1: "ofold (unlink_level ?t upd) [0..<?M] (nodes sl) = Some N1" "shape N1 = shape (nodes sl)"
    "\<And>i. i < ?M \<Longrightarrow> level_ok N1 (xs @ ys) i" "\<And>i. get_level N1 ?t i = get_level (nodes sl) ?t i"
    "\<And>i b. ?M \<le> i \<Longrightarrow> get_level N1 b i = get_level (nodes sl) b i"
    using delete_loop [OF D(9) d _ upd] null by auto
  have len1: "length N1 = length (nodes sl)"
    by (rule shape_length [OF N1(2)])
  have ht: "\<forall>x \<in> set ys. 1 \<le> t_height x"
    using D(7) by auto
  define l0 where "l0 = link 0 (nxt 0 ys)"
  have l0: "get_level N1 ?t 0 = Some l0"
    using N1(4) D(9) [of 0] D(2) D(7) [of t] links_append [of "\<lambda>b. get_level (nodes sl) b 0" 0 xs t ys]
    by (simp add: level_ok_def l0_def)
  have fwd: "forward l0 = (if ys = [] then NULL_NODE else t_idx (hd ys))"
    using nxt_zero [OF ht] by (cases ys) (auto simp: link_def l0_def)
  have "nth_opt (shape N1) ?t = Some (t_score t, t_member t, last_idx NULL_NODE xs, t_height t)"
    using D(8) N1(2) by (simp add: stored_append)
  then obtain tn where tn: "nth_opt N1 ?t = Some tn" "backward tn = last_idx NULL_NODE xs"
    by (auto simp: nth_opt_shape)
  have hd_ys: "t_idx (hd ys) < length N1" "t_idx (hd ys) \<noteq> NULL_NODE" "t_idx (hd ys) \<noteq> ?t" if "ys \<noteq> []"
    using that zsl_idx_less [OF ok, of "t_idx (hd ys)"] null d len1 by (cases ys; auto)+
  define tail where "tail = (if ys = [] then last_idx NULL_NODE xs else sl_tail sl)"
  obtain N2 where fin: "(if forward l0 \<noteq> NULL_NODE then
        do { N2 \<leftarrow> upd_node (forward l0) (\<lambda>n. n\<lparr>backward := backward tn\<rparr>) N1; Some (N2, sl_tail sl) }
      else Some (N1, backward tn)) = Some (N2, tail)"
    and N2: "get_level N2 = get_level N1" "length N2 = length N1"
      "\<And>b. nth_opt (shape N2) b =
        (if ys \<noteq> [] \<and> b = t_idx (hd ys)
         then map_option (\<lambda>(s, m, _, h). (s, m, last_idx NULL_NODE xs, h)) (nth_opt (shape N1) b)
         else nth_opt (shape N1) b)"
  proof (cases "ys = []")
    case True
    then show thesis
      using that [of N1] fwd tn by (simp add: tail_def)
  next
    case False
    then show thesis
      using that upd_node_shape [OF hd_ys(1), of "last_idx NULL_NODE xs"] hd_ys(2) fwd tn
      by (auto simp: tail_def)
  qed
  have head: "get_level N2 0 i = Some (link 0 (nxt i (xs @ ys)))" if "i < ?M" for i
    using N1(3) [OF that] N2(1) by (simp add: level_ok_def)
  obtain m where m: "shrink_levels N2 0 ?M = Some m" "1 \<le> m" "m \<le> ?M"
    "\<And>i. m \<le> i \<Longrightarrow> i < ?M \<Longrightarrow> fst (nxt i (xs @ ys)) = NULL_NODE"
    using shrink_levels_spec [OF D(2) head] by blast
  have heights: "1 \<le> t_height x \<and> t_height x \<le> m" if "x \<in> set (xs @ ys)" for x
    using m(3) m(4) [of m] D(7) [of x] nxt_NULL [of "xs @ ys" m] null that
    by (cases "m = ?M") auto
  obtain N3 where N3: "upd_node ?t (\<lambda>n. n\<lparr>score := 0, member := []\<rparr>) N2 = Some N3" "get_level N3 = get_level N2"
    "length N3 = length N2" "\<And>b. b \<noteq> ?t \<Longrightarrow> nth_opt N3 b = nth_opt N2 b"
    using upd_node_spec [of ?t N2 "\<lambda>n. n\<lparr>score := 0, member := []\<rparr>"] tN N2(2) len1 by auto
  let ?sl = "sl\<lparr>nodes := N3, sl_tail := tail, max_level := m, sl_length := sl_length sl - 1,
    free_list := free_list sl @ [?t]\<rparr>"
  have st: "stored (shape N3) NULL_NODE (xs @ ys)"
  proof (rule stored_delete [OF D(8)])
    show "distinct (map t_idx (xs @ t # ys))"
      using d by simp
    show "nth_opt (shape N3) b = (if ys \<noteq> [] \<and> b = t_idx (hd ys)
        then map_option (\<lambda>(s, m, _, h). (s, m, last_idx NULL_NODE xs, h)) (nth_opt (shape (nodes sl)) b)
        else nth_opt (shape (nodes sl)) b)" if "b \<noteq> ?t" for b
      using N2(3) [of b] N1(2) N3(4) [OF that] nth_opt_shape [of N3 b] nth_opt_shape [of N2 b] by simp
  qed
  have lv: "level_ok N3 (xs @ ys) i" if "i < m" for i
    using N1(3) [of i] that m(3) N2(1) N3(2) by (simp add: level_ok_def)
  have hi: "\<exists>w. get_level N3 0 i = Some \<lparr>forward = NULL_NODE, span = w\<rparr>"
    if "m \<le> i" "i < ZSKIPLIST_MAXLEVEL" for i
    using D(10) [of i] N1(5) [of i] head [of i] m(4) [of i] that N2(1) N3(2)
    by (cases "i < ?M") (auto simp: link_def)
  have "tail = last_idx NULL_NODE (xs @ ys)"
    using D(11) by (auto simp: tail_def last_idx_def)
  moreover have "insert 0 (idxs (xs @ ys) \<union> set (free_list sl @ [?t])) = {..<length N3}"
    using D(6) N3(3) N2(2) len1 by auto
  ultimately have "zsl_ok ?sl (xs @ ys)"
    unfolding zsl_ok_def using D(1,3,4,5,12) m heights st lv hi N3(3) N2(2) len1 by auto
  moreover have "delete_node ?t upd sl = Some ?sl"
    using N1(1) l0 tn(1) fin D(1) m(1) N3(1) by (simp add: delete_node_def)
  ultimately show ?thesis
    using N3(3) N2(2) len1 tN by auto
qed

lemma sl_delete_spec:
  assumes ok: "zsl_ok sl (xs @ ys)"
    and split: "\<forall>t \<in> set xs. t_before sc m t" "\<forall>t \<in> set ys. \<not> t_before sc m t"
  shows "\<exists>sl'. sl_delete sc m sl =
      Some (sl', ys \<noteq> [] \<and> f64_eq (t_score (hd ys)) sc \<and> t_member (hd ys) = m) \<and>
    (if ys \<noteq> [] \<and> f64_eq (t_score (hd ys)) sc \<and> t_member (hd ys) = m
     then zsl_ok sl' (xs @ tl ys) \<and> length (nodes sl') = length (nodes sl) \<and> free_list sl' \<noteq> []
     else sl' = sl)"
proof -
  note D = zsl_okD [OF ok]
  have ht: "\<forall>t \<in> set (xs @ ys). 1 \<le> t_height t"
    using D(7) by auto
  have l0: "get_level (nodes sl) (last_idx 0 xs) 0 = Some (link 0 (nxt 0 ys))"
    using pend_link [of "\<lambda>b. get_level (nodes sl) b 0" 0 0 0 xs ys "last_idx 0 xs" 0]
      D(2) D(9) [of 0] pend_zero [of xs 0] ht by (auto simp: level_ok_def)
  have fwd: "forward (link 0 (nxt 0 ys)) = (if ys = [] then NULL_NODE else t_idx (hd ys))"
    using nxt_zero [of ys] ht by (cases ys) (auto simp: link_def)
  show ?thesis
  proof (cases ys)
    case Nil
    then show ?thesis
      using zsl_search [OF ok view_before split] l0 fwd by (simp add: sl_delete_def)
  next
    case (Cons t zs)
    obtain n where n: "nth_opt (nodes sl) (t_idx t) = Some n" "score n = t_score t" "member n = t_member t"
      using zsl_node [OF ok, of t] Cons by auto
    have "t_idx t \<noteq> NULL_NODE"
      using zsl_NULL [OF ok] Cons by auto
    then show ?thesis
      using zsl_search [OF ok view_before split] l0 fwd Cons n delete_node_spec [of sl xs t zs] ok
      by (auto simp: sl_delete_def)
  qed
qed

section \<open>Ranks\<close>

definition t_before_eq :: "f64 \<Rightarrow> bytes \<Rightarrow> tower \<Rightarrow> bool" where
  "t_before_eq sc m t \<longleftrightarrow> f64_lt (t_score t) sc \<or> f64_eq (t_score t) sc \<and> t_member t \<le> m"

lemma get_rank_spec:
  assumes ok: "zsl_ok sl (xs @ ys)"
    and split: "\<forall>t \<in> set xs. t_before_eq sc m t" "\<forall>t \<in> set ys. \<not> t_before_eq sc m t"
  shows "get_rank sc m sl =
    Some (if xs \<noteq> [] \<and> t_member (last xs) = m then Some (of_nat (length xs) - 1) else None)"
proof -
  have view: "node_view (before_eq sc m) (t_before_eq sc m)"
    by (simp add: node_view_def before_eq_def t_before_eq_def)
  note search = zsl_search [OF ok view split]
  show ?thesis
  proof (cases xs rule: rev_cases)
    case Nil
    then show ?thesis
      using search zsl_okD(1) [OF ok] by (simp add: get_rank_def last_idx_def)
  next
    case (snoc zs z)
    then show ?thesis
      using search zsl_okD(1) [OF ok] zsl_node [OF ok, of z] zsl_idx_less [OF ok, of "t_idx z"]
      by (auto simp: get_rank_def last_idx_def)
  qed
qed

lemma of_nat_usize_le_iff:
  "a < 2 ^ 64 \<Longrightarrow> b < 2 ^ 64 \<Longrightarrow> (of_nat a :: usize) \<le> of_nat b \<longleftrightarrow> a \<le> b"
  by (simp add: word_le_nat_alt unat_of_nat take_bit_nat_eq_self)

lemma of_nat_usize_eq_iff:
  "a < 2 ^ 64 \<Longrightarrow> b < 2 ^ 64 \<Longrightarrow> (of_nat a :: usize) = of_nat b \<longleftrightarrow> a = b"
  by (metis of_nat_usize_le_iff order_antisym_conv order_refl)

lemma nxt_pos: "fst (nxt i ts) \<noteq> NULL_NODE \<Longrightarrow> 1 \<le> snd (nxt i ts)"
  by (induction ts) (auto split: prod.splits)

lemma walk_span_spec:
  assumes "get_level N cur i = Some (link d (nxt i (xs @ ys)))"
    and "links (\<lambda>a. get_level N a i) i (xs @ ys)" and "NULL_NODE \<notin> idxs (xs @ ys)"
    and "p + d + length (xs @ ys) < 2 ^ 64"
  shows "walk_span (of_nat (p + d + length xs)) N i cur (of_nat p) =
    Some (fst (pend i cur d xs), of_nat (p + (d + length xs - snd (pend i cur d xs))))"
  using assms
proof (induction xs arbitrary: cur d p)
  case Nil
  have "\<not> (of_nat p + of_nat (d + snd (nxt i ys)) :: usize) \<le> of_nat (p + d)" if "fst (nxt i ys) \<noteq> NULL_NODE"
    using of_nat_usize_le_iff [of "p + (d + snd (nxt i ys))" "p + d"] Nil.prems(4)
      nxt_bounds(2) [of i ys] nxt_pos [OF that] by (simp add: add.assoc)
  then show ?case
    using Nil by (subst walk_span.simps) (auto simp: link_def)
next
  case (Cons t xs)
  show ?case
  proof (cases "i < t_height t")
    case True
    have le: "snd (pend i (t_idx t) 0 xs) \<le> length xs"
      using pend_le [of i "t_idx t" 0 xs] by simp
    have IH: "walk_span (of_nat ((p + Suc d) + 0 + length xs)) N i (t_idx t) (of_nat (p + Suc d)) =
        Some (fst (pend i (t_idx t) 0 xs),
          of_nat ((p + Suc d) + (0 + length xs - snd (pend i (t_idx t) 0 xs))))"
      using Cons.prems True by (intro Cons.IH) auto
    have eq: "p + Suc d + 0 + length xs = p + d + length (t # xs)"
      "(p + Suc d) + (0 + length xs - snd (pend i (t_idx t) 0 xs))
        = p + (d + length (t # xs) - snd (pend i (t_idx t) 0 xs))"
      using le by auto
    have le2: "(of_nat p + of_nat (d + 1) :: usize) \<le> of_nat (p + d + length (t # xs))"
      using of_nat_usize_le_iff [of "p + (d + 1)" "p + d + length (t # xs)"] Cons.prems(4)
      by (simp add: ac_simps)
    have "walk_span (of_nat (p + d + length (t # xs))) N i cur (of_nat p) =
        walk_span (of_nat (p + d + length (t # xs))) N i (t_idx t) (of_nat (p + Suc d))"
      using Cons.prems(1,3) True le2 by (subst walk_span.simps) (auto simp: link_def ac_simps)
    then show ?thesis
      using IH True unfolding eq by simp
  next
    case False
    have "walk_span (of_nat (p + Suc d + length xs)) N i cur (of_nat p) = Some (fst (pend i cur (Suc d) xs),
        of_nat (p + (Suc d + length xs - snd (pend i cur (Suc d) xs))))"
      using Cons.prems False by (intro Cons.IH) (auto simp: link_def split: prod.splits)
    then show ?thesis
      using False by simp
  qed
qed

lemma search_span_spec:
  assumes "\<forall>j < i. get_level N head j = Some (link 0 (nxt j (xs @ ys))) \<and>
      links (\<lambda>a. get_level N a j) j (xs @ ys)" and null: "NULL_NODE \<notin> idxs (xs @ ys)"
    and small: "length (xs @ ys) < 2 ^ 64" and ht: "\<forall>t \<in> set xs. 1 \<le> t_height t"
    and node: "nth_opt N (t_idx (last xs)) = Some n"
    and "xs = as @ bs" and "bs \<noteq> []" and "stands_at head cur i as" and "1 \<le> i"
  shows "search_span (of_nat (length xs)) N i cur (of_nat (length as)) = Some (Some (score n, member n))"
  using assms(1,6,7,8,9)
proof (induction i arbitrary: cur as bs)
  case 0
  then show ?case
    by simp
next
  case (Suc i)
  have lv: "get_level N cur i = Some (link 0 (nxt i (bs @ ys)))"
  proof (cases as rule: rev_cases)
    case Nil
    then show ?thesis
      using Suc.prems by (auto simp: stands_at_def)
  next
    case (snoc zs t)
    then show ?thesis
      using Suc.prems links_append [of "\<lambda>a. get_level N a i" i zs t "bs @ ys"]
      by (auto simp: stands_at_def)
  qed
  have lk: "links (\<lambda>a. get_level N a i) i (bs @ ys)"
    using Suc.prems(1,2) links_suffix [of _ i as] by auto
  obtain u e where ue: "pend i cur 0 bs = (u, e)"
    by force
  obtain cs ds where cd: "bs = cs @ ds" "length ds = e"
    "cs = [] \<and> u = cur \<or> (\<exists>zs t. cs = zs @ [t] \<and> t_idx t = u \<and> i < t_height t)"
    using pend_split [OF ue] by metis
  have w: "walk_span (of_nat (length xs)) N i cur (of_nat (length as)) = Some (u, of_nat (length (as @ cs)))"
    using walk_span_spec [OF lv lk, of "length as"] null small Suc.prems(2) ue cd by auto
  have done_iff: "(of_nat (length (as @ cs)) :: usize) = of_nat (length xs) \<longleftrightarrow> e = 0"
    using of_nat_usize_eq_iff [of "length (as @ cs)" "length xs"] small Suc.prems(2) cd by auto
  show ?case
  proof (cases "e = 0")
    case True
    then have "u = t_idx (last xs)"
      using cd Suc.prems(2,3) by auto
    then show ?thesis
      using w done_iff True node by simp
  next
    case False
    have "i \<noteq> 0"
      using pend_zero [of bs cur] ht ue False Suc.prems(2) by (cases "i = 0") auto
    moreover have "stands_at head u i (as @ cs)"
      using cd(3) Suc.prems(4) by (auto simp: stands_at_def)
    ultimately have "search_span (of_nat (length xs)) N i u (of_nat (length (as @ cs))) = Some (Some (score n, member n))"
      using Suc.prems(1,2) cd False by (intro Suc.IH [of "as @ cs" ds]) auto
    then show ?thesis
      using w done_iff False by simp
  qed
qed

lemma NODE_LIMIT_small: "n \<le> NODE_LIMIT \<Longrightarrow> n < 2 ^ 63"
  by (simp add: NODE_LIMIT_def)

lemma zsl_length: "zsl_ok sl ts \<Longrightarrow> length ts < NODE_LIMIT"
proof -
  assume ok: "zsl_ok sl ts"
  have "card (insert 0 (idxs ts)) \<le> card {..<length (nodes sl)}"
    unfolding zsl_okD(6) [OF ok, symmetric] by (intro card_mono) auto
  moreover have "card (insert 0 (idxs ts)) = Suc (length ts)"
    using zsl_okD(5) [OF ok] distinct_card [of "0 # map t_idx ts"] by simp
  ultimately show ?thesis
    using zsl_okD(4) [OF ok] by simp
qed

lemma get_element_by_rank_spec:
  assumes ok: "zsl_ok sl ts"
  shows "get_element_by_rank r sl =
    Some (map_option (\<lambda>t. (t_score t, t_member t)) (nth_opt ts (unat r)))"
proof (cases "unat r < length ts")
  case False
  then show ?thesis
    using zsl_okD(12) [OF ok] by (simp add: get_element_by_rank_def nth_opt_def)
next
  case True
  note D = zsl_okD [OF ok]
  define xs ys where "xs = take (Suc (unat r)) ts" and "ys = drop (Suc (unat r)) ts"
  have ts: "ts = xs @ ys" and len: "length xs = Suc (unat r)" and last: "last xs = ts ! unat r"
    using True by (auto simp: xs_def ys_def take_Suc_conv_app_nth id_take_nth_drop [symmetric])
  have "last xs \<in> set ts"
    using last True by simp
  then obtain n where n: "nth_opt (nodes sl) (t_idx (last xs)) = Some n"
    "score n = t_score (last xs)" "member n = t_member (last xs)"
    using zsl_node [OF ok] by blast
  have "length ts < 2 ^ 64"
    using zsl_length [OF ok] NODE_LIMIT_small [of "length ts"] by simp
  then have "search_span (of_nat (length xs)) (nodes sl) (max_level sl) 0 (of_nat (length ([] :: tower list)))
      = Some (Some (score n, member n))"
    using D(2,7,9) zsl_NULL [OF ok] len n(1)
    by (intro search_span_spec [where ys = ys and bs = xs])
      (auto simp: ts level_ok_def stands_at_def)
  moreover have "(of_nat (length xs) :: usize) = r + 1"
    by (simp add: len)
  ultimately show ?thesis
    using True D(1,12) n(2,3) last by (simp add: get_element_by_rank_def)
qed

lemma zsl_ok_new: "zsl_ok SkipList_new []"
  by (auto simp: zsl_ok_def SkipList_new_def ZSKIPLIST_MAXLEVEL_def NODE_LIMIT_def level_ok_def
      get_level_def link_def null_level_def last_idx_def)

end
