(* ===== verification/ZSet.thy ===== *)
theory ZSet
  imports Skip_List_Inv
begin

text \<open>
  The sorted set of \<^verbatim>\<open>src/src/db/zset/mod.rs\<close>: a dictionary from member to score beside the skip
  list. The dictionary is an association list with distinct keys; its order is never
  observed. The specification is the list of (score, member) pairs in ascending order, scores
  by the IEEE order and ties by the bytes of the member.
\<close>

record ZSet =
  dict :: "(bytes \<times> f64) list"
  zsl :: SkipList

section \<open>Operations\<close>

definition ZSet_new :: ZSet where
  "ZSet_new = \<lparr>dict = [], zsl = SkipList_new\<rparr>"

definition zset_insert :: "bool list \<Rightarrow> f64 \<Rightarrow> bytes \<Rightarrow> ZSet \<Rightarrow> (ZSet \<times> bool) option" where
  "zset_insert draws sc mem z =
     (case map_of (dict z) mem of
        Some old_score \<Rightarrow>
          if f64_eq old_score sc then Some (z, False)
          else
            do { (l1, _) \<leftarrow> sl_delete old_score mem (zsl z);
                 (l2, _) \<leftarrow> sl_insert draws sc mem l1;
                 Some (z\<lparr>dict := AList.update mem sc (dict z), zsl := l2\<rparr>, False) }
      | None \<Rightarrow>
          do { (l1, _) \<leftarrow> sl_insert draws sc mem (zsl z);
               Some (z\<lparr>dict := AList.update mem sc (dict z), zsl := l1\<rparr>, True) })"

definition zset_delete :: "bytes \<Rightarrow> ZSet \<Rightarrow> (ZSet \<times> bool) option" where
  "zset_delete mem z =
     (case map_of (dict z) mem of
        Some sc \<Rightarrow>
          do { (l, _) \<leftarrow> sl_delete sc mem (zsl z);
               Some (z\<lparr>dict := AList.delete mem (dict z), zsl := l\<rparr>, True) }
      | None \<Rightarrow> Some (z, False))"

definition zset_score :: "bytes \<Rightarrow> ZSet \<Rightarrow> f64 option" where
  "zset_score mem z = map_of (dict z) mem"

definition zset_rank :: "bytes \<Rightarrow> ZSet \<Rightarrow> usize option option" where
  "zset_rank mem z =
     (case map_of (dict z) mem of Some sc \<Rightarrow> get_rank sc mem (zsl z) | None \<Rightarrow> Some None)"

definition zset_len :: "ZSet \<Rightarrow> nat" where
  "zset_len z = length (dict z)"

text \<open>The loop of \<^verbatim>\<open>range\<close> breaks at the first rank the skip list does not have.\<close>

fun range_loop :: "SkipList \<Rightarrow> nat list \<Rightarrow> (bytes \<times> f64) list option" where
  "range_loop l [] = Some []"
| "range_loop l (i # is) =
     do { r \<leftarrow> get_element_by_rank (of_nat i) l;
          (case r of
             None \<Rightarrow> Some []
           | Some (sc, mem) \<Rightarrow> do { rs \<leftarrow> range_loop l is; Some ((mem, sc) # rs) }) }"

definition zset_range :: "int \<Rightarrow> int \<Rightarrow> ZSet \<Rightarrow> (bytes \<times> f64) list option" where
  "zset_range start stop z =
     (let len = int (zset_len z);
          start = (if start < 0 then start + len else start);
          stop = (if stop < 0 then stop + len else stop);
          start = nat (max start 0);
          stop = nat (max stop 0)
      in if start > stop \<or> start \<ge> zset_len z then Some []
         else range_loop (zsl z) [start..<Suc (min stop (zset_len z - 1))])"

section \<open>The order of the elements\<close>

definition zlt :: "f64 \<times> bytes \<Rightarrow> f64 \<times> bytes \<Rightarrow> bool" where
  "zlt x y \<longleftrightarrow> f64_lt (fst x) (fst y) \<or> f64_eq (fst x) (fst y) \<and> snd x < snd y"

definition no_nan :: "(f64 \<times> bytes) list \<Rightarrow> bool" where
  "no_nan xs \<longleftrightarrow> (\<forall>x \<in> set xs. \<not> f64_is_nan (fst x))"

lemma zlt_trans: "zlt x y \<Longrightarrow> zlt y z \<Longrightarrow> zlt x z"
  by (auto simp: zlt_def f64_lt_def f64_eq_def)

lemma zlt_irrefl: "\<not> zlt x x"
  by (simp add: zlt_def f64_lt_def)

lemma zlt_total:
  "\<not> f64_is_nan (fst x) \<Longrightarrow> \<not> f64_is_nan (fst y) \<Longrightarrow> snd x \<noteq> snd y \<Longrightarrow> zlt x y \<or> zlt y x"
  by (auto simp: zlt_def f64_lt_def f64_eq_def)

definition zinsert :: "f64 \<times> bytes \<Rightarrow> (f64 \<times> bytes) list \<Rightarrow> (f64 \<times> bytes) list" where
  "zinsert x xs = filter (\<lambda>y. zlt y x) xs @ x # filter (\<lambda>y. \<not> zlt y x) xs"

definition zremove :: "bytes \<Rightarrow> (f64 \<times> bytes) list \<Rightarrow> (f64 \<times> bytes) list" where
  "zremove m xs = filter (\<lambda>y. snd y \<noteq> m) xs"

definition zassign :: "f64 \<Rightarrow> bytes \<Rightarrow> (f64 \<times> bytes) list \<Rightarrow> (f64 \<times> bytes) list" where
  "zassign s m xs =
     (if \<exists>y \<in> set xs. snd y = m \<and> f64_eq (fst y) s then xs else zinsert (s, m) (zremove m xs))"

lemma sorted_filter_split:
  assumes "sorted_wrt zlt xs" and "\<And>y z. zlt y z \<Longrightarrow> P z \<Longrightarrow> P y"
  shows "xs = filter P xs @ filter (\<lambda>y. \<not> P y) xs"
  using assms(1)
proof (induction xs)
  case (Cons y ys)
  show ?case
  proof (cases "P y")
    case True
    then show ?thesis
      using Cons by simp
  next
    case False
    have "\<not> P x" if "x \<in> set ys" for x
      using Cons.prems assms(2) [of y x] False that by auto
    then have "filter P ys = []"
      by (simp add: filter_empty_conv)
    then show ?thesis
      using False Cons by simp
  qed
qed simp

lemma zinsert_sorted:
  assumes "sorted_wrt zlt xs" "no_nan xs" "\<not> f64_is_nan (fst x)" "snd x \<notin> snd ` set xs"
  shows "sorted_wrt zlt (zinsert x xs)"
proof -
  have "zlt x y" if "y \<in> set xs" "\<not> zlt y x" for y
    using zlt_total [of x y] assms(2,3,4) that by (auto simp: no_nan_def)
  then show ?thesis
    using assms(1)
    by (auto simp: zinsert_def sorted_wrt_append sorted_wrt_filter intro: zlt_trans)
qed

lemma set_zinsert [simp]: "set (zinsert x xs) = insert x (set xs)"
  by (auto simp: zinsert_def)

lemma set_zremove [simp]: "set (zremove m xs) = {y \<in> set xs. snd y \<noteq> m}"
  by (auto simp: zremove_def)

lemma zremove_append: "zremove m (xs @ y # ys) = zremove m xs @ (if snd y = m then [] else [y]) @ zremove m ys"
  by (simp add: zremove_def)

lemma zremove_id: "m \<notin> snd ` set xs \<Longrightarrow> zremove m xs = xs"
  by (auto simp: zremove_def filter_id_conv)

section \<open>Invariant\<close>

definition elem :: "tower \<Rightarrow> f64 \<times> bytes" where
  "elem t = (t_score t, t_member t)"

lemma elem_simps [simp]: "fst (elem t) = t_score t" "snd (elem t) = t_member t"
  by (simp_all add: elem_def)

lemma t_before_zlt: "t_before s m t \<longleftrightarrow> zlt (elem t) (s, m)"
  by (simp add: t_before_def zlt_def)

definition zset_ok :: "ZSet \<Rightarrow> (f64 \<times> bytes) list \<Rightarrow> bool" where
  "zset_ok z xs \<longleftrightarrow>
     (\<exists>ts. zsl_ok (zsl z) ts \<and> map elem ts = xs) \<and>
     sorted_wrt zlt xs \<and> no_nan xs \<and> distinct (map snd xs) \<and>
     distinct (map fst (dict z)) \<and> set (dict z) = (\<lambda>x. (snd x, fst x)) ` set xs"

lemma zset_ok_new: "zset_ok ZSet_new []"
  using zsl_ok_new by (auto simp: zset_ok_def ZSet_new_def no_nan_def)

lemma swap_mem [simp]: "(m, s) \<in> (\<lambda>x. (snd x, fst x)) ` A \<longleftrightarrow> (s, m) \<in> A"
  by force

lemma zset_lookup:
  assumes "zset_ok z xs"
  shows "map_of (dict z) m = Some s \<longleftrightarrow> (s, m) \<in> set xs"
proof -
  have "map_of (dict z) m = Some s \<longleftrightarrow> (m, s) \<in> set (dict z)"
    using assms by (intro map_of_eq_Some_iff) (simp add: zset_ok_def)
  also have "\<dots> \<longleftrightarrow> (s, m) \<in> set xs"
    using assms swap_mem [of m s "set xs"] by (simp add: zset_ok_def)
  finally show ?thesis .
qed

lemma zset_lookup_None: "zset_ok z xs \<Longrightarrow> map_of (dict z) m = None \<longleftrightarrow> m \<notin> snd ` set xs"
  using zset_lookup [of z xs m] by (cases "map_of (dict z) m") force+

lemma zset_len_ok: "zset_ok z xs \<Longrightarrow> zset_len z = length xs"
proof -
  assume ok: "zset_ok z xs"
  have "inj_on (\<lambda>x. (snd x, fst x)) (set xs)"
    by (auto simp: inj_on_def)
  then have "card (set (dict z)) = card (set xs)"
    using ok by (simp add: zset_ok_def card_image)
  moreover have "distinct (dict z)" "distinct xs"
    using ok by (auto simp: zset_ok_def distinct_map)
  ultimately show ?thesis
    by (simp add: zset_len_def distinct_card)
qed

lemma split_towers:
  assumes "sorted_wrt zlt (map elem ts)" and "\<And>y z. zlt y z \<Longrightarrow> P z \<Longrightarrow> P y"
  shows "\<exists>as bs. ts = as @ bs \<and> (\<forall>t \<in> set as. P (elem t)) \<and> (\<forall>t \<in> set bs. \<not> P (elem t)) \<and>
    map elem as = filter P (map elem ts) \<and> map elem bs = filter (\<lambda>y. \<not> P y) (map elem ts)"
proof -
  have eq: "map elem ts = filter P (map elem ts) @ filter (\<lambda>y. \<not> P y) (map elem ts)"
    by (rule sorted_filter_split [OF assms])
  define n where "n = length (filter P (map elem ts))"
  have 1: "map elem (take n ts) = filter P (map elem ts)"
    using arg_cong [OF eq, of "take n"] by (simp add: n_def take_map)
  have 2: "map elem (drop n ts) = filter (\<lambda>y. \<not> P y) (map elem ts)"
    using arg_cong [OF eq, of "drop n"] by (simp add: n_def drop_map)
  have "\<forall>t \<in> set (take n ts). P (elem t)" "\<forall>t \<in> set (drop n ts). \<not> P (elem t)"
    using arg_cong [OF 1, of set] arg_cong [OF 2, of set] by auto
  then show ?thesis
    using 1 2 by (intro exI [of _ "take n ts"] exI [of _ "drop n ts"]) simp
qed

section \<open>Refinement of the operations\<close>

lemma zset_room:
  assumes "zsl_ok l ts" and "Suc (length ts) < NODE_LIMIT"
  shows "free_list l \<noteq> [] \<or> length (nodes l) < NODE_LIMIT"
proof (cases "free_list l = []")
  case True
  then have "{..<length (nodes l)} = set (0 # map t_idx ts)"
    using zsl_okD(6) [OF assms(1)] by simp
  then have "length (nodes l) \<le> Suc (length ts)"
    by (metis card_length card_lessThan length_Cons length_map)
  then show ?thesis
    using assms(2) by simp
qed simp

lemma sl_insert_elems:
  assumes ok: "zsl_ok l ts" and sorted: "sorted_wrt zlt (map elem ts)" and "Suc (length ts) < NODE_LIMIT"
  shows "\<exists>l' a ts'. sl_insert ds s m l = Some (l', a) \<and> zsl_ok l' ts' \<and>
    map elem ts' = zinsert (s, m) (map elem ts)"
proof -
  obtain as bs where ab: "ts = as @ bs" "\<forall>t \<in> set as. zlt (elem t) (s, m)"
    "\<forall>t \<in> set bs. \<not> zlt (elem t) (s, m)" "map elem as = filter (\<lambda>y. zlt y (s, m)) (map elem ts)"
    "map elem bs = filter (\<lambda>y. \<not> zlt y (s, m)) (map elem ts)"
    using split_towers [OF sorted, of "\<lambda>y. zlt y (s, m)"] zlt_trans by blast
  have room: "free_list l \<noteq> [] \<or> length (nodes l) < NODE_LIMIT"
    by (rule zset_room [OF ok assms(3)])
  obtain l' a where "sl_insert ds s m l = Some (l', a)"
    "zsl_ok l' (as @ Tower a s m (random_level ds) # bs)"
    using sl_insert_spec [of l as bs s m ds] ok ab(1,2,3) room by (auto simp: t_before_zlt)
  moreover have "map elem (as @ Tower a s m (random_level ds) # bs) = zinsert (s, m) (map elem ts)"
    using ab(4,5) by (simp add: zinsert_def) (simp add: elem_def)
  ultimately show ?thesis
    by blast
qed

lemma sl_delete_elems:
  assumes ok: "zsl_ok l ts" and sorted: "sorted_wrt zlt (map elem ts)"
    and nn: "no_nan (map elem ts)" and d: "distinct (map snd (map elem ts))"
    and mem: "(s, m) \<in> set (map elem ts)"
  shows "\<exists>l' ts'. sl_delete s m l = Some (l', True) \<and> zsl_ok l' ts' \<and>
    map elem ts' = zremove m (map elem ts)"
proof -
  obtain as bs where ab: "ts = as @ bs" "\<forall>t \<in> set as. zlt (elem t) (s, m)"
    "\<forall>t \<in> set bs. \<not> zlt (elem t) (s, m)"
    using split_towers [OF sorted, of "\<lambda>y. zlt y (s, m)"] zlt_trans by blast
  obtain t where t: "t \<in> set ts" "elem t = (s, m)"
    using mem by auto
  then have "t \<in> set bs"
    using ab zlt_irrefl [of "(s, m)"] by auto
  moreover have "elem u = (s, m) \<Longrightarrow> elem v = (s, m) \<Longrightarrow> u \<in> set ts \<Longrightarrow> v \<in> set ts \<Longrightarrow> u = v" for u v
    using d unfolding map_map by (metis comp_apply distinct_map inj_on_def)
  ultimately obtain cs where bs: "bs = t # cs"
  proof (cases bs)
    case (Cons b cs)
    have "elem b = (s, m)"
    proof (rule ccontr)
      assume ne: "elem b \<noteq> (s, m)"
      then have "t \<in> set cs"
        using \<open>t \<in> set bs\<close> Cons t by auto
      then have "zlt (elem b) (s, m)"
        using sorted ab(1) Cons t(2) by (auto simp: sorted_wrt_append)
      then show False
        using ab(3) Cons by auto
    qed
    then have "b = t"
      using \<open>\<And>u v. elem u = (s, m) \<Longrightarrow> elem v = (s, m) \<Longrightarrow> u \<in> set ts \<Longrightarrow> v \<in> set ts \<Longrightarrow> u = v\<close> t ab(1) Cons
      by auto
    then show ?thesis
      using that Cons by blast
  qed auto
  have "f64_eq (t_score t) s"
    using nn t by (auto simp: no_nan_def f64_eq_def elem_def)
  then obtain l' where "sl_delete s m l = Some (l', True)" "zsl_ok l' (as @ cs)"
    using sl_delete_spec [of l as bs s m] ok ab bs t(2) by (auto simp: t_before_zlt elem_def)
  moreover have "map elem (as @ cs) = zremove m (map elem ts)"
  proof -
    have "m \<notin> snd ` set (map elem as)" "m \<notin> snd ` set (map elem cs)"
      using d t(2) unfolding ab(1) bs by (auto simp: elem_def)
    then show ?thesis
      using t(2) by (simp add: ab(1) bs zremove_append zremove_id)
  qed
  ultimately show ?thesis
    by blast
qed

lemma set_AList_update:
  "distinct (map fst d) \<Longrightarrow> set (AList.update k v d) = insert (k, v) {x \<in> set d. fst x \<noteq> k}"
  by (induction d) (auto simp: image_iff)

lemma set_AList_delete: "set (AList.delete k d) = {x \<in> set d. fst x \<noteq> k}"
  by (auto simp: AList.delete_eq)

lemma zremove_ok:
  assumes "sorted_wrt zlt xs" "no_nan xs" "distinct (map snd xs)"
  shows "sorted_wrt zlt (zremove m xs)" "no_nan (zremove m xs)" "distinct (map snd (zremove m xs))"
    "length (zremove m xs) \<le> length xs"
  using assms by (auto simp: zremove_def no_nan_def sorted_wrt_filter distinct_map_filter)

lemma zinsert_ok:
  assumes "sorted_wrt zlt xs" "no_nan xs" "distinct (map snd xs)" "\<not> f64_is_nan s" "m \<notin> snd ` set xs"
  shows "sorted_wrt zlt (zinsert (s, m) xs)" "no_nan (zinsert (s, m) xs)"
    "distinct (map snd (zinsert (s, m) xs))"
proof -
  show "sorted_wrt zlt (zinsert (s, m) xs)"
    using assms by (intro zinsert_sorted) auto
  show "no_nan (zinsert (s, m) xs)"
    using assms by (auto simp: no_nan_def)
  have "xs = filter (\<lambda>y. zlt y (s, m)) xs @ filter (\<lambda>y. \<not> zlt y (s, m)) xs"
    by (rule sorted_filter_split [OF assms(1)]) (rule zlt_trans)
  then have "distinct (map snd (filter (\<lambda>y. zlt y (s, m)) xs @ filter (\<lambda>y. \<not> zlt y (s, m)) xs))"
    using assms(3) by simp
  then show "distinct (map snd (zinsert (s, m) xs))"
    using assms(5) by (auto simp: zinsert_def)
qed

lemma zset_okI:
  assumes "zsl_ok (zsl z) ts" "map elem ts = xs" "sorted_wrt zlt xs" "no_nan xs" "distinct (map snd xs)"
    "distinct (map fst (dict z))" "set (dict z) = (\<lambda>x. (snd x, fst x)) ` set xs"
  shows "zset_ok z xs"
  using assms by (auto simp: zset_ok_def)

lemma zset_insert_spec:
  assumes ok: "zset_ok z xs" and nn: "\<not> f64_is_nan s" and small: "Suc (length xs) < NODE_LIMIT"
  shows "\<exists>z'. zset_insert ds s m z = Some (z', m \<notin> snd ` set xs) \<and> zset_ok z' (zassign s m xs)"
proof -
  obtain ts where ts: "zsl_ok (zsl z) ts" "map elem ts = xs"
    and xs: "sorted_wrt zlt xs" "no_nan xs" "distinct (map snd xs)"
    and dict: "distinct (map fst (dict z))" "set (dict z) = (\<lambda>x. (snd x, fst x)) ` set xs"
    using ok by (auto simp: zset_ok_def)
  have upd: "set (AList.update m s (dict z)) = (\<lambda>x. (snd x, fst x)) ` set (zinsert (s, m) (zremove m xs))"
    using dict by (auto simp: set_AList_update)
  have dup: "distinct (map fst (AList.update m s (dict z)))"
    using dict(1) by (rule distinct_update)
  have rem: "m \<notin> snd ` set (zremove m xs)"
    by auto
  note new = zinsert_ok [OF zremove_ok(1,2,3) [OF xs] nn rem]
  show ?thesis
  proof (cases "map_of (dict z) m")
    case None
    then have fresh: "m \<notin> snd ` set xs"
      using zset_lookup_None [OF ok] by simp
    obtain l a ts' where l: "sl_insert ds s m (zsl z) = Some (l, a)" "zsl_ok l ts'"
      "map elem ts' = zinsert (s, m) xs"
      using sl_insert_elems [of "zsl z" ts ds s m] ts xs small by auto
    have "zassign s m xs = zinsert (s, m) (zremove m xs)" "zremove m xs = xs"
      using fresh by (auto simp: zassign_def zremove_id)
    then show ?thesis
      using None l fresh new upd dup by (auto simp: zset_insert_def intro!: zset_okI)
  next
    case (Some old)
    then have old: "(old, m) \<in> set xs"
      using zset_lookup [OF ok] by simp
    then have mem: "m \<in> snd ` set xs"
      by force
    have only: "fst y = old" if "y \<in> set xs" "snd y = m" for y
      using xs(3) old that by (metis distinct_map fst_conv inj_on_def snd_conv)
    show ?thesis
    proof (cases "f64_eq old s")
      case True
      then have "zassign s m xs = xs"
        using old by (force simp: zassign_def)
      then show ?thesis
        using Some True ok mem by (simp add: zset_insert_def)
    next
      case False
      then have eq: "zassign s m xs = zinsert (s, m) (zremove m xs)"
        using only by (auto simp: zassign_def)
      obtain l1 ts1 where l1: "sl_delete old m (zsl z) = Some (l1, True)" "zsl_ok l1 ts1"
        "map elem ts1 = zremove m xs"
        using sl_delete_elems [of "zsl z" ts old m] ts xs old by auto
      have "length ts1 \<le> length xs"
        using l1(3) zremove_ok(4) [OF xs] by (metis length_map)
      then obtain l2 a ts2 where l2: "sl_insert ds s m l1 = Some (l2, a)" "zsl_ok l2 ts2"
        "map elem ts2 = zinsert (s, m) (zremove m xs)"
        using sl_insert_elems [of l1 ts1 ds s m] l1 zremove_ok(1) [OF xs] small by auto
      then show ?thesis
        using Some False l1(1) mem eq new upd dup by (auto simp: zset_insert_def intro!: zset_okI)
    qed
  qed
qed

lemma zset_delete_spec:
  assumes ok: "zset_ok z xs"
  shows "\<exists>z'. zset_delete m z = Some (z', m \<in> snd ` set xs) \<and> zset_ok z' (zremove m xs)"
proof -
  obtain ts where ts: "zsl_ok (zsl z) ts" "map elem ts = xs"
    and xs: "sorted_wrt zlt xs" "no_nan xs" "distinct (map snd xs)"
    and dict: "distinct (map fst (dict z))" "set (dict z) = (\<lambda>x. (snd x, fst x)) ` set xs"
    using ok by (auto simp: zset_ok_def)
  show ?thesis
  proof (cases "map_of (dict z) m")
    case None
    then have "m \<notin> snd ` set xs"
      using zset_lookup_None [OF ok] by simp
    then show ?thesis
      using None ok by (simp add: zset_delete_def zremove_id)
  next
    case (Some old)
    then have old: "(old, m) \<in> set xs"
      using zset_lookup [OF ok] by simp
    obtain l ts' where l: "sl_delete old m (zsl z) = Some (l, True)" "zsl_ok l ts'" "map elem ts' = zremove m xs"
      using sl_delete_elems [of "zsl z" ts old m] ts xs old by auto
    have "set (AList.delete m (dict z)) = (\<lambda>x. (snd x, fst x)) ` set (zremove m xs)"
      using dict(2) by (auto simp: set_AList_delete)
    moreover have "distinct (map fst (AList.delete m (dict z)))"
      using dict(1) by (rule distinct_delete)
    moreover have "m \<in> snd ` set xs"
      using old by force
    ultimately show ?thesis
      using Some l zremove_ok(1,2,3) [OF xs] by (auto simp: zset_delete_def intro!: zset_okI)
  qed
qed

definition zindex :: "bytes \<Rightarrow> (f64 \<times> bytes) list \<Rightarrow> nat option" where
  "zindex m xs = (if m \<in> snd ` set xs then Some (length (takeWhile (\<lambda>y. snd y \<noteq> m) xs)) else None)"

definition zslice :: "int \<Rightarrow> int \<Rightarrow> 'a list \<Rightarrow> 'a list" where
  "zslice start stop xs =
     (let norm = (\<lambda>i. nat (max (if i < 0 then i + int (length xs) else i) 0))
      in take (Suc (norm stop) - norm start) (drop (norm start) xs))"

lemma zset_rank_spec:
  assumes ok: "zset_ok z xs"
  shows "zset_rank m z = Some (map_option of_nat (zindex m xs))"
proof (cases "map_of (dict z) m")
  case None
  then show ?thesis
    using zset_lookup_None [OF ok, of m] by (simp add: zset_rank_def zindex_def)
next
  case (Some s)
  then have mem: "(s, m) \<in> set xs"
    using zset_lookup [OF ok] by simp
  obtain ts where ts: "zsl_ok (zsl z) ts" "map elem ts = xs"
    and xs: "sorted_wrt zlt xs" "no_nan xs" "distinct (map snd xs)"
    using ok by (auto simp: zset_ok_def)
  obtain as t bs where t: "ts = as @ t # bs" "elem t = (s, m)"
    using mem ts(2) by (metis imageE list.set_map split_list)
  have ord: "\<forall>u \<in> set as. zlt (elem u) (s, m)" "\<forall>u \<in> set bs. zlt (s, m) (elem u)"
    using xs(1) ts(2) t by (auto simp: sorted_wrt_append)
  have "\<forall>u \<in> set (as @ [t]). t_before_eq s m u"
    using ord(1) t(2) xs(2) mem by (auto simp: t_before_eq_def zlt_def elem_def no_nan_def f64_eq_def)
  moreover have "\<forall>u \<in> set bs. \<not> t_before_eq s m u"
    using ord(2) by (auto simp: t_before_eq_def zlt_def f64_lt_def f64_eq_def)
  ultimately have "get_rank s m (zsl z) = Some (Some (of_nat (length as)))"
    using get_rank_spec [of "zsl z" "as @ [t]" bs s m] ts(1) t by (auto simp: elem_def)
  moreover have "zindex m xs = Some (length as)"
  proof -
    have "m \<notin> snd ` set (map elem as)"
      using xs(3) ts(2) t by auto
    then have "takeWhile (\<lambda>y. snd y \<noteq> m) (map elem as @ (s, m) # map elem bs) = map elem as"
      by (subst takeWhile_append2) auto
    then show ?thesis
      using mem ts(2) t by (force simp: zindex_def)
  qed
  ultimately show ?thesis
    using Some by (simp add: zset_rank_def)
qed

lemma range_loop_spec:
  assumes "zsl_ok l ts" and "\<forall>i \<in> set is. i < length ts"
  shows "range_loop l is = Some (map (\<lambda>i. (t_member (ts ! i), t_score (ts ! i))) is)"
  using assms(2)
proof (induction "is")
  case (Cons i "is")
  have "unat (of_nat i :: usize) = i"
    using Cons.prems zsl_length [OF assms(1)] NODE_LIMIT_small [of i]
    by (simp add: unat_of_nat take_bit_nat_eq_self)
  then show ?case
    using Cons get_element_by_rank_spec [OF assms(1), of "of_nat i"] by simp
qed simp

lemma map_nth_upt: "b \<le> length xs \<Longrightarrow> map (\<lambda>i. g (xs ! i)) [a..<b] = map g (take (b - a) (drop a xs))"
  by (intro nth_equalityI) auto

lemma zset_range_spec:
  assumes ok: "zset_ok z xs"
  shows "zset_range start stop z = Some (map (\<lambda>x. (snd x, fst x)) (zslice start stop xs))"
proof -
  obtain ts where ts: "zsl_ok (zsl z) ts" "map elem ts = xs"
    using ok by (auto simp: zset_ok_def)
  have len: "zset_len z = length xs"
    by (rule zset_len_ok [OF ok])
  define a where "a = nat (max (if start < 0 then start + int (length xs) else start) 0)"
  define b where "b = nat (max (if stop < 0 then stop + int (length xs) else stop) 0)"
  have slice: "zslice start stop xs = take (Suc b - a) (drop a xs)"
    by (simp add: zslice_def a_def b_def Let_def)
  have rng: "zset_range start stop z =
      (if a > b \<or> a \<ge> length xs then Some [] else range_loop (zsl z) [a..<Suc (min b (length xs - 1))])"
    unfolding zset_range_def Let_def len a_def b_def ..
  show ?thesis
  proof (cases "a > b \<or> a \<ge> length xs")
    case True
    then show ?thesis
      unfolding rng slice by auto
  next
    case False
    let ?is = "[a..<Suc (min b (length xs - 1))]"
    have l: "length ts = length xs"
      using ts(2) by (metis length_map)
    have "range_loop (zsl z) ?is = Some (map (\<lambda>i. (t_member (ts ! i), t_score (ts ! i))) ?is)"
      using False l by (intro range_loop_spec [OF ts(1)]) auto
    moreover have "map (\<lambda>i. (t_member (ts ! i), t_score (ts ! i))) ?is =
        map (\<lambda>x. (snd x, fst x)) (take (Suc b - a) (drop a xs))"
    proof -
      have "map (\<lambda>i. (t_member (ts ! i), t_score (ts ! i))) ?is =
          map (\<lambda>t. (t_member t, t_score t)) (take (Suc (min b (length xs - 1)) - a) (drop a ts))"
        using False l by (intro map_nth_upt) auto
      also have "take (Suc (min b (length xs - 1)) - a) (drop a ts) = take (Suc b - a) (drop a ts)"
        using l by (cases "b < length xs") (auto simp: min_def)
      finally show ?thesis
        by (simp add: ts(2) [symmetric] take_map drop_map)
    qed
    ultimately show ?thesis
      using False unfolding rng slice by simp
  qed
qed

section \<open>Properties\<close>

datatype zop = ZIns "bool list" f64 bytes | ZDel bytes

fun zset_step :: "zop \<Rightarrow> ZSet \<Rightarrow> ZSet option" where
  "zset_step (ZIns ds s m) z = map_option fst (zset_insert ds s m z)"
| "zset_step (ZDel m) z = map_option fst (zset_delete m z)"

fun zspec :: "zop \<Rightarrow> (f64 \<times> bytes) list \<Rightarrow> (f64 \<times> bytes) list" where
  "zspec (ZIns _ s m) xs = zassign s m xs"
| "zspec (ZDel m) xs = zremove m xs"

fun zop_ok :: "zop \<Rightarrow> bool" where
  "zop_ok (ZIns _ s _) \<longleftrightarrow> \<not> f64_is_nan s"
| "zop_ok (ZDel _) \<longleftrightarrow> True"

lemma zspec_length: "length (zspec x xs) \<le> Suc (length xs)"
proof -
  have "length (zinsert y ys) = Suc (length ys)" for y ys
    using sum_length_filter_compl [of "\<lambda>x. zlt x y" ys] by (simp add: zinsert_def)
  then show ?thesis
    by (cases x) (auto simp: zassign_def zremove_def le_SucI)
qed

lemma zset_run:
  assumes "zset_ok z xs" and "list_all zop_ok ops" and "Suc (length xs + length ops) \<le> NODE_LIMIT"
  shows "\<exists>z'. ofold zset_step ops z = Some z' \<and> zset_ok z' (fold zspec ops xs)"
  using assms
proof (induction ops arbitrary: z xs)
  case (Cons x ops)
  have "\<exists>z'. zset_step x z = Some z' \<and> zset_ok z' (zspec x xs)"
  proof (cases x)
    case (ZIns ds s m)
    then show ?thesis
      using zset_insert_spec [OF Cons.prems(1), of s ds m] Cons.prems(2,3) by auto
  next
    case (ZDel m)
    then show ?thesis
      using zset_delete_spec [OF Cons.prems(1), of m] by auto
  qed
  then obtain z1 where z1: "zset_step x z = Some z1" "zset_ok z1 (zspec x xs)"
    by blast
  then show ?case
    using Cons.IH [OF z1(2)] Cons.prems(2,3) zspec_length [of x xs] by auto
qed simp

text \<open>Property C7: for every history of insertions and deletions with scores that are not NaN, and
  every outcome of the random draws, the sorted set never panics, every search terminates, and
  the observers agree with the sorted list of the surviving (score, member) pairs: its length,
  the score of a member, the zero-based rank of a member, and the slice of a range with
  negative indices counted from the end.\<close>

theorem zset_refines_sorted_list:
  assumes "list_all zop_ok ops" and "Suc (length ops) \<le> NODE_LIMIT"
  defines "xs \<equiv> fold zspec ops []"
  shows "sorted_wrt zlt xs \<and>
    (\<exists>z. ofold zset_step ops ZSet_new = Some z \<and> zset_len z = length xs \<and>
      (\<forall>m s. zset_score m z = Some s \<longleftrightarrow> (s, m) \<in> set xs) \<and>
      (\<forall>m. zset_rank m z = Some (map_option of_nat (zindex m xs))) \<and>
      (\<forall>i j. zset_range i j z = Some (map (\<lambda>x. (snd x, fst x)) (zslice i j xs))))"
proof -
  obtain z where z: "ofold zset_step ops ZSet_new = Some z" "zset_ok z xs"
    using zset_run [OF zset_ok_new assms(1)] assms(2) by (auto simp: xs_def)
  show ?thesis
    using z(1) zset_len_ok [OF z(2)] zset_lookup [OF z(2)] zset_rank_spec [OF z(2)] zset_range_spec [OF z(2)]
      z(2) by (auto simp: zset_score_def zset_ok_def)
qed

theorem zset_refines_sorted_list_witness:
  "\<exists>z. ofold zset_step [ZIns [True] 4611686018427387904 ''b'', ZIns [] 4607182418800017408 ''a'', ZDel ''b'']
      ZSet_new = Some z \<and> zset_range 0 (- 1) z = Some [(''a'', 4607182418800017408)]"
proof -
  let ?ops = "[ZIns [True] 4611686018427387904 ''b'', ZIns [] 4607182418800017408 ''a'', ZDel ''b'']"
  have "list_all zop_ok ?ops"
    by (simp add: f64_is_nan_def f64_magnitude_def)
  moreover have "Suc (length ?ops) \<le> NODE_LIMIT"
    by (simp add: NODE_LIMIT_def)
  moreover have "fold zspec ?ops [] = [(4607182418800017408, ''a'')]"
    by (simp add: zassign_def zinsert_def zremove_def)
  ultimately show ?thesis
    using zset_refines_sorted_list [of ?ops] by (auto simp: zslice_def)
qed

text \<open>Property C35: NaN scores break the agreement between the dictionary and the skip list. After
  adding members a and b with a NaN score and removing b, the set has length one and b has no
  score, but \<^verbatim>\<open>ZRANGE 0 -1\<close> returns the removed member b.\<close>

theorem zset_nan_returns_removed_member:
  assumes nan: "f64_is_nan s" and "a \<noteq> b"
  shows "\<exists>z. ofold zset_step [ZIns d1 s a, ZIns d2 s b, ZDel b] ZSet_new = Some z \<and>
    zset_len z = 1 \<and> zset_score b z = None \<and> zset_range 0 (- 1) z = Some [(b, s)]"
proof -
  have never: "\<not> t_before s m t" "\<not> f64_eq x s" for m t x
    using nan by (auto simp: t_before_def f64_lt_def f64_eq_def)
  obtain l1 i where l1: "sl_insert d1 s a SkipList_new = Some (l1, i)"
    "zsl_ok l1 [Tower i s a (random_level d1)]"
    using sl_insert_spec [of SkipList_new "[]" "[]" s a d1] zsl_ok_new
    by (auto simp: SkipList_new_def NODE_LIMIT_def)
  have "free_list l1 \<noteq> [] \<or> length (nodes l1) < NODE_LIMIT"
    using zset_room [OF l1(2)] by (simp add: NODE_LIMIT_def)
  then obtain l2 j where l2: "sl_insert d2 s b l1 = Some (l2, j)"
    "zsl_ok l2 [Tower j s b (random_level d2), Tower i s a (random_level d1)]"
    using sl_insert_spec [of l1 "[]" "[Tower i s a (random_level d1)]" s b d2] l1(2) never by auto
  have del: "sl_delete s b l2 = Some (l2, False)"
    using sl_delete_spec [of l2 "[]" "[Tower j s b (random_level d2), Tower i s a (random_level d1)]" s b]
      l2(2) never nan by auto
  have "range_loop l2 [0] = Some [(b, s)]"
    using range_loop_spec [OF l2(2), of "[0]"] by simp
  then show ?thesis
    using l1(1) l2(1) del \<open>a \<noteq> b\<close>
    by (auto simp: ZSet_new_def zset_insert_def zset_delete_def zset_len_def zset_score_def zset_range_def
        AList.delete_eq)
qed

theorem zset_nan_returns_removed_member_witness:
  "\<exists>z. ofold zset_step [ZIns [] 9221120237041090560 ''a'', ZIns [] 9221120237041090560 ''b'', ZDel ''b''] ZSet_new
      = Some z \<and> zset_len z = 1 \<and> zset_range 0 (- 1) z = Some [(''b'', 9221120237041090560)]"
proof -
  have "f64_is_nan 9221120237041090560"
    by (simp add: f64_is_nan_def f64_magnitude_def)
  then show ?thesis
    using zset_nan_returns_removed_member [of 9221120237041090560 "''a''" "''b''" "[]" "[]"] by auto
qed

end
