(* ===== verification/Types.thy ===== *)
theory Types
  imports ZSet
begin

text \<open>
  The stored values of \<^verbatim>\<open>src/src/domain/types.rs\<close> and their memory accounting.

  A \<^verbatim>\<open>serde_json::Value\<close> is third-party data: the type variable \<open>'j\<close>. A \<^verbatim>\<open>HashMap\<close> that a value
  owns is an association list with distinct keys. What the code asks of its surroundings at one
  moment, the cached clock, the capacities of the containers at hand and the sizes the compiler
  chose, is the record \<open>rt\<close>, an argument of the operations that consult it.
\<close>

datatype Element = EString bytes | EInt int

datatype 'j Value =
    VSimple Element
  | VList "Element list" usize
  | VHash "(string \<times> Element) list" usize
  | VSet "Element list" usize
  | VZSet ZSet usize
  | VJson 'j usize

record 'j ValueEntry =
  data :: "'j Value"
  expires_at :: "u64 option"
  data_size :: usize

record rt =
  cached_time_ms :: u64
  deque_capacity :: "Element list \<Rightarrow> usize"
  hash_capacity :: "(string \<times> Element) list \<Rightarrow> usize"
  set_capacity :: "Element list \<Rightarrow> usize"
  zset_dict_capacity :: "ZSet \<Rightarrow> usize"
  zset_nodes_capacity :: "ZSet \<Rightarrow> usize"
  size_of_Element :: usize
  size_of_RString :: usize
  size_of_Bytes :: usize
  size_of_f64 :: usize
  size_of_SNode :: usize
  size_of_ValueEntry :: usize

section \<open>Sizes\<close>

fun heap_size :: "Element \<Rightarrow> usize" where
  "heap_size (EString b) = of_nat (length b)"
| "heap_size (EInt _) = 0"

fun heap_memory_size :: "rt \<Rightarrow> 'j Value \<Rightarrow> usize" where
  "heap_memory_size r (VSimple el) = heap_size el"
| "heap_memory_size r (VList d elements_heap) = elements_heap + deque_capacity r d * size_of_Element r"
| "heap_memory_size r (VHash m elements_heap) =
     elements_heap + hash_capacity r m * (size_of_RString r + size_of_Element r)"
| "heap_memory_size r (VSet s elements_heap) = elements_heap + set_capacity r s * size_of_Element r"
| "heap_memory_size r (VZSet _ sz) = sz"
| "heap_memory_size r (VJson _ sz) = sz"

definition zset_heap_memory_size :: "rt \<Rightarrow> ZSet \<Rightarrow> usize" where
  "zset_heap_memory_size r z =
     zset_dict_capacity r z * (size_of_Bytes r + size_of_f64 r + 8) +
     zset_nodes_capacity r z * size_of_SNode r"

definition ValueEntry_new :: "rt \<Rightarrow> 'j Value \<Rightarrow> u64 option \<Rightarrow> 'j ValueEntry" where
  "ValueEntry_new r d ex =
     \<lparr>data = d, expires_at = ex, data_size = size_of_ValueEntry r + heap_memory_size r d\<rparr>"

text \<open>The expiry test of the lookups: strictly later than the deadline.\<close>

definition expired :: "rt \<Rightarrow> 'j ValueEntry \<Rightarrow> bool" where
  "expired r e = (case expires_at e of None \<Rightarrow> False | Some t \<Rightarrow> t < cached_time_ms r)"

lemma ValueEntry_new_simps [simp]:
  "data (ValueEntry_new r d ex) = d" "expires_at (ValueEntry_new r d ex) = ex"
  "data_size (ValueEntry_new r d ex) = size_of_ValueEntry r + heap_memory_size r d"
  by (simp_all add: ValueEntry_new_def)

lemma expired_simps [simp]:
  "expires_at e = None \<Longrightarrow> \<not> expired r e"
  "expires_at e = Some t \<Longrightarrow> expired r e = (t < cached_time_ms r)"
  by (simp_all add: expired_def)

end
