(* ===== verification/Lru_List.thy ===== *)
theory Lru_List
  imports Prelude
begin

text \<open>
  The hand-written doubly linked list of \<^verbatim>\<open>src/src/db/eviction/lru/lru_linklist.rs\<close>, with
  its raw pointers kept as pointers.

  A \<^verbatim>\<open>NonNull<Node>\<close> is an address into an explicit heap; \<^verbatim>\<open>Box::into_raw\<close> allocates,
  \<^verbatim>\<open>Box::from_raw\<close> followed by a drop frees. Reading or writing through an address that
  is not allocated is undefined behaviour in Rust; in the model the operation returns
  \<open>None\<close>. Addresses are never handed out twice, so a stale pointer can never alias a live
  node: the model detects every use after free and every double free.

  The abstraction of a list is the sequence of its (address, key) pairs; \<open>list_ok\<close> says
  that the pointers of the heap realise it. Each operation has one lemma: it does not fail,
  it changes the sequence as specified, and it leaves every other cell of the heap alone.
\<close>

type_synonym ptr = nat

record Node =
  node_key :: key
  node_prev :: "ptr option"
  node_next :: "ptr option"

record heap =
  cells :: "ptr \<rightharpoonup> Node"
  brk :: ptr

record LruList =
  list_head :: "ptr option"
  list_tail :: "ptr option"
  list_len :: nat

section \<open>Heap access\<close>

definition Node_new :: "key \<Rightarrow> Node" where
  "Node_new k = \<lparr>node_key = k, node_prev = None, node_next = None\<rparr>"

definition box_new :: "Node \<Rightarrow> heap \<Rightarrow> heap \<times> ptr" where
  "box_new n h = (h\<lparr>cells := (cells h)(brk h \<mapsto> n), brk := Suc (brk h)\<rparr>, brk h)"

definition box_free :: "ptr \<Rightarrow> heap \<Rightarrow> heap" where
  "box_free p h = h\<lparr>cells := (cells h)(p := None)\<rparr>"

definition set_next :: "ptr \<Rightarrow> ptr option \<Rightarrow> heap \<Rightarrow> heap option" where
  "set_next p q h =
     (case cells h p of
        None \<Rightarrow> None
      | Some n \<Rightarrow> Some (h\<lparr>cells := (cells h)(p \<mapsto> n\<lparr>node_next := q\<rparr>)\<rparr>))"

definition set_prev :: "ptr \<Rightarrow> ptr option \<Rightarrow> heap \<Rightarrow> heap option" where
  "set_prev p q h =
     (case cells h p of
        None \<Rightarrow> None
      | Some n \<Rightarrow> Some (h\<lparr>cells := (cells h)(p \<mapsto> n\<lparr>node_prev := q\<rparr>)\<rparr>))"

section \<open>Operations\<close>

definition LruList_new :: LruList where
  "LruList_new = \<lparr>list_head = None, list_tail = None, list_len = 0\<rparr>"

definition is_empty :: "LruList \<Rightarrow> bool" where
  "is_empty l \<longleftrightarrow> list_head l = None"

definition push_back :: "key \<Rightarrow> heap \<Rightarrow> LruList \<Rightarrow> (heap \<times> LruList \<times> ptr) option" where
  "push_back k h l =
     (let (h1, p) = box_new (Node_new k) h;
          l1 = l\<lparr>list_len := Suc (list_len l)\<rparr>
      in if list_head l1 = None then
           Some (h1, l1\<lparr>list_head := Some p, list_tail := Some p\<rparr>, p)
         else
           (case list_tail l1 of
              None \<Rightarrow> Some (h1, l1\<lparr>list_tail := Some p\<rparr>, p)
            | Some t \<Rightarrow>
                do { h2 \<leftarrow> set_next t (Some p) h1;
                     h3 \<leftarrow> set_prev p (Some t) h2;
                     Some (h3, l1\<lparr>list_tail := Some p\<rparr>, p) }))"

text \<open>The unlinking code shared, in the source by repetition, between \<^verbatim>\<open>push_mid_back\<close> and
  \<^verbatim>\<open>pop_node\<close>.\<close>

definition unlink :: "ptr \<Rightarrow> heap \<Rightarrow> LruList \<Rightarrow> (heap \<times> LruList) option" where
  "unlink p h l =
     do { n \<leftarrow> cells h p;
          (h1, l1) \<leftarrow>
            (case node_prev n of
               Some pr \<Rightarrow> do { h' \<leftarrow> set_next pr (node_next n) h; Some (h', l) }
             | None \<Rightarrow> Some (h, l\<lparr>list_head := node_next n\<rparr>));
          (case node_next n of
             Some nx \<Rightarrow> do { h' \<leftarrow> set_prev nx (node_prev n) h1; Some (h', l1) }
           | None \<Rightarrow> Some (h1, l1\<lparr>list_tail := node_prev n\<rparr>)) }"

definition push_mid_back :: "ptr \<Rightarrow> heap \<Rightarrow> LruList \<Rightarrow> (heap \<times> LruList) option" where
  "push_mid_back p h l =
     (if Some p = list_tail l then Some (h, l)
      else
        do { (h1, l1) \<leftarrow> unlink p h l;
             h2 \<leftarrow>
               (case list_tail l1 of
                  None \<Rightarrow> Some h1
                | Some t \<Rightarrow>
                    do { ha \<leftarrow> set_next t (Some p) h1;
                         hb \<leftarrow> set_prev p (Some t) ha;
                         set_next p None hb });
             Some (h2, l1\<lparr>list_tail := Some p\<rparr>) })"

text \<open>The inner option is the Rust result: \<open>None\<close> for the empty list.\<close>

definition peek_front :: "heap \<Rightarrow> LruList \<Rightarrow> key option option" where
  "peek_front h l =
     (case list_head l of
        None \<Rightarrow> Some None
      | Some p \<Rightarrow> map_option (\<lambda>n. Some (node_key n)) (cells h p))"

definition pop_front :: "heap \<Rightarrow> LruList \<Rightarrow> (heap \<times> LruList \<times> key option) option" where
  "pop_front h l =
     (case list_head l of
        None \<Rightarrow> Some (h, l, None)
      | Some p \<Rightarrow>
          do { n \<leftarrow> cells h p;
               (let h1 = box_free p h;
                    l1 = l\<lparr>list_head := None, list_len := list_len l - 1\<rparr>
                in case node_next n of
                     Some q \<Rightarrow>
                       do { h2 \<leftarrow> set_prev q None h1;
                            Some (h2, l1\<lparr>list_head := Some q\<rparr>, Some (node_key n)) }
                   | None \<Rightarrow> Some (h1, l1\<lparr>list_tail := None\<rparr>, Some (node_key n))) })"

definition pop_node :: "ptr \<Rightarrow> heap \<Rightarrow> LruList \<Rightarrow> (heap \<times> LruList) option" where
  "pop_node p h l =
     do { (h1, l1) \<leftarrow> unlink p h (l\<lparr>list_len := list_len l - 1\<rparr>);
          _ \<leftarrow> cells h1 p;
          Some (box_free p h1, l1) }"

text \<open>\<^verbatim>\<open>Drop\<close>: pop until the list is empty. The fuel is the number of pops allowed.\<close>

fun drop_list :: "nat \<Rightarrow> heap \<Rightarrow> LruList \<Rightarrow> (heap \<times> LruList) option" where
  "drop_list 0 h l = None"
| "drop_list (Suc n) h l =
     (case pop_front h l of
        None \<Rightarrow> None
      | Some (h', l', None) \<Rightarrow> Some (h', l')
      | Some (h', l', Some _) \<Rightarrow> drop_list n h' l')"

section \<open>Abstraction\<close>

definition first_ptr :: "(ptr \<times> key) list \<Rightarrow> ptr option \<Rightarrow> ptr option" where
  "first_ptr xs nx = (case xs of [] \<Rightarrow> nx | x # _ \<Rightarrow> Some (fst x))"

definition last_ptr :: "ptr option \<Rightarrow> (ptr \<times> key) list \<Rightarrow> ptr option" where
  "last_ptr pr xs = (if xs = [] then pr else Some (fst (last xs)))"

fun dlseg :: "(ptr \<rightharpoonup> Node) \<Rightarrow> ptr option \<Rightarrow> (ptr \<times> key) list \<Rightarrow> ptr option \<Rightarrow> bool" where
  "dlseg c pr [] nx \<longleftrightarrow> True"
| "dlseg c pr ((p, k) # xs) nx \<longleftrightarrow>
     c p = Some \<lparr>node_key = k, node_prev = pr, node_next = first_ptr xs nx\<rparr> \<and>
     dlseg c (Some p) xs nx"

definition ptrs :: "(ptr \<times> key) list \<Rightarrow> ptr set" where
  "ptrs xs = fst ` set xs"

definition list_ok :: "heap \<Rightarrow> LruList \<Rightarrow> (ptr \<times> key) list \<Rightarrow> bool" where
  "list_ok h l xs \<longleftrightarrow>
     distinct (map fst xs) \<and> list_head l = first_ptr xs None \<and> list_tail l = last_ptr None xs \<and>
     list_len l = length xs \<and> dlseg (cells h) None xs None"

definition heap_ok :: "heap \<Rightarrow> bool" where
  "heap_ok h \<longleftrightarrow> (\<forall>p. cells h p \<noteq> None \<longrightarrow> p < brk h)"

lemma ptr_simps [simp]:
  "first_ptr [] nx = nx" "first_ptr (x # xs) nx = Some (fst x)"
  "last_ptr pr [] = pr" "last_ptr pr (xs @ [x]) = Some (fst x)"
  "last_ptr pr (x # xs) = last_ptr (Some (fst x)) xs"
  by (auto simp: first_ptr_def last_ptr_def)

lemma first_ptr_append [simp]: "first_ptr (xs @ ys) nx = first_ptr xs (first_ptr ys nx)"
  by (cases xs) auto

lemma last_ptr_append [simp]: "last_ptr pr (xs @ ys) = last_ptr (last_ptr pr xs) ys"
  by (simp add: last_ptr_def)

lemma ptrs_simps [simp]:
  "ptrs [] = {}" "ptrs (x # xs) = insert (fst x) (ptrs xs)" "ptrs (xs @ ys) = ptrs xs \<union> ptrs ys"
  by (auto simp: ptrs_def)

lemma fst_set_ptrs [simp]: "fst ` set xs = ptrs xs"
  by (simp add: ptrs_def)

lemma dlseg_append [simp]:
  "dlseg c pr (xs @ ys) nx \<longleftrightarrow> dlseg c pr xs (first_ptr ys nx) \<and> dlseg c (last_ptr pr xs) ys nx"
  by (induction c pr xs nx rule: dlseg.induct) simp_all

lemma dlseg_upd [simp]: "p \<notin> ptrs xs \<Longrightarrow> dlseg (c(p := v)) pr xs nx = dlseg c pr xs nx"
  by (induction c pr xs nx rule: dlseg.induct) simp_all

lemma dlseg_cong: "(\<And>p. p \<in> ptrs xs \<Longrightarrow> c p = c' p) \<Longrightarrow> dlseg c pr xs nx = dlseg c' pr xs nx"
  by (induction c pr xs nx rule: dlseg.induct) simp_all

lemma dlseg_dom: "dlseg c pr xs nx \<Longrightarrow> ptrs xs \<subseteq> dom c"
  by (induction c pr xs nx rule: dlseg.induct) (simp_all add: domI)

lemma dlseg_key: "dlseg c pr xs nx \<Longrightarrow> (p, k) \<in> set xs \<Longrightarrow> \<exists>n. c p = Some n \<and> node_key n = k"
  by (induction c pr xs nx rule: dlseg.induct) auto

lemma list_ok_frame:
  assumes "list_ok h l xs" and "\<And>p. p \<in> ptrs xs \<Longrightarrow> cells h' p = cells h p"
  shows "list_ok h' l xs"
  using assms dlseg_cong [of xs "cells h'" "cells h"] by (auto simp: list_ok_def)

lemma list_ok_dom: "list_ok h l xs \<Longrightarrow> ptrs xs \<subseteq> dom (cells h)"
  unfolding list_ok_def by (blast dest: dlseg_dom)

lemma list_ok_new [simp]: "list_ok h LruList_new []"
  by (simp add: list_ok_def LruList_new_def)

lemma list_ok_empty_iff: "list_ok h l xs \<Longrightarrow> is_empty l \<longleftrightarrow> xs = []"
  by (cases xs) (auto simp: list_ok_def is_empty_def)

lemma fresh_not_dom: "heap_ok h \<Longrightarrow> brk h \<notin> dom (cells h)"
  by (auto simp: heap_ok_def)

lemma heap_ok_mono:
  "heap_ok h \<Longrightarrow> dom (cells h') \<subseteq> dom (cells h) \<Longrightarrow> brk h' = brk h \<Longrightarrow> heap_ok h'"
  by (auto simp: heap_ok_def dom_def subset_iff)

lemma peek_front_spec:
  assumes "list_ok h l xs"
  shows "peek_front h l = Some (case xs of [] \<Rightarrow> None | x # _ \<Rightarrow> Some (snd x))"
  using assms by (cases xs) (auto simp: list_ok_def peek_front_def)

section \<open>Correctness of the operations\<close>

lemmas heap_defs = set_next_def set_prev_def box_new_def box_free_def

lemma push_back_spec:
  assumes "list_ok h l xs" and "heap_ok h"
  shows "\<exists>h' l'. push_back k h l = Some (h', l', brk h) \<and> list_ok h' l' (xs @ [(brk h, k)]) \<and>
    heap_ok h' \<and> brk h' = Suc (brk h) \<and> dom (cells h') = insert (brk h) (dom (cells h)) \<and>
    (\<forall>q. q \<notin> ptrs xs \<and> q \<noteq> brk h \<longrightarrow> cells h' q = cells h q)"
proof (cases xs rule: rev_cases)
  case Nil
  then show ?thesis
    using assms
    by (auto simp: push_back_def list_ok_def heap_defs Node_new_def heap_ok_def intro!: less_SucI)
next
  case (snoc ys y)
  obtain t kt where y: "y = (t, kt)"
    by (cases y)
  have "ptrs xs \<subseteq> dom (cells h)"
    by (rule list_ok_dom [OF assms(1)])
  then have fresh: "brk h \<notin> ptrs ys" "brk h \<noteq> t" "t \<in> dom (cells h)"
    using fresh_not_dom [OF assms(2)] by (auto simp: snoc y)
  have "list_head l \<noteq> None"
    using assms(1) by (cases ys) (auto simp: list_ok_def snoc)
  then show ?thesis
    using assms fresh
    by (auto simp: push_back_def list_ok_def heap_defs Node_new_def heap_ok_def snoc y
      intro!: less_SucI)
qed

lemma unlink_spec:
  assumes "list_ok h l (as @ (p, k) # bs)"
  shows "\<exists>h' l' n. unlink p h l = Some (h', l') \<and> list_len l' = list_len l \<and> brk h' = brk h \<and>
    cells h' p = Some n \<and> node_key n = k \<and> dom (cells h') = dom (cells h) \<and>
    list_ok h' (l'\<lparr>list_len := length (as @ bs)\<rparr>) (as @ bs) \<and>
    (\<forall>q. q \<notin> ptrs (as @ bs) \<longrightarrow> cells h' q = cells h q)"
proof -
  consider "as = []" "bs = []"
    | b kb bs' where "as = []" "bs = (b, kb) # bs'"
    | a ka as' where "as = as' @ [(a, ka)]" "bs = []"
    | a ka as' b kb bs' where "as = as' @ [(a, ka)]" "bs = (b, kb) # bs'"
    by (cases as rule: rev_cases; cases bs) auto
  then show ?thesis
    using assms
    by cases (auto simp: unlink_def list_ok_def heap_defs)
qed

lemma push_mid_back_spec:
  assumes "list_ok h l (as @ (p, k) # bs)"
  shows "\<exists>h' l'. push_mid_back p h l = Some (h', l') \<and> list_ok h' l' (as @ bs @ [(p, k)]) \<and>
    brk h' = brk h \<and> dom (cells h') = dom (cells h) \<and>
    (\<forall>q. q \<notin> ptrs (as @ (p, k) # bs) \<longrightarrow> cells h' q = cells h q)"
proof (cases bs rule: rev_cases)
  case Nil
  then show ?thesis
    using assms by (auto simp: push_mid_back_def list_ok_def)
next
  case (snoc bs' b)
  obtain t kt where b: "b = (t, kt)"
    by (cases b)
  have d: "p \<noteq> t" "p \<notin> ptrs as" "p \<notin> ptrs bs'" "t \<notin> ptrs as" "t \<notin> ptrs bs'"
    using assms by (auto simp: list_ok_def snoc b)
  obtain h1 l1 n where
    u: "unlink p h l = Some (h1, l1)" "list_len l1 = list_len l" "brk h1 = brk h"
      "cells h1 p = Some n" "node_key n = k" "dom (cells h1) = dom (cells h)"
      "list_ok h1 (l1\<lparr>list_len := length (as @ bs)\<rparr>) (as @ bs)"
      "\<And>q. q \<notin> ptrs (as @ bs) \<Longrightarrow> cells h1 q = cells h q"
    using unlink_spec [OF assms] by blast
  have "Some p \<noteq> list_tail l"
    using assms d by (simp add: list_ok_def snoc b)
  then show ?thesis
    using u d assms
    by (auto simp: push_mid_back_def heap_defs list_ok_def snoc b)
qed

lemma pop_node_spec:
  assumes "list_ok h l (as @ (p, k) # bs)"
  shows "\<exists>h' l'. pop_node p h l = Some (h', l') \<and> list_ok h' l' (as @ bs) \<and>
    brk h' = brk h \<and> dom (cells h') = dom (cells h) - {p} \<and>
    (\<forall>q. q \<notin> ptrs (as @ (p, k) # bs) \<longrightarrow> cells h' q = cells h q)"
proof -
  have len: "list_len l = Suc (length (as @ bs))" and
    d: "p \<notin> ptrs (as @ bs)"
    using assms by (auto simp: list_ok_def)
  have len_free: "unlink p h (l\<lparr>list_len := x\<rparr>)
      = map_option (\<lambda>(h', l'). (h', l'\<lparr>list_len := x\<rparr>)) (unlink p h l)" for x
    by (cases "cells h p")
      (auto simp: unlink_def heap_defs split: option.splits bind_splits)
  obtain h1 l1 n where
    u: "unlink p h l = Some (h1, l1)" "list_len l1 = list_len l" "brk h1 = brk h"
      "cells h1 p = Some n" "node_key n = k" "dom (cells h1) = dom (cells h)"
      "list_ok h1 (l1\<lparr>list_len := length (as @ bs)\<rparr>) (as @ bs)"
      "\<And>q. q \<notin> ptrs (as @ bs) \<Longrightarrow> cells h1 q = cells h q"
    using unlink_spec [OF assms] by blast
  have "list_ok (box_free p h1) (l1\<lparr>list_len := length (as @ bs)\<rparr>) (as @ bs)"
    using u(7) d by (intro list_ok_frame [OF u(7)]) (auto simp: box_free_def)
  then show ?thesis
    using u(1,3,4,6,8) len by (auto simp: pop_node_def len_free box_free_def)
qed

lemma pop_front_Nil: "list_ok h l [] \<Longrightarrow> pop_front h l = Some (h, l, None)"
  by (simp add: list_ok_def pop_front_def)

lemma pop_front_spec:
  assumes "list_ok h l ((p, k) # xs)"
  shows "\<exists>h' l'. pop_front h l = Some (h', l', Some k) \<and> list_ok h' l' xs \<and>
    brk h' = brk h \<and> dom (cells h') = dom (cells h) - {p} \<and>
    (\<forall>q. q \<notin> ptrs ((p, k) # xs) \<longrightarrow> cells h' q = cells h q)"
  using assms
  by (cases xs) (auto simp: pop_front_def list_ok_def heap_defs)

text \<open>\<^verbatim>\<open>Drop\<close> frees every node of the list, each exactly once, and nothing else.\<close>

lemma drop_list_spec:
  assumes "list_ok h l xs" and "length xs < n"
  shows "\<exists>h' l'. drop_list n h l = Some (h', l') \<and> list_ok h' l' [] \<and>
    dom (cells h') = dom (cells h) - ptrs xs \<and> (\<forall>q. q \<notin> ptrs xs \<longrightarrow> cells h' q = cells h q)"
  using assms
proof (induction xs arbitrary: h l n)
  case Nil
  then show ?case
    by (cases n) (auto simp: pop_front_Nil)
next
  case (Cons x xs)
  obtain p k where x: "x = (p, k)"
    by (cases x)
  obtain m where n: "n = Suc m"
    using Cons.prems by (cases n) auto
  obtain h1 l1 where
    1: "pop_front h l = Some (h1, l1, Some k)" "list_ok h1 l1 xs"
      "dom (cells h1) = dom (cells h) - {p}"
      "\<And>q. q \<notin> ptrs ((p, k) # xs) \<Longrightarrow> cells h1 q = cells h q"
    using pop_front_spec Cons.prems(1) x by blast
  obtain h2 l2 where
    2: "drop_list m h1 l1 = Some (h2, l2)" "list_ok h2 l2 []"
      "dom (cells h2) = dom (cells h1) - ptrs xs"
      "\<And>q. q \<notin> ptrs xs \<Longrightarrow> cells h2 q = cells h1 q"
    using Cons.IH [OF 1(2), of m] Cons.prems(2) n by auto
  show ?case
    using 1 2 by (auto simp: n x)
qed

end
