(* ===== verification/Lru_Node.thy ===== *)
theory Lru_Node
  imports Lru_List
begin

text \<open>
  The LRU policy of \<^verbatim>\<open>src/src/db/eviction/lru/lru_struct.rs\<close>: the pointer list in recency
  order, a vector of keys for random sampling and a hash map from a key to its list node and
  its index in the vector. \<open>None\<close> is undefined behaviour or a panic.

  The specification is a list of keys, least recently used first; \<open>lru_rep\<close> relates it to
  the pointer structure and \<open>lru_ok\<close> is the invariant. The sampling vector and its indices
  are shared with the LFU policy, so their operations and laws are stated for any metadata
  record that extends \<open>MetaPointers\<close>.
\<close>

record MetaPointers =
  lru_node :: ptr
  sample_idx :: nat

record LruNode =
  lru_heap :: heap
  lru_list :: LruList
  sample_keys :: "key list"
  map_key :: "key \<rightharpoonup> MetaPointers"

section \<open>The sampling vector\<close>

text \<open>\<^verbatim>\<open>Vec::swap_remove\<close> panics out of range.\<close>

definition swap_remove :: "nat \<Rightarrow> 'a list \<Rightarrow> 'a list option" where
  "swap_remove i xs = (if i < length xs then Some (butlast (xs[i := last xs])) else None)"

definition remove_sample ::
  "nat \<Rightarrow> key list \<Rightarrow> (key \<rightharpoonup> 'z MetaPointers_scheme) \<Rightarrow>
   (key list \<times> (key \<rightharpoonup> 'z MetaPointers_scheme)) option" where
  "remove_sample i sk mk =
     do { sk' \<leftarrow> swap_remove i sk;
          Some (sk',
            case nth_opt sk' i of
              None \<Rightarrow> mk
            | Some moved \<Rightarrow>
                (case mk moved of
                   None \<Rightarrow> mk
                 | Some meta \<Rightarrow> mk(moved \<mapsto> meta\<lparr>sample_idx := i\<rparr>))) }"

text \<open>\<^verbatim>\<open>gen_range(0..n)\<close> of the \<^verbatim>\<open>rand\<close> crate is the parameter \<open>gen_range\<close>; its contract is
  \<open>range_ok\<close>.\<close>

definition range_ok :: "(nat \<Rightarrow> nat) \<Rightarrow> bool" where
  "range_ok gen_range \<longleftrightarrow> (\<forall>n. 0 < n \<longrightarrow> gen_range n < n)"

definition sample_key :: "(nat \<Rightarrow> nat) \<Rightarrow> key list \<Rightarrow> key option" where
  "sample_key gen_range sk = (if sk = [] then None else nth_opt sk (gen_range (length sk)))"

section \<open>Operations\<close>

definition LruNode_new :: LruNode where
  "LruNode_new =
     \<lparr>lru_heap = \<lparr>cells = Map.empty, brk = 0\<rparr>, lru_list = LruList_new, sample_keys = [],
      map_key = Map.empty\<rparr>"

definition lru_on_write :: "key \<Rightarrow> LruNode \<Rightarrow> LruNode option" where
  "lru_on_write k s =
     (case map_key s k of
        None \<Rightarrow>
          do { (h, l, p) \<leftarrow> push_back k (lru_heap s) (lru_list s);
               Some (s\<lparr>lru_heap := h, lru_list := l, sample_keys := sample_keys s @ [k],
                       map_key := (map_key s)(k \<mapsto>
                         \<lparr>lru_node = p, sample_idx = length (sample_keys s)\<rparr>)\<rparr>) }
      | Some meta \<Rightarrow>
          do { (h, l) \<leftarrow> push_mid_back (lru_node meta) (lru_heap s) (lru_list s);
               Some (s\<lparr>lru_heap := h, lru_list := l\<rparr>) })"

definition lru_on_read :: "key \<Rightarrow> LruNode \<Rightarrow> LruNode option" where
  "lru_on_read k s =
     (case map_key s k of
        None \<Rightarrow> Some s
      | Some meta \<Rightarrow>
          do { (h, l) \<leftarrow> push_mid_back (lru_node meta) (lru_heap s) (lru_list s);
               Some (s\<lparr>lru_heap := h, lru_list := l\<rparr>) })"

definition lru_on_delete :: "key \<Rightarrow> LruNode \<Rightarrow> LruNode option" where
  "lru_on_delete k s =
     (case map_key s k of
        None \<Rightarrow> Some s
      | Some meta \<Rightarrow>
          do { (h, l) \<leftarrow> pop_node (lru_node meta) (lru_heap s) (lru_list s);
               (sk, mk) \<leftarrow> remove_sample (sample_idx meta) (sample_keys s) ((map_key s)(k := None));
               Some (s\<lparr>lru_heap := h, lru_list := l, sample_keys := sk, map_key := mk\<rparr>) })"

definition lru_get_random_sample_key :: "(nat \<Rightarrow> nat) \<Rightarrow> LruNode \<Rightarrow> key option" where
  "lru_get_random_sample_key gen_range s = sample_key gen_range (sample_keys s)"

definition lru_pop_victim :: "LruNode \<Rightarrow> (LruNode \<times> key option) option" where
  "lru_pop_victim s = do { v \<leftarrow> peek_front (lru_heap s) (lru_list s); Some (s, v) }"

section \<open>Invariant of the sampling vector\<close>

definition sample_ok :: "key list \<Rightarrow> (key \<rightharpoonup> 'z MetaPointers_scheme) \<Rightarrow> bool" where
  "sample_ok sk mk \<longleftrightarrow>
     distinct sk \<and> dom mk = set sk \<and>
     (\<forall>k m. mk k = Some m \<longrightarrow> sample_idx m < length sk \<and> sk ! sample_idx m = k)"

lemma sample_ok_new [simp]: "sample_ok [] Map.empty"
  by (simp add: sample_ok_def)

lemma sample_ok_append:
  assumes "sample_ok sk mk" and "mk k = None" and "sample_idx m = length sk"
  shows "sample_ok (sk @ [k]) (mk(k \<mapsto> m))"
  using assms by (auto simp: sample_ok_def nth_append less_SucI domIff split: if_splits)

lemma sample_ok_upd:
  assumes "sample_ok sk mk" and "mk k = Some m" and "sample_idx m' = sample_idx m"
  shows "sample_ok sk (mk(k \<mapsto> m'))"
  using assms by (auto simp: sample_ok_def)

lemma swap_remove_props:
  assumes "distinct xs" and "i < length xs"
  shows "\<exists>ys. swap_remove i xs = Some ys \<and> distinct ys \<and> set ys = set xs - {xs ! i} \<and>
    length ys = length xs - 1 \<and> (\<forall>j < length ys. j \<noteq> i \<longrightarrow> ys ! j = xs ! j) \<and>
    (i < length ys \<longrightarrow> ys ! i = last xs)"
proof -
  obtain zs z where xs: "xs = zs @ [z]"
    using assms(2) by (cases xs rule: rev_cases) auto
  show ?thesis
  proof (cases "i < length zs")
    case True
    have "distinct (zs[i := z])"
      using assms(1) by (simp add: xs distinct_list_update)
    moreover have "set (zs[i := z]) = set zs - {zs ! i} \<union> {z}"
      using assms(1) True by (simp add: xs set_update_distinct)
    ultimately show ?thesis
      using True assms(1) by (auto simp: swap_remove_def xs list_update_append nth_append)
  next
    case False
    then have "i = length zs"
      using assms(2) by (simp add: xs)
    then show ?thesis
      using assms(1) by (auto simp: swap_remove_def xs nth_append)
  qed
qed

text \<open>Removing a key keeps the vector and the indices consistent, and changes nothing else of
  the metadata of the other keys.\<close>

definition strip_idx :: "(key \<rightharpoonup> 'z MetaPointers_scheme) \<Rightarrow> (key \<rightharpoonup> 'z MetaPointers_scheme)" where
  "strip_idx mk = (\<lambda>x. map_option (sample_idx_update (\<lambda>_. 0)) (mk x))"

lemma strip_idx_dom: "strip_idx mk = strip_idx mk' \<Longrightarrow> dom mk = dom mk'"
  by (auto simp: strip_idx_def dom_def fun_eq_iff) (metis map_option_eq_Some)+

lemma strip_idx_proj:
  assumes "strip_idx mk = strip_idx mk'" and "\<And>m i. f (m\<lparr>sample_idx := i\<rparr>) = f m"
  shows "map_option f (mk x) = map_option f (mk' x)"
proof -
  have "map_option f (mk x) = map_option f (strip_idx mk x)" for mk
    by (simp add: strip_idx_def option.map_comp comp_def assms(2))
  then show ?thesis
    using assms(1) by metis
qed

lemma remove_sample_spec:
  assumes ok: "sample_ok sk mk" and m: "mk k = Some m"
  shows "\<exists>sk' mk'. remove_sample (sample_idx m) sk (mk(k := None)) = Some (sk', mk') \<and>
    sample_ok sk' mk' \<and> set sk' = set sk - {k} \<and> strip_idx mk' = strip_idx (mk(k := None))"
proof -
  let ?i = "sample_idx m" and ?mk = "mk(k := None)"
  have i: "?i < length sk" "sk ! ?i = k"
    using ok m by (auto simp: sample_ok_def)
  obtain ys where ys: "swap_remove ?i sk = Some ys" "distinct ys" "set ys = set sk - {k}"
    "length ys = length sk - 1" "\<And>j. j < length ys \<Longrightarrow> j \<noteq> ?i \<Longrightarrow> ys ! j = sk ! j"
    "?i < length ys \<Longrightarrow> ys ! ?i = last sk"
    using swap_remove_props [of sk ?i] ok i by (auto simp: sample_ok_def)
  have idx: "sample_idx mx < length sk" "sk ! sample_idx mx = x" "sample_idx mx \<noteq> ?i"
    if "mk x = Some mx" "x \<noteq> k" for x mx
    using ok that i unfolding sample_ok_def by metis+
  have last: "last sk = sk ! (length sk - 1)"
    using i by (cases sk) (auto simp: last_conv_nth)
  have dom: "dom ?mk = set ys"
    using ok ys(3) by (auto simp: sample_ok_def)
  show ?thesis
  proof (cases "?i < length ys")
    case False
    then have "sample_idx mx < length ys" if "mk x = Some mx" "x \<noteq> k" for x mx
      using idx [OF that] ys(4) i by linarith
    then have "sample_ok ys ?mk"
      using ys(2,5) dom idx by (auto simp: sample_ok_def)
    then show ?thesis
      using False ys(1,3) by (auto simp: remove_sample_def nth_opt_def)
  next
    case True
    then have "ys ! ?i \<in> dom ?mk"
      unfolding dom by simp
    then obtain mm where mm: "mk (ys ! ?i) = Some mm" "ys ! ?i \<noteq> k"
      by (auto split: if_splits)
    have mi: "sample_idx mm = length sk - 1"
      using idx [OF mm] ok i last ys(6) [OF True]
      by (auto simp: sample_ok_def nth_eq_iff_index_eq)
    have other: "sample_idx mx < length ys" if "mk x = Some mx" "x \<noteq> k" "x \<noteq> ys ! ?i" for x mx
    proof -
      have "sample_idx mx \<noteq> length sk - 1"
        using idx [OF that(1,2)] that(3) ys(6) [OF True] last by auto
      then show ?thesis
        using idx [OF that(1,2)] ys(4) by linarith
    qed
    have "sample_ok ys (?mk(ys ! ?i \<mapsto> mm\<lparr>sample_idx := ?i\<rparr>))"
      using ys(2) dom idx other ys(5) True mm by (auto simp: sample_ok_def)
    moreover have "strip_idx (?mk(ys ! ?i \<mapsto> mm\<lparr>sample_idx := ?i\<rparr>)) = strip_idx ?mk"
      using mm by (auto simp: strip_idx_def)
    ultimately show ?thesis
      using True ys(1,3) mm by (auto simp: remove_sample_def)
  qed
qed

lemma sample_key_spec:
  assumes "range_ok g"
  shows "sample_key g sk = None \<longleftrightarrow> sk = []" and "sample_key g sk = Some k \<Longrightarrow> k \<in> set sk"
  using assms by (auto simp: sample_key_def range_ok_def nth_opt_def split: if_splits)

section \<open>Refinement of the recency order\<close>

definition lru_rep :: "LruNode \<Rightarrow> (ptr \<times> key) list \<Rightarrow> bool" where
  "lru_rep s xs \<longleftrightarrow>
     list_ok (lru_heap s) (lru_list s) xs \<and> heap_ok (lru_heap s) \<and>
     dom (cells (lru_heap s)) = ptrs xs \<and> distinct (map snd xs) \<and>
     sample_ok (sample_keys s) (map_key s) \<and>
     (\<forall>p k. (p, k) \<in> set xs \<longleftrightarrow> map_option lru_node (map_key s k) = Some p)"

definition lru_order :: "LruNode \<Rightarrow> key list \<Rightarrow> bool" where
  "lru_order s ks \<longleftrightarrow> (\<exists>xs. lru_rep s xs \<and> map snd xs = ks)"

definition lru_ok :: "LruNode \<Rightarrow> bool" where
  "lru_ok s \<longleftrightarrow> (\<exists>ks. lru_order s ks)"

definition lru_remove :: "key \<Rightarrow> key list \<Rightarrow> key list" where
  "lru_remove k ks = filter (\<lambda>x. x \<noteq> k) ks"

definition lru_touch :: "key \<Rightarrow> key list \<Rightarrow> key list" where
  "lru_touch k ks = lru_remove k ks @ [k]"

lemma lru_remove_append [simp]: "lru_remove k (xs @ ys) = lru_remove k xs @ lru_remove k ys"
  and lru_remove_Cons [simp]: "lru_remove k (k # xs) = lru_remove k xs"
  and lru_remove_id [simp]: "k \<notin> set xs \<Longrightarrow> lru_remove k xs = xs"
  and set_lru_remove [simp]: "set (lru_remove k xs) = set xs - {k}"
  by (auto simp: lru_remove_def filter_id_conv)

lemma lru_order_new: "lru_order LruNode_new []"
  by (auto simp: lru_order_def lru_rep_def LruNode_new_def heap_ok_def)

lemma lru_rep_keys: "lru_rep s xs \<Longrightarrow> set (map snd xs) = dom (map_key s)"
  unfolding lru_rep_def by (auto simp: domIff) (metis domD image_eqI map_option_eq_Some snd_conv domIff)

lemma lru_order_sample: "lru_order s ks \<Longrightarrow> set ks = set (sample_keys s) \<and> distinct ks"
  using lru_rep_keys [of s] unfolding lru_order_def lru_rep_def sample_ok_def by metis

lemma lru_rep_split:
  assumes "lru_rep s xs" and "map_key s k = Some m"
  shows "\<exists>as bs. xs = as @ (lru_node m, k) # bs \<and> k \<notin> snd ` set as \<and> k \<notin> snd ` set bs"
proof -
  have "(lru_node m, k) \<in> set xs"
    using assms by (simp add: lru_rep_def)
  then obtain as bs where "xs = as @ (lru_node m, k) # bs"
    by (auto simp: in_set_conv_decomp)
  then show ?thesis
    using assms(1) by (auto simp: lru_rep_def)
qed

lemma lru_insert_spec:
  assumes rep: "lru_rep s xs" and new: "map_key s k = None"
  shows "\<exists>s' p. lru_on_write k s = Some s' \<and> lru_rep s' (xs @ [(p, k)])"
proof -
  obtain h l where
    h: "push_back k (lru_heap s) (lru_list s) = Some (h, l, brk (lru_heap s))"
      "list_ok h l (xs @ [(brk (lru_heap s), k)])" "heap_ok h"
      "dom (cells h) = insert (brk (lru_heap s)) (dom (cells (lru_heap s)))"
    using push_back_spec [of "lru_heap s" "lru_list s" xs k] rep by (auto simp: lru_rep_def)
  have k: "k \<notin> snd ` set xs"
    using lru_rep_keys [OF rep] new by auto
  show ?thesis
    using h k new rep
    by (auto simp: lru_on_write_def lru_rep_def sample_ok_append)
qed

lemma push_mid_back_rep:
  assumes rep: "lru_rep s xs" and m: "map_key s k = Some m"
  shows "\<exists>h l ys. push_mid_back (lru_node m) (lru_heap s) (lru_list s) = Some (h, l) \<and>
    lru_rep (s\<lparr>lru_heap := h, lru_list := l\<rparr>) ys \<and> map snd ys = lru_touch k (map snd xs)"
proof -
  obtain as bs where xs: "xs = as @ (lru_node m, k) # bs" "k \<notin> snd ` set as" "k \<notin> snd ` set bs"
    using lru_rep_split [OF assms] by blast
  have "list_ok (lru_heap s) (lru_list s) (as @ (lru_node m, k) # bs)"
    using rep xs(1) by (simp add: lru_rep_def)
  then obtain h l where
    h: "push_mid_back (lru_node m) (lru_heap s) (lru_list s) = Some (h, l)"
      "list_ok h l (as @ bs @ [(lru_node m, k)])" "brk h = brk (lru_heap s)"
      "dom (cells h) = dom (cells (lru_heap s))"
    using push_mid_back_spec by blast
  have "lru_rep (s\<lparr>lru_heap := h, lru_list := l\<rparr>) (as @ bs @ [(lru_node m, k)])"
    using rep h(2,4) heap_ok_mono [OF _ _ h(3)] by (auto simp: lru_rep_def xs)
  then show ?thesis
    using h(1) xs by (auto simp: lru_touch_def)
qed

lemma lru_on_write_spec:
  assumes "lru_order s ks"
  shows "\<exists>s'. lru_on_write k s = Some s' \<and> lru_order s' (lru_touch k ks)"
proof -
  obtain xs where xs: "lru_rep s xs" "ks = map snd xs"
    using assms by (auto simp: lru_order_def)
  show ?thesis
  proof (cases "map_key s k")
    case None
    then have "k \<notin> set ks"
      using lru_rep_keys [OF xs(1)] xs(2) by auto
    then show ?thesis
      using lru_insert_spec [OF xs(1) None] xs(2) by (force simp: lru_order_def lru_touch_def)
  next
    case (Some m)
    then show ?thesis
      using push_mid_back_rep [OF xs(1) Some] xs(2) by (auto simp: lru_on_write_def lru_order_def)
  qed
qed

lemma lru_on_read_spec:
  assumes "lru_order s ks"
  shows "\<exists>s'. lru_on_read k s = Some s' \<and> lru_order s' (if k \<in> set ks then lru_touch k ks else ks)"
proof -
  obtain xs where xs: "lru_rep s xs" "ks = map snd xs"
    using assms by (auto simp: lru_order_def)
  have "k \<in> set ks \<longleftrightarrow> map_key s k \<noteq> None"
    using lru_rep_keys [OF xs(1)] xs(2) by auto
  then show ?thesis
    using push_mid_back_rep [OF xs(1), of k] xs
    by (cases "map_key s k") (auto simp: lru_on_read_def lru_order_def)
qed

lemma lru_on_delete_spec:
  assumes "lru_order s ks"
  shows "\<exists>s'. lru_on_delete k s = Some s' \<and> lru_order s' (lru_remove k ks)"
proof -
  obtain xs where xs: "lru_rep s xs" "ks = map snd xs"
    using assms by (auto simp: lru_order_def)
  show ?thesis
  proof (cases "map_key s k")
    case None
    then have "k \<notin> set ks"
      using lru_rep_keys [OF xs(1)] xs(2) by auto
    then show ?thesis
      using None assms by (simp add: lru_on_delete_def)
  next
    case (Some m)
    obtain as bs where eq: "xs = as @ (lru_node m, k) # bs" "k \<notin> snd ` set as" "k \<notin> snd ` set bs"
      using lru_rep_split [OF xs(1) Some] by blast
    have "list_ok (lru_heap s) (lru_list s) (as @ (lru_node m, k) # bs)"
      using xs(1) eq(1) by (simp add: lru_rep_def)
    then obtain h l where
      h: "pop_node (lru_node m) (lru_heap s) (lru_list s) = Some (h, l)"
        "list_ok h l (as @ bs)" "brk h = brk (lru_heap s)"
        "dom (cells h) = dom (cells (lru_heap s)) - {lru_node m}"
      using pop_node_spec by blast
    obtain sk mk where
      r: "remove_sample (sample_idx m) (sample_keys s) ((map_key s)(k := None)) = Some (sk, mk)"
        "sample_ok sk mk" "strip_idx mk = strip_idx ((map_key s)(k := None))"
      using remove_sample_spec [of "sample_keys s" "map_key s" k m] xs(1) Some
      by (auto simp: lru_rep_def)
    have proj: "map_option lru_node (mk x) = map_option lru_node (((map_key s)(k := None)) x)" for x
      by (rule strip_idx_proj [OF r(3)]) simp
    have d: "lru_node m \<notin> ptrs as" "lru_node m \<notin> ptrs bs"
      using xs(1) by (auto simp: lru_rep_def eq list_ok_def)
    have mem: "(p, x) \<in> set as \<union> set bs \<longleftrightarrow> x \<noteq> k \<and> map_option lru_node (map_key s x) = Some p" for p x
    proof -
      have "(p, x) \<in> set xs \<longleftrightarrow> map_option lru_node (map_key s x) = Some p"
        using xs(1) unfolding lru_rep_def by blast
      then show ?thesis
        using eq by (force simp: image_iff)
    qed
    have "lru_rep (s\<lparr>lru_heap := h, lru_list := l, sample_keys := sk, map_key := mk\<rparr>) (as @ bs)"
      using xs(1) h(2,4) heap_ok_mono [OF _ _ h(3)] r(2) d mem
      by (auto simp: lru_rep_def eq proj)
    then show ?thesis
      using Some h(1) r(1) xs(2) eq by (auto simp: lru_on_delete_def lru_order_def)
  qed
qed

lemma lru_pop_victim_spec:
  assumes "lru_order s ks"
  shows "lru_pop_victim s = Some (s, case ks of [] \<Rightarrow> None | k # _ \<Rightarrow> Some k)"
  using assms peek_front_spec
  by (auto simp: lru_order_def lru_rep_def lru_pop_victim_def split: list.splits)

end
