(* ===== verification/Lfu_Node.thy ===== *)
theory Lfu_Node
  imports Lru_Node
begin

text \<open>
  The LFU policy of \<^verbatim>\<open>src/src/db/eviction/lfu/lfu_struct.rs\<close>: 256 pointer lists indexed by
  access frequency, the sampling vector, the hash map of metadata and the cached minimal
  frequency. All lists of one node live in one heap.

  The specification \<open>(key, frequency)\<close> list keeps the keys in the order of their last
  access: a write of a new key appends it with frequency 1, an access moves the key to the
  end and counts one more, capped at 255. The victim is the first key of minimal frequency.
\<close>

record LfuMetaPointers = MetaPointers +
  freq :: nat

record LfuNode =
  lfu_heap :: heap
  buckets :: "LruList list"
  lfu_sample_keys :: "key list"
  lfu_map_key :: "key \<rightharpoonup> LfuMetaPointers"
  min_freq :: nat

section \<open>Operations\<close>

definition LfuNode_new :: LfuNode where
  "LfuNode_new =
     \<lparr>lfu_heap = \<lparr>cells = Map.empty, brk = 0\<rparr>, buckets = replicate 256 LruList_new,
      lfu_sample_keys = [], lfu_map_key = Map.empty, min_freq = 1\<rparr>"

text \<open>Indexing \<^verbatim>\<open>self.buckets[f]\<close> panics out of range.\<close>

definition bucket_push :: "nat \<Rightarrow> key \<Rightarrow> LfuNode \<Rightarrow> (LfuNode \<times> ptr) option" where
  "bucket_push f k s =
     do { b \<leftarrow> nth_opt (buckets s) f;
          (h, l, p) \<leftarrow> push_back k (lfu_heap s) b;
          Some (s\<lparr>lfu_heap := h, buckets := (buckets s)[f := l]\<rparr>, p) }"

definition bucket_pop :: "nat \<Rightarrow> ptr \<Rightarrow> LfuNode \<Rightarrow> LfuNode option" where
  "bucket_pop f p s =
     do { b \<leftarrow> nth_opt (buckets s) f;
          (h, l) \<leftarrow> pop_node p (lfu_heap s) b;
          Some (s\<lparr>lfu_heap := h, buckets := (buckets s)[f := l]\<rparr>) }"

definition bucket_mid_back :: "nat \<Rightarrow> ptr \<Rightarrow> LfuNode \<Rightarrow> LfuNode option" where
  "bucket_mid_back f p s =
     do { b \<leftarrow> nth_opt (buckets s) f;
          (h, l) \<leftarrow> push_mid_back p (lfu_heap s) b;
          Some (s\<lparr>lfu_heap := h, buckets := (buckets s)[f := l]\<rparr>) }"

text \<open>The loop of \<^verbatim>\<open>update_min_freq\<close> runs from the current minimum to at most 255.\<close>

function next_nonempty :: "LruList list \<Rightarrow> nat \<Rightarrow> nat option" where
  "next_nonempty bs m =
     (if m < 255 then
        (case nth_opt bs m of
           None \<Rightarrow> None
         | Some b \<Rightarrow> if is_empty b then next_nonempty bs (Suc m) else Some m)
      else Some m)"
  by pat_completeness auto
termination
  by (relation "measure (\<lambda>(_, m). 255 - m)") auto

declare next_nonempty.simps [simp del]

definition update_min_freq :: "LfuNode \<Rightarrow> LfuNode option" where
  "update_min_freq s =
     do { m \<leftarrow> next_nonempty (buckets s) (min_freq s);
          if m = 255 then
            do { b \<leftarrow> nth_opt (buckets s) 255;
                 Some (s\<lparr>min_freq := (if is_empty b then 1 else 255)\<rparr>) }
          else Some (s\<lparr>min_freq := m\<rparr>) }"

definition maintain_min_freq :: "nat \<Rightarrow> LfuNode \<Rightarrow> LfuNode option" where
  "maintain_min_freq f s =
     (if min_freq s = f then
        do { b \<leftarrow> nth_opt (buckets s) f;
             if is_empty b then update_min_freq s else Some s }
      else Some s)"

definition lfu_on_read :: "key \<Rightarrow> LfuNode \<Rightarrow> LfuNode option" where
  "lfu_on_read k s =
     (case lfu_map_key s k of
        None \<Rightarrow> Some s
      | Some meta \<Rightarrow>
          (let old_freq = freq meta;
               new_freq = (if old_freq + 1 > 255 then 255 else old_freq + 1)
           in if new_freq \<noteq> old_freq then
                do { s1 \<leftarrow> bucket_pop old_freq (lru_node meta) s;
                     (s2, p) \<leftarrow> bucket_push new_freq k s1;
                     maintain_min_freq old_freq
                       (s2\<lparr>lfu_map_key := (lfu_map_key s2)(k \<mapsto> meta\<lparr>freq := new_freq, lru_node := p\<rparr>)\<rparr>) }
              else bucket_mid_back new_freq (lru_node meta) s))"

definition lfu_on_write :: "key \<Rightarrow> LfuNode \<Rightarrow> LfuNode option" where
  "lfu_on_write k s =
     (if lfu_map_key s k = None then
        do { (s1, p) \<leftarrow> bucket_push 1 k s;
             Some (s1\<lparr>lfu_sample_keys := lfu_sample_keys s1 @ [k],
                      lfu_map_key := (lfu_map_key s1)(k \<mapsto>
                        \<lparr>lru_node = p, sample_idx = length (lfu_sample_keys s1), freq = 1\<rparr>),
                      min_freq := 1\<rparr>) }
      else lfu_on_read k s)"

definition lfu_on_delete :: "key \<Rightarrow> LfuNode \<Rightarrow> LfuNode option" where
  "lfu_on_delete k s =
     (case lfu_map_key s k of
        None \<Rightarrow> Some s
      | Some meta \<Rightarrow>
          do { s1 \<leftarrow> bucket_pop (freq meta) (lru_node meta) s;
               (sk, mk) \<leftarrow> remove_sample (sample_idx meta) (lfu_sample_keys s1)
                             ((lfu_map_key s1)(k := None));
               maintain_min_freq (freq meta) (s1\<lparr>lfu_sample_keys := sk, lfu_map_key := mk\<rparr>) })"

definition lfu_get_random_sample_key :: "(nat \<Rightarrow> nat) \<Rightarrow> LfuNode \<Rightarrow> key option" where
  "lfu_get_random_sample_key gen_range s = sample_key gen_range (lfu_sample_keys s)"

definition lfu_pop_victim :: "LfuNode \<Rightarrow> (LfuNode \<times> key option) option" where
  "lfu_pop_victim s =
     do { b \<leftarrow> nth_opt (buckets s) (min_freq s);
          s1 \<leftarrow> (if is_empty b then update_min_freq s else Some s);
          b1 \<leftarrow> nth_opt (buckets s1) (min_freq s1);
          v \<leftarrow> peek_front (lfu_heap s1) b1;
          Some (s1, v) }"

section \<open>Specification\<close>

definition lfu_remove :: "key \<Rightarrow> (key \<times> nat) list \<Rightarrow> (key \<times> nat) list" where
  "lfu_remove k rs = filter (\<lambda>x. fst x \<noteq> k) rs"

definition lfu_access :: "key \<Rightarrow> (key \<times> nat) list \<Rightarrow> (key \<times> nat) list" where
  "lfu_access k rs =
     (case map_of rs k of None \<Rightarrow> rs | Some c \<Rightarrow> lfu_remove k rs @ [(k, min 255 (Suc c))])"

definition lfu_write :: "key \<Rightarrow> (key \<times> nat) list \<Rightarrow> (key \<times> nat) list" where
  "lfu_write k rs = (if map_of rs k = None then rs @ [(k, 1)] else lfu_access k rs)"

definition lfu_victim :: "(key \<times> nat) list \<Rightarrow> key option" where
  "lfu_victim rs =
     (if rs = [] then None
      else Some (fst (hd (filter (\<lambda>x. snd x = Min (snd ` set rs)) rs))))"

definition bucket_of :: "(key \<times> nat) list \<Rightarrow> nat \<Rightarrow> key list" where
  "bucket_of rs i = map fst (filter (\<lambda>x. snd x = i) rs)"

lemma bucket_of_simps [simp]:
  "bucket_of [] i = []" "bucket_of (rs @ ts) i = bucket_of rs i @ bucket_of ts i"
  "bucket_of [(k, c)] i = (if c = i then [k] else [])"
  by (auto simp: bucket_of_def)

lemma bucket_of_remove: "bucket_of (lfu_remove k rs) i = lru_remove k (bucket_of rs i)"
  by (induction rs) (auto simp: bucket_of_def lfu_remove_def lru_remove_def)

lemma bucket_of_Nil_iff: "bucket_of rs i = [] \<longleftrightarrow> i \<notin> snd ` set rs"
  by (auto simp: bucket_of_def filter_empty_conv)

lemma bucket_of_key:
  assumes "distinct (map fst rs)" and "k \<in> set (bucket_of rs i)"
  shows "map_of rs k = Some i"
  using assms by (force simp: bucket_of_def)

lemma lfu_remove_simps [simp]:
  "set (lfu_remove k rs) = {x \<in> set rs. fst x \<noteq> k}"
  "distinct (map fst rs) \<Longrightarrow> distinct (map fst (lfu_remove k rs))"
  by (auto simp: lfu_remove_def distinct_map_filter)

lemma map_of_lfu_remove: "map_of (lfu_remove k rs) x = (if x = k then None else map_of rs x)"
  by (induction rs) (auto simp: lfu_remove_def)

section \<open>The buckets and their heap\<close>

definition buckets_ok :: "heap \<Rightarrow> LruList list \<Rightarrow> (nat \<Rightarrow> (ptr \<times> key) list) \<Rightarrow> bool" where
  "buckets_ok h bs B \<longleftrightarrow>
     length bs = 256 \<and> (\<forall>i < 256. list_ok h (bs ! i) (B i)) \<and>
     (\<forall>i j. i \<noteq> j \<longrightarrow> ptrs (B i) \<inter> ptrs (B j) = {}) \<and>
     heap_ok h \<and> dom (cells h) = (\<Union>i. ptrs (B i))"

lemma buckets_ok_upd:
  assumes B: "buckets_ok h bs B" and f: "f < 256"
    and ok: "list_ok h' l xs" "heap_ok h'" "dom (cells h') = dom (cells h) - ptrs (B f) \<union> ptrs xs"
    and disj: "ptrs xs \<inter> (dom (cells h) - ptrs (B f)) = {}"
    and frame: "\<And>q. q \<notin> ptrs (B f) \<union> ptrs xs \<Longrightarrow> cells h' q = cells h q"
  shows "buckets_ok h' (bs[f := l]) (B(f := xs))"
proof -
  have sub: "ptrs (B i) \<subseteq> dom (cells h) - ptrs (B f)" if "i \<noteq> f" for i
    using B that unfolding buckets_ok_def by blast
  have "list_ok h' (bs ! i) (B i)" if "i < 256" "i \<noteq> f" for i
  proof (rule list_ok_frame)
    show "list_ok h (bs ! i) (B i)"
      using B that(1) by (simp add: buckets_ok_def)
    show "cells h' q = cells h q" if "q \<in> ptrs (B i)" for q
      using sub [OF \<open>i \<noteq> f\<close>] that disj by (intro frame) blast
  qed
  moreover have "ptrs ((B(f := xs)) i) \<inter> ptrs ((B(f := xs)) j) = {}" if "i \<noteq> j" for i j
  proof -
    have "ptrs (B i) \<inter> ptrs (B j) = {}"
      using B that by (simp add: buckets_ok_def)
    then show ?thesis
      using that sub [of i] sub [of j] disj by (cases "i = f"; cases "j = f") auto
  qed
  moreover have "dom (cells h') = (\<Union>i. ptrs ((B(f := xs)) i))"
  proof -
    have "dom (cells h) - ptrs (B f) = (\<Union>i \<in> - {f}. ptrs (B i))"
      using B unfolding buckets_ok_def by blast
    moreover have "(\<Union>i. ptrs ((B(f := xs)) i)) = (\<Union>i \<in> - {f}. ptrs (B i)) \<union> ptrs xs"
      by (auto split: if_splits)
    ultimately show ?thesis
      using ok(3) by simp
  qed
  ultimately show ?thesis
    using B f ok(1,2) by (auto simp: buckets_ok_def nth_list_update)
qed

lemma bucket_push_ok:
  assumes B: "buckets_ok (lfu_heap s) (buckets s) B" and f: "f < 256"
  shows "\<exists>h bs p. bucket_push f k s = Some (s\<lparr>lfu_heap := h, buckets := bs\<rparr>, p) \<and>
    buckets_ok h bs (B(f := B f @ [(p, k)]))"
proof -
  let ?p = "brk (lfu_heap s)"
  have l: "list_ok (lfu_heap s) (buckets s ! f) (B f)" "heap_ok (lfu_heap s)"
    and len: "f < length (buckets s)"
    using B f by (auto simp: buckets_ok_def)
  obtain h l where
    h: "push_back k (lfu_heap s) (buckets s ! f) = Some (h, l, ?p)"
      "list_ok h l (B f @ [(?p, k)])" "heap_ok h"
      "dom (cells h) = insert ?p (dom (cells (lfu_heap s)))"
      "\<And>q. q \<notin> ptrs (B f) \<and> q \<noteq> ?p \<Longrightarrow> cells h q = cells (lfu_heap s) q"
    using push_back_spec [OF l] by blast
  have fresh: "?p \<notin> dom (cells (lfu_heap s))"
    using fresh_not_dom [OF l(2)] .
  have "buckets_ok h ((buckets s)[f := l]) (B(f := B f @ [(?p, k)]))"
    using list_ok_dom [OF l(1)] h fresh
    by (intro buckets_ok_upd [OF B f h(2,3)]) auto
  then show ?thesis
    using h(1) len by (auto simp: bucket_push_def)
qed

lemma bucket_pop_ok:
  assumes B: "buckets_ok (lfu_heap s) (buckets s) B" and f: "f < 256"
    and eq: "B f = as @ (p, k) # bs"
  shows "\<exists>h ls. bucket_pop f p s = Some (s\<lparr>lfu_heap := h, buckets := ls\<rparr>) \<and>
    buckets_ok h ls (B(f := as @ bs))"
proof -
  have l: "list_ok (lfu_heap s) (buckets s ! f) (as @ (p, k) # bs)"
    and len: "f < length (buckets s)" and ok: "heap_ok (lfu_heap s)"
    using B f eq by (metis buckets_ok_def)+
  obtain h l where
    h: "pop_node p (lfu_heap s) (buckets s ! f) = Some (h, l)"
      "list_ok h l (as @ bs)" "brk h = brk (lfu_heap s)"
      "dom (cells h) = dom (cells (lfu_heap s)) - {p}"
      "\<And>q. q \<notin> ptrs (B f) \<Longrightarrow> cells h q = cells (lfu_heap s) q"
    using pop_node_spec [OF l] unfolding eq by blast
  have p: "p \<notin> ptrs as" "p \<notin> ptrs bs"
    using l by (auto simp: list_ok_def)
  have "heap_ok h"
    using heap_ok_mono [OF ok _ h(3)] h(4) by auto
  then have "buckets_ok h ((buckets s)[f := l]) (B(f := as @ bs))"
    using list_ok_dom [OF l] h(4,5) p
    by (intro buckets_ok_upd [OF B f h(2)]) (auto simp: eq)
  then show ?thesis
    using h(1) len by (auto simp: bucket_pop_def)
qed

lemma bucket_mid_back_ok:
  assumes B: "buckets_ok (lfu_heap s) (buckets s) B" and f: "f < 256"
    and eq: "B f = as @ (p, k) # bs"
  shows "\<exists>h ls. bucket_mid_back f p s = Some (s\<lparr>lfu_heap := h, buckets := ls\<rparr>) \<and>
    buckets_ok h ls (B(f := as @ bs @ [(p, k)]))"
proof -
  have l: "list_ok (lfu_heap s) (buckets s ! f) (as @ (p, k) # bs)"
    and len: "f < length (buckets s)" and ok: "heap_ok (lfu_heap s)"
    using B f eq by (metis buckets_ok_def)+
  obtain h l where
    h: "push_mid_back p (lfu_heap s) (buckets s ! f) = Some (h, l)"
      "list_ok h l (as @ bs @ [(p, k)])" "brk h = brk (lfu_heap s)"
      "dom (cells h) = dom (cells (lfu_heap s))"
      "\<And>q. q \<notin> ptrs (B f) \<Longrightarrow> cells h q = cells (lfu_heap s) q"
    using push_mid_back_spec [OF l] unfolding eq by blast
  have "heap_ok h"
    using heap_ok_mono [OF ok _ h(3)] h(4) by auto
  then have "buckets_ok h ((buckets s)[f := l]) (B(f := as @ bs @ [(p, k)]))"
    using list_ok_dom [OF l] h(4,5)
    by (intro buckets_ok_upd [OF B f h(2)]) (auto simp: eq)
  then show ?thesis
    using h(1) len by (auto simp: bucket_mid_back_def)
qed

lemma bucket_empty_iff:
  assumes "buckets_ok h bs B" and "i < 256"
  shows "\<exists>b. nth_opt bs i = Some b \<and> (is_empty b \<longleftrightarrow> B i = [])"
  using assms list_ok_empty_iff by (auto simp: buckets_ok_def)

lemma next_nonempty_spec:
  assumes "buckets_ok h bs B" and "m \<le> 255"
  shows "\<exists>n. next_nonempty bs m = Some n \<and> m \<le> n \<and> n \<le> 255 \<and>
    (\<forall>i. m \<le> i \<and> i < n \<longrightarrow> B i = []) \<and> (n < 255 \<longrightarrow> B n \<noteq> [])"
  using assms
proof (induction bs m rule: next_nonempty.induct)
  case (1 bs m)
  show ?case
  proof (cases "m < 255")
    case True
    obtain b where b: "nth_opt bs m = Some b" "is_empty b \<longleftrightarrow> B m = []"
      using bucket_empty_iff [OF 1(2), of m] True by auto
    show ?thesis
    proof (cases "is_empty b")
      case emp: True
      obtain n where n: "next_nonempty bs (Suc m) = Some n" "Suc m \<le> n" "n \<le> 255"
        "\<forall>i. Suc m \<le> i \<and> i < n \<longrightarrow> B i = []" "n < 255 \<longrightarrow> B n \<noteq> []"
        using 1(1) [OF True b(1) emp 1(2)] True by auto
      have "\<forall>i. m \<le> i \<and> i < n \<longrightarrow> B i = []"
        using n(4) emp b(2) by (metis Suc_leI le_neq_implies_less)
      then show ?thesis
        using n True b(1) emp by (subst next_nonempty.simps) auto
    next
      case False
      then show ?thesis
        using True b by (subst next_nonempty.simps) auto
    qed
  next
    case False
    then show ?thesis
      using 1(3) by (subst next_nonempty.simps) auto
  qed
qed

section \<open>Refinement\<close>

definition lfu_core :: "LfuNode \<Rightarrow> (nat \<Rightarrow> (ptr \<times> key) list) \<Rightarrow> (key \<times> nat) list \<Rightarrow> bool" where
  "lfu_core s B rs \<longleftrightarrow>
     buckets_ok (lfu_heap s) (buckets s) B \<and>
     sample_ok (lfu_sample_keys s) (lfu_map_key s) \<and>
     (\<forall>k m. lfu_map_key s k = Some m \<longrightarrow> (lru_node m, k) \<in> set (B (freq m))) \<and>
     (\<forall>k. map_option freq (lfu_map_key s k) = map_of rs k) \<and>
     distinct (map fst rs) \<and> (\<forall>x \<in> set rs. 1 \<le> snd x \<and> snd x \<le> 255) \<and>
     (\<forall>i. map snd (B i) = bucket_of rs i)"

definition min_ok :: "nat \<Rightarrow> (key \<times> nat) list \<Rightarrow> bool" where
  "min_ok m rs \<longleftrightarrow>
     1 \<le> m \<and> m \<le> 255 \<and> (\<forall>x \<in> set rs. m \<le> snd x) \<and> (rs \<noteq> [] \<longrightarrow> m \<in> snd ` set rs)"

definition lfu_order :: "LfuNode \<Rightarrow> (key \<times> nat) list \<Rightarrow> bool" where
  "lfu_order s rs \<longleftrightarrow> (\<exists>B. lfu_core s B rs) \<and> min_ok (min_freq s) rs"

definition lfu_ok :: "LfuNode \<Rightarrow> bool" where
  "lfu_ok s \<longleftrightarrow> (\<exists>rs. lfu_order s rs)"

lemma lfu_core_min_freq [simp]: "lfu_core (s\<lparr>min_freq := m\<rparr>) B rs = lfu_core s B rs"
  by (simp add: lfu_core_def)

lemma lfu_order_new: "lfu_order LfuNode_new []"
  by (auto simp: lfu_order_def lfu_core_def buckets_ok_def LfuNode_new_def heap_ok_def min_ok_def
      intro!: exI [of _ "\<lambda>_. []"])

lemma lfu_bucket_empty:
  assumes "lfu_core s B rs" and "i < 256"
  shows "\<exists>b. nth_opt (buckets s) i = Some b \<and> (is_empty b \<longleftrightarrow> i \<notin> snd ` set rs)"
proof -
  have "B i = [] \<longleftrightarrow> i \<notin> snd ` set rs"
    using assms(1) bucket_of_Nil_iff [of rs i] unfolding lfu_core_def by (metis map_is_Nil_conv)
  then show ?thesis
    using bucket_empty_iff [of "lfu_heap s" "buckets s" B i] assms by (simp add: lfu_core_def)
qed

lemma update_min_freq_spec:
  assumes core: "lfu_core s B rs" and m: "1 \<le> min_freq s" "min_freq s \<le> 255"
    and low: "\<And>x. x \<in> set rs \<Longrightarrow> min_freq s \<le> snd x"
  shows "\<exists>n. update_min_freq s = Some (s\<lparr>min_freq := n\<rparr>) \<and> min_ok n rs"
proof -
  have e: "B i = [] \<longleftrightarrow> i \<notin> snd ` set rs" for i
    using core bucket_of_Nil_iff [of rs i] unfolding lfu_core_def by (metis map_is_Nil_conv)
  have hi: "snd x \<le> 255" if "x \<in> set rs" for x
    using core that by (simp add: lfu_core_def)
  have ok: "buckets_ok (lfu_heap s) (buckets s) B"
    using core by (simp add: lfu_core_def)
  obtain n where n: "next_nonempty (buckets s) (min_freq s) = Some n" "min_freq s \<le> n" "n \<le> 255"
    "\<forall>i. min_freq s \<le> i \<and> i < n \<longrightarrow> i \<notin> snd ` set rs" "n < 255 \<longrightarrow> n \<in> snd ` set rs"
    using next_nonempty_spec [OF ok m(2)] unfolding e not_not by metis
  have low': "n \<le> snd x" if "x \<in> set rs" for x
    using n(4) low [OF that] that by (meson imageI not_le)
  obtain b where b: "nth_opt (buckets s) 255 = Some b" "is_empty b \<longleftrightarrow> 255 \<notin> snd ` set rs"
    using lfu_bucket_empty [OF core, of 255] by auto
  show ?thesis
  proof (cases "n = 255")
    case True
    have "rs = []" if "is_empty b"
      using b(2) that low' hi True by (metis imageI le_antisym last_in_set)
    then show ?thesis
      using True n(1) b m low' by (auto simp: update_min_freq_def min_ok_def)
  next
    case False
    then show ?thesis
      using n m low' by (auto simp: update_min_freq_def min_ok_def)
  qed
qed

lemma maintain_min_freq_spec:
  assumes core: "lfu_core s B rs" and f: "f < 256"
    and m: "1 \<le> min_freq s" "min_freq s \<le> 255" "\<And>x. x \<in> set rs \<Longrightarrow> min_freq s \<le> snd x"
    and other: "min_freq s \<noteq> f \<Longrightarrow> rs \<noteq> [] \<Longrightarrow> min_freq s \<in> snd ` set rs"
  shows "\<exists>n. maintain_min_freq f s = Some (s\<lparr>min_freq := n\<rparr>) \<and> min_ok n rs"
proof -
  obtain b where b: "nth_opt (buckets s) f = Some b" "is_empty b \<longleftrightarrow> f \<notin> snd ` set rs"
    using lfu_bucket_empty [OF core f] by auto
  have keep: "\<exists>n. Some s = Some (s\<lparr>min_freq := n\<rparr>) \<and> min_ok n rs" if "min_ok (min_freq s) rs"
    using that by (intro exI [of _ "min_freq s"]) simp
  show ?thesis
    using b update_min_freq_spec [OF core m] m other keep
    by (auto simp: maintain_min_freq_def min_ok_def)
qed

lemma lfu_core_split:
  assumes core: "lfu_core s B rs" and m: "lfu_map_key s k = Some m"
  shows "\<exists>as bs. B (freq m) = as @ (lru_node m, k) # bs \<and>
    map snd (as @ bs) = lru_remove k (bucket_of rs (freq m))"
    and "map_of rs k = Some (freq m)" and "1 \<le> freq m" and "freq m \<le> 255"
    and "\<And>i. i \<noteq> freq m \<Longrightarrow> lru_remove k (bucket_of rs i) = bucket_of rs i"
proof -
  have map: "map_of rs k = Some (freq m)" and d: "distinct (map fst rs)"
    and keys: "map snd (B (freq m)) = bucket_of rs (freq m)"
    using core m unfolding lfu_core_def by (metis option.simps(9))+
  show "map_of rs k = Some (freq m)"
    by (fact map)
  show "1 \<le> freq m" "freq m \<le> 255"
    using core map_of_SomeD [OF map] by (force simp: lfu_core_def)+
  show "lru_remove k (bucket_of rs i) = bucket_of rs i" if "i \<noteq> freq m" for i
    using bucket_of_key [OF d, of k i] map that by (intro lru_remove_id) auto
  have "(lru_node m, k) \<in> set (B (freq m))"
    using core m unfolding lfu_core_def by blast
  then obtain as bs where eq: "B (freq m) = as @ (lru_node m, k) # bs"
    by (auto simp: in_set_conv_decomp)
  have "distinct (bucket_of rs (freq m))"
    using d by (auto simp: bucket_of_def distinct_map_filter)
  then have "k \<notin> set (map snd as)" "k \<notin> set (map snd bs)"
    unfolding keys [symmetric] eq by auto
  then have "map snd (as @ bs) = lru_remove k (bucket_of rs (freq m))"
    unfolding keys [symmetric] eq by simp
  then show "\<exists>as bs. B (freq m) = as @ (lru_node m, k) # bs \<and>
    map snd (as @ bs) = lru_remove k (bucket_of rs (freq m))"
    using eq by blast
qed

lemma lfu_node_other_key:
  assumes core: "lfu_core s B rs" and x: "lfu_map_key s x = Some mx" "x \<noteq> k"
    and eq: "B f = as @ (p, k) # bs"
    and sub: "set (as @ bs) \<subseteq> set (B' f)" "\<And>i. i \<noteq> f \<Longrightarrow> set (B i) \<subseteq> set (B' i)"
  shows "(lru_node mx, x) \<in> set (B' (freq mx))"
proof -
  have "(lru_node mx, x) \<in> set (B (freq mx))"
    using core x(1) unfolding lfu_core_def by blast
  then show ?thesis
    using x(2) eq sub by (cases "freq mx = f") auto
qed

lemma lfu_insert_spec:
  assumes core: "lfu_core s B rs" and new: "lfu_map_key s k = None"
  shows "\<exists>s' B'. lfu_on_write k s = Some s' \<and> lfu_core s' B' (rs @ [(k, 1)]) \<and> min_freq s' = 1"
proof -
  have ok: "buckets_ok (lfu_heap s) (buckets s) B"
    using core by (simp add: lfu_core_def)
  obtain h ls p where
    h: "bucket_push 1 k s = Some (s\<lparr>lfu_heap := h, buckets := ls\<rparr>, p)"
      "buckets_ok h ls (B(1 := B 1 @ [(p, k)]))"
    using bucket_push_ok [OF ok, of 1 k] by auto
  let ?s = "s\<lparr>lfu_heap := h, buckets := ls, lfu_sample_keys := lfu_sample_keys s @ [k],
    lfu_map_key := (lfu_map_key s)(k \<mapsto>
      \<lparr>lru_node = p, sample_idx = length (lfu_sample_keys s), freq = 1\<rparr>), min_freq := 1\<rparr>"
  have none: "map_of rs k = None"
    using core new unfolding lfu_core_def by (metis option.simps(8))
  then have k: "k \<notin> fst ` set rs"
    by (simp add: map_of_eq_None_iff)
  have "lfu_core ?s (B(1 := B 1 @ [(p, k)])) (rs @ [(k, 1)])"
    using core h(2) new k none
    by (fastforce simp: lfu_core_def sample_ok_append map_add_def split: option.splits)
  then show ?thesis
    using h(1) new by (auto simp: lfu_on_write_def)
qed

lemma min_ok_other:
  assumes "min_ok m rs" and "map_of rs k = Some f" and "distinct (map fst rs)" and "m \<noteq> f"
  shows "m \<in> snd ` set (lfu_remove k rs)"
proof -
  obtain x where "x \<in> set rs" "snd x = m"
    using assms(1,2) by (force simp: min_ok_def)
  moreover from this have "fst x \<noteq> k"
    using assms(2,3,4) by (metis map_of_is_SomeI option.inject prod.collapse)
  ultimately show ?thesis
    by force
qed

lemma lfu_core_move:
  assumes core: "lfu_core s B rs" and m: "lfu_map_key s k = Some m"
    and ok: "buckets_ok h ls B'" and c: "1 \<le> c" "c \<le> 255"
    and keys: "\<And>i. map snd (B' i) = bucket_of (lfu_remove k rs @ [(k, c)]) i"
    and node: "(p, k) \<in> set (B' c)"
    and others: "\<And>x mx. lfu_map_key s x = Some mx \<Longrightarrow> x \<noteq> k \<Longrightarrow> (lru_node mx, x) \<in> set (B' (freq mx))"
  shows "lfu_core (s\<lparr>lfu_heap := h, buckets := ls,
      lfu_map_key := (lfu_map_key s)(k \<mapsto> m\<lparr>freq := c, lru_node := p\<rparr>)\<rparr>) B'
    (lfu_remove k rs @ [(k, c)])"
proof -
  have "map_of (lfu_remove k rs @ [(k, c)]) x = (if x = k then Some c else map_of rs x)" for x
    by (simp add: map_add_def map_of_lfu_remove split: option.splits)
  moreover have "distinct (map fst (lfu_remove k rs @ [(k, c)]))"
    using core by (auto simp: lfu_core_def)
  moreover have "sample_ok (lfu_sample_keys s) ((lfu_map_key s)(k \<mapsto> m\<lparr>freq := c, lru_node := p\<rparr>))"
    using core m by (intro sample_ok_upd) (auto simp: lfu_core_def)
  ultimately show ?thesis
    using core ok c keys node others by (simp add: lfu_core_def)
qed

lemma lfu_on_read_spec:
  assumes ord: "lfu_order s rs"
  shows "\<exists>s'. lfu_on_read k s = Some s' \<and> lfu_order s' (lfu_access k rs) \<and>
    lfu_sample_keys s' = lfu_sample_keys s"
proof (cases "lfu_map_key s k")
  case None
  moreover from None have "map_of rs k = None"
    using ord unfolding lfu_order_def lfu_core_def by (metis option.simps(8))
  ultimately show ?thesis
    using ord by (simp add: lfu_on_read_def lfu_access_def)
next
  case (Some m)
  let ?f = "freq m" and ?rs = "lfu_access k rs"
  obtain B where core: "lfu_core s B rs" and min: "min_ok (min_freq s) rs"
    using ord by (auto simp: lfu_order_def)
  note split = lfu_core_split [OF core Some]
  have ok: "buckets_ok (lfu_heap s) (buckets s) B"
    using core by (simp add: lfu_core_def)
  have keysB: "map snd (B i) = bucket_of rs i" for i
    using core by (simp add: lfu_core_def)
  obtain as bs where eq: "B ?f = as @ (lru_node m, k) # bs"
    and keys: "map snd (as @ bs) = lru_remove k (bucket_of rs ?f)"
    using split(1) by blast
  have rs: "?rs = lfu_remove k rs @ [(k, min 255 (Suc ?f))]"
    by (simp add: lfu_access_def split(2))
  have low: "min_freq s \<le> snd x" if "x \<in> set ?rs" for x
    using that min split(4) map_of_SomeD [OF split(2)] by (force simp: rs min_ok_def)
  have stay: "min_freq s \<in> snd ` set ?rs" if "min_freq s \<noteq> ?f"
    using min_ok_other [OF min split(2) _ that] core by (auto simp: lfu_core_def rs)
  show ?thesis
  proof (cases "?f = 255")
    case True
    obtain h ls where
      h: "bucket_mid_back ?f (lru_node m) s = Some (s\<lparr>lfu_heap := h, buckets := ls\<rparr>)"
        "buckets_ok h ls (B(?f := as @ bs @ [(lru_node m, k)]))"
      using bucket_mid_back_ok [OF ok _ eq] split(4) by auto
    have others: "(lru_node mx, x) \<in> set ((B(?f := as @ bs @ [(lru_node m, k)])) (freq mx))"
      if "lfu_map_key s x = Some mx" "x \<noteq> k" for x mx
      by (rule lfu_node_other_key [OF core that eq]) auto
    have "map snd ((B(?f := as @ bs @ [(lru_node m, k)])) i) = bucket_of (lfu_remove k rs @ [(k, ?f)]) i" for i
      using keys split(5) [of i] keysB [of i] by (simp add: bucket_of_remove)
    then have "lfu_core (s\<lparr>lfu_heap := h, buckets := ls,
        lfu_map_key := (lfu_map_key s)(k \<mapsto> m\<lparr>freq := ?f, lru_node := lru_node m\<rparr>)\<rparr>)
        (B(?f := as @ bs @ [(lru_node m, k)])) (lfu_remove k rs @ [(k, ?f)])"
      using split(3,4) others by (intro lfu_core_move [OF core Some h(2)]) auto
    then have "lfu_core (s\<lparr>lfu_heap := h, buckets := ls\<rparr>) (B(?f := as @ bs @ [(lru_node m, k)])) ?rs"
      using Some True by (simp add: rs fun_upd_idem)
    moreover have "min_ok (min_freq s) ?rs"
      using min low stay True by (auto simp: min_ok_def rs)
    ultimately show ?thesis
      using h(1) Some True by (auto simp: lfu_on_read_def lfu_order_def)
  next
    case False
    then have lt: "Suc ?f < 256"
      using split(4) by simp
    obtain h1 ls1 where
      h1: "bucket_pop ?f (lru_node m) s = Some (s\<lparr>lfu_heap := h1, buckets := ls1\<rparr>)"
        "buckets_ok h1 ls1 (B(?f := as @ bs))"
      using bucket_pop_ok [OF ok _ eq] lt by auto
    obtain h2 ls2 p where
      h2: "bucket_push (Suc ?f) k (s\<lparr>lfu_heap := h1, buckets := ls1\<rparr>)
          = Some (s\<lparr>lfu_heap := h2, buckets := ls2\<rparr>, p)"
        "buckets_ok h2 ls2 (B(?f := as @ bs, Suc ?f := B (Suc ?f) @ [(p, k)]))"
      using bucket_push_ok [of "s\<lparr>lfu_heap := h1, buckets := ls1\<rparr>" "B(?f := as @ bs)" "Suc ?f" k]
        h1(2) lt by auto
    let ?B = "B(?f := as @ bs, Suc ?f := B (Suc ?f) @ [(p, k)])"
    let ?s = "s\<lparr>lfu_heap := h2, buckets := ls2,
        lfu_map_key := (lfu_map_key s)(k \<mapsto> m\<lparr>freq := Suc ?f, lru_node := p\<rparr>)\<rparr>"
    have others: "(lru_node mx, x) \<in> set (?B (freq mx))"
      if "lfu_map_key s x = Some mx" "x \<noteq> k" for x mx
      by (rule lfu_node_other_key [OF core that eq]) auto
    have "map snd (?B i) = bucket_of (lfu_remove k rs @ [(k, Suc ?f)]) i" for i
      using keys split(5) [of i] keysB [of i] by (simp add: bucket_of_remove)
    then have core': "lfu_core ?s ?B ?rs"
      using lfu_core_move [OF core Some h2(2), of "Suc ?f" p] others lt by (simp add: rs)
    obtain n where "maintain_min_freq ?f ?s = Some (?s\<lparr>min_freq := n\<rparr>)" "min_ok n ?rs"
      using maintain_min_freq_spec [OF core', of ?f] low stay min lt by (auto simp: min_ok_def)
    moreover have "lfu_core (?s\<lparr>min_freq := n\<rparr>) ?B ?rs"
      using core' lfu_core_min_freq by blast
    ultimately show ?thesis
      using h1(1) h2(1) Some False lt
      by (auto simp: lfu_on_read_def lfu_order_def Let_def)
  qed
qed

lemma lfu_on_write_spec:
  assumes ord: "lfu_order s rs"
  shows "\<exists>s'. lfu_on_write k s = Some s' \<and> lfu_order s' (lfu_write k rs)"
proof -
  obtain B where core: "lfu_core s B rs"
    using ord by (auto simp: lfu_order_def)
  have iff: "lfu_map_key s k = None \<longleftrightarrow> map_of rs k = None"
    using core unfolding lfu_core_def by (metis option.map_disc_iff)
  show ?thesis
  proof (cases "lfu_map_key s k = None")
    case True
    have "min_ok 1 (rs @ [(k, 1)])"
      using core by (auto simp: min_ok_def lfu_core_def)
    then show ?thesis
      using lfu_insert_spec [OF core True] True iff by (auto simp: lfu_write_def lfu_order_def)
  next
    case False
    then show ?thesis
      using lfu_on_read_spec [OF ord, of k] iff by (auto simp: lfu_write_def lfu_on_write_def)
  qed
qed

lemma lfu_core_delete:
  assumes core: "lfu_core s B rs" and m: "lfu_map_key s k = Some m"
    and ok: "buckets_ok h ls B'" and sample: "sample_ok sk mk"
    and mk: "strip_idx mk = strip_idx ((lfu_map_key s)(k := None))"
    and keys: "\<And>i. map snd (B' i) = bucket_of (lfu_remove k rs) i"
    and others: "\<And>x mx. lfu_map_key s x = Some mx \<Longrightarrow> x \<noteq> k \<Longrightarrow> (lru_node mx, x) \<in> set (B' (freq mx))"
  shows "lfu_core (s\<lparr>lfu_heap := h, buckets := ls, lfu_sample_keys := sk, lfu_map_key := mk\<rparr>) B'
    (lfu_remove k rs)"
proof -
  have f: "map_option freq (mk x) = map_option freq (((lfu_map_key s)(k := None)) x)" for x
    by (rule strip_idx_proj [OF mk]) simp
  have pf: "map_option (\<lambda>m. (lru_node m, freq m)) (mk x)
      = map_option (\<lambda>m. (lru_node m, freq m)) (((lfu_map_key s)(k := None)) x)" for x
    by (rule strip_idx_proj [OF mk]) simp
  have "(lru_node mx, x) \<in> set (B' (freq mx))" if "mk x = Some mx" for x mx
    using pf [of x] that others by (cases "lfu_map_key s x") (auto split: if_splits)
  moreover have "map_option freq (mk x) = map_of (lfu_remove k rs) x" for x
    using core f [of x] by (auto simp: lfu_core_def map_of_lfu_remove)
  ultimately show ?thesis
    using core ok sample keys by (simp add: lfu_core_def)
qed

lemma lfu_on_delete_spec:
  assumes ord: "lfu_order s rs"
  shows "\<exists>s'. lfu_on_delete k s = Some s' \<and> lfu_order s' (lfu_remove k rs)"
proof (cases "lfu_map_key s k")
  case None
  then have "map_of rs k = None"
    using ord unfolding lfu_order_def lfu_core_def by (metis option.simps(8))
  then have "lfu_remove k rs = rs"
    by (auto simp: lfu_remove_def filter_id_conv map_of_eq_None_iff)
  then show ?thesis
    using None ord by (simp add: lfu_on_delete_def)
next
  case (Some m)
  let ?f = "freq m" and ?rs = "lfu_remove k rs"
  obtain B where core: "lfu_core s B rs" and min: "min_ok (min_freq s) rs"
    using ord by (auto simp: lfu_order_def)
  note split = lfu_core_split [OF core Some]
  have ok: "buckets_ok (lfu_heap s) (buckets s) B"
    and sample: "sample_ok (lfu_sample_keys s) (lfu_map_key s)"
    and keysB: "map snd (B i) = bucket_of rs i" for i
    using core by (simp_all add: lfu_core_def)
  obtain as bs where eq: "B ?f = as @ (lru_node m, k) # bs"
    and keys: "map snd (as @ bs) = lru_remove k (bucket_of rs ?f)"
    using split(1) by blast
  obtain h ls where
    h: "bucket_pop ?f (lru_node m) s = Some (s\<lparr>lfu_heap := h, buckets := ls\<rparr>)"
      "buckets_ok h ls (B(?f := as @ bs))"
    using bucket_pop_ok [OF ok _ eq] split(4) by auto
  obtain sk mk where
    r: "remove_sample (sample_idx m) (lfu_sample_keys s) ((lfu_map_key s)(k := None)) = Some (sk, mk)"
      "sample_ok sk mk" "strip_idx mk = strip_idx ((lfu_map_key s)(k := None))"
    using remove_sample_spec [OF sample Some] by auto
  let ?s = "s\<lparr>lfu_heap := h, buckets := ls, lfu_sample_keys := sk, lfu_map_key := mk\<rparr>"
  have others: "(lru_node mx, x) \<in> set ((B(?f := as @ bs)) (freq mx))"
    if "lfu_map_key s x = Some mx" "x \<noteq> k" for x mx
    by (rule lfu_node_other_key [OF core that eq]) auto
  have core': "lfu_core ?s (B(?f := as @ bs)) ?rs"
    using keys split(5) keysB others
    by (intro lfu_core_delete [OF core Some h(2) r(2,3)]) (auto simp: bucket_of_remove)
  have stay: "min_freq s \<in> snd ` set ?rs" if "min_freq s \<noteq> ?f"
    using min_ok_other [OF min split(2) _ that] core by (auto simp: lfu_core_def)
  obtain n where "maintain_min_freq ?f ?s = Some (?s\<lparr>min_freq := n\<rparr>)" "min_ok n ?rs"
    using maintain_min_freq_spec [OF core', of ?f] stay min split(4) by (auto simp: min_ok_def)
  moreover have "lfu_core (?s\<lparr>min_freq := n\<rparr>) (B(?f := as @ bs)) ?rs"
    using core' lfu_core_min_freq by blast
  ultimately show ?thesis
    using h(1) r(1) Some by (auto simp: lfu_on_delete_def lfu_order_def)
qed

lemma min_ok_Min: "min_ok m rs \<Longrightarrow> rs \<noteq> [] \<Longrightarrow> m = Min (snd ` set rs)"
  by (auto simp: min_ok_def intro!: Min_eqI [symmetric])

lemma lfu_order_keys:
  assumes "lfu_order s rs"
  shows "fst ` set rs = set (lfu_sample_keys s)"
proof -
  have "lfu_map_key s k = None \<longleftrightarrow> map_of rs k = None" for k
    using assms unfolding lfu_order_def lfu_core_def by (metis option.map_disc_iff)
  then have "dom (lfu_map_key s) = dom (map_of rs)"
    by (auto simp: dom_def)
  then show ?thesis
    using assms by (auto simp: lfu_order_def lfu_core_def sample_ok_def dom_map_of_conv_image_fst)
qed

lemma lfu_pop_victim_spec:
  assumes ord: "lfu_order s rs"
  shows "\<exists>s'. lfu_pop_victim s = Some (s', lfu_victim rs) \<and> lfu_order s' rs \<and>
    lfu_sample_keys s' = lfu_sample_keys s"
proof -
  obtain B where core: "lfu_core s B rs" and min: "min_ok (min_freq s) rs"
    using ord by (auto simp: lfu_order_def)
  have peek: "\<exists>b. nth_opt (buckets s) i = Some b \<and>
      peek_front (lfu_heap s) b = Some (case bucket_of rs i of [] \<Rightarrow> None | k # _ \<Rightarrow> Some k)"
    if "i < 256" for i
  proof -
    have "list_ok (lfu_heap s) (buckets s ! i) (B i)" "i < length (buckets s)"
      "bucket_of rs i = map snd (B i)"
      using core that by (auto simp: lfu_core_def buckets_ok_def)
    then show ?thesis
      by (auto simp: peek_front_spec split: list.splits)
  qed
  obtain b where b: "nth_opt (buckets s) (min_freq s) = Some b"
    "is_empty b \<longleftrightarrow> min_freq s \<notin> snd ` set rs"
    using lfu_bucket_empty [OF core, of "min_freq s"] min by (auto simp: min_ok_def)
  show ?thesis
  proof (cases "rs = []")
    case True
    obtain n where n: "update_min_freq s = Some (s\<lparr>min_freq := n\<rparr>)" "min_ok n rs"
      using update_min_freq_spec [OF core] min by (auto simp: min_ok_def)
    then show ?thesis
      using b peek [of n] core True
      by (auto simp: lfu_pop_victim_def lfu_victim_def lfu_order_def min_ok_def)
  next
    case False
    then have in_rs: "min_freq s \<in> snd ` set rs" and m: "min_freq s = Min (snd ` set rs)"
      using min min_ok_Min [OF min] by (auto simp: min_ok_def)
    have "bucket_of rs (min_freq s) \<noteq> []"
      using in_rs by (simp add: bucket_of_Nil_iff)
    then have "(case bucket_of rs (min_freq s) of [] \<Rightarrow> None | k # _ \<Rightarrow> Some k) = lfu_victim rs"
      using False unfolding lfu_victim_def m [symmetric] bucket_of_def
      by (cases "filter (\<lambda>x. snd x = min_freq s) rs") auto
    then show ?thesis
      using b in_rs peek [of "min_freq s"] min ord by (auto simp: lfu_pop_victim_def min_ok_def)
  qed
qed

end
