(* ===== verification/Strategy.thy ===== *)
theory Strategy
  imports Lfu_Node
begin

text \<open>
  The policy interface of \<^verbatim>\<open>src/src/db/eviction/traits.rs\<close> and the enumeration
  \<^verbatim>\<open>EvictionStrategy\<close> of \<^verbatim>\<open>src/src/db/eviction/strategy.rs\<close>.

  The trait is the locale \<open>eviction_policy\<close>: what a client of a policy relies on is that
  no call fails, that the tracked keys follow the calls, and that victims and samples are
  tracked keys. It is interpreted for the LRU node, the LFU node and the enumeration; the
  stores use it only through the last one.
\<close>

section \<open>The trait\<close>

datatype policy_op = OnWrite key | OnRead key | OnDelete key

fun track_op :: "policy_op \<Rightarrow> key set \<Rightarrow> key set" where
  "track_op (OnWrite k) K = insert k K"
| "track_op (OnRead k) K = K"
| "track_op (OnDelete k) K = K - {k}"

definition policy_step ::
  "(key \<Rightarrow> 's \<Rightarrow> 's option) \<Rightarrow> (key \<Rightarrow> 's \<Rightarrow> 's option) \<Rightarrow> (key \<Rightarrow> 's \<Rightarrow> 's option) \<Rightarrow>
   policy_op \<Rightarrow> 's \<Rightarrow> 's option" where
  "policy_step wr rd del x s =
     (case x of OnWrite k \<Rightarrow> wr k s | OnRead k \<Rightarrow> rd k s | OnDelete k \<Rightarrow> del k s)"

locale eviction_policy =
  fixes on_write on_read on_delete :: "key \<Rightarrow> 's \<Rightarrow> 's option"
    and get_random_sample_key :: "(nat \<Rightarrow> nat) \<Rightarrow> 's \<Rightarrow> key option"
    and pop_victim :: "'s \<Rightarrow> ('s \<times> key option) option"
    and inv :: "'s \<Rightarrow> bool"
    and tracked :: "'s \<Rightarrow> key set"
  assumes write_law: "inv s \<Longrightarrow>
      \<exists>s'. on_write k s = Some s' \<and> inv s' \<and> tracked s' = insert k (tracked s)"
    and read_law: "inv s \<Longrightarrow> \<exists>s'. on_read k s = Some s' \<and> inv s' \<and> tracked s' = tracked s"
    and delete_law: "inv s \<Longrightarrow>
      \<exists>s'. on_delete k s = Some s' \<and> inv s' \<and> tracked s' = tracked s - {k}"
    and victim_law: "inv s \<Longrightarrow>
      \<exists>s' v. pop_victim s = Some (s', v) \<and> inv s' \<and> tracked s' = tracked s \<and>
        (v = None \<longleftrightarrow> tracked s = {}) \<and> (\<forall>k. v = Some k \<longrightarrow> k \<in> tracked s)"
    and sample_law: "inv s \<Longrightarrow> range_ok g \<Longrightarrow>
      (get_random_sample_key g s = None \<longleftrightarrow> tracked s = {}) \<and>
      (\<forall>k. get_random_sample_key g s = Some k \<longrightarrow> k \<in> tracked s)"
begin

lemma step_law:
  assumes "inv s"
  shows "\<exists>s'. policy_step on_write on_read on_delete x s = Some s' \<and> inv s' \<and>
    tracked s' = track_op x (tracked s)"
  using write_law [OF assms] read_law [OF assms] delete_law [OF assms]
  by (cases x) (auto simp: policy_step_def)

lemma run_law:
  assumes "inv s"
  shows "\<exists>s'. ofold (policy_step on_write on_read on_delete) ops s = Some s' \<and> inv s' \<and>
    tracked s' = fold track_op ops (tracked s)"
  using assms
proof (induction ops arbitrary: s)
  case Nil
  then show ?case
    by simp
next
  case (Cons x ops)
  obtain s1 where s1: "policy_step on_write on_read on_delete x s = Some s1" "inv s1"
    "tracked s1 = track_op x (tracked s)"
    using step_law [OF Cons.prems] by blast
  then show ?case
    using Cons.IH [OF s1(2)] by simp
qed

text \<open>Evicting, that is picking a victim and deleting it, strictly shrinks a non-empty policy.\<close>

lemma evict_shrinks:
  assumes "inv s" and "tracked s \<noteq> {}"
  shows "\<exists>s1 k s2. pop_victim s = Some (s1, Some k) \<and> on_delete k s1 = Some s2 \<and> inv s2 \<and>
    k \<in> tracked s \<and> tracked s2 = tracked s - {k}"
proof -
  obtain s1 k where 1: "pop_victim s = Some (s1, Some k)" "inv s1" "tracked s1 = tracked s"
    "k \<in> tracked s"
    using victim_law [OF assms(1)] assms(2) by (metis option.exhaust)
  then show ?thesis
    using delete_law [OF 1(2), of k] by auto
qed

end

section \<open>The enumeration\<close>

datatype EvictionStrategy = Lru LruNode | Lfu LfuNode

fun strategy_on_write :: "key \<Rightarrow> EvictionStrategy \<Rightarrow> EvictionStrategy option" where
  "strategy_on_write k (Lru n) = map_option Lru (lru_on_write k n)"
| "strategy_on_write k (Lfu n) = map_option Lfu (lfu_on_write k n)"

fun strategy_on_read :: "key \<Rightarrow> EvictionStrategy \<Rightarrow> EvictionStrategy option" where
  "strategy_on_read k (Lru n) = map_option Lru (lru_on_read k n)"
| "strategy_on_read k (Lfu n) = map_option Lfu (lfu_on_read k n)"

fun strategy_on_delete :: "key \<Rightarrow> EvictionStrategy \<Rightarrow> EvictionStrategy option" where
  "strategy_on_delete k (Lru n) = map_option Lru (lru_on_delete k n)"
| "strategy_on_delete k (Lfu n) = map_option Lfu (lfu_on_delete k n)"

fun strategy_get_random_sample_key :: "(nat \<Rightarrow> nat) \<Rightarrow> EvictionStrategy \<Rightarrow> key option" where
  "strategy_get_random_sample_key g (Lru n) = lru_get_random_sample_key g n"
| "strategy_get_random_sample_key g (Lfu n) = lfu_get_random_sample_key g n"

fun strategy_pop_victim :: "EvictionStrategy \<Rightarrow> (EvictionStrategy \<times> key option) option" where
  "strategy_pop_victim (Lru n) = map_option (\<lambda>(n', v). (Lru n', v)) (lru_pop_victim n)"
| "strategy_pop_victim (Lfu n) = map_option (\<lambda>(n', v). (Lfu n', v)) (lfu_pop_victim n)"

fun strategy_ok :: "EvictionStrategy \<Rightarrow> bool" where
  "strategy_ok (Lru n) = lru_ok n"
| "strategy_ok (Lfu n) = lfu_ok n"

fun strategy_keys :: "EvictionStrategy \<Rightarrow> key set" where
  "strategy_keys (Lru n) = set (sample_keys n)"
| "strategy_keys (Lfu n) = set (lfu_sample_keys n)"

definition strategy_step :: "policy_op \<Rightarrow> EvictionStrategy \<Rightarrow> EvictionStrategy option" where
  "strategy_step = policy_step strategy_on_write strategy_on_read strategy_on_delete"

section \<open>Interpretations\<close>

lemma lru_order_ok: "lru_order s ks \<Longrightarrow> lru_ok s \<and> set (sample_keys s) = set ks"
  using lru_order_sample by (auto simp: lru_ok_def)

lemma lfu_order_ok: "lfu_order s rs \<Longrightarrow> lfu_ok s \<and> set (lfu_sample_keys s) = fst ` set rs"
  using lfu_order_keys by (auto simp: lfu_ok_def)

interpretation lru: eviction_policy lru_on_write lru_on_read lru_on_delete
  lru_get_random_sample_key lru_pop_victim lru_ok "\<lambda>s. set (sample_keys s)"
proof
  fix s k
  assume "lru_ok s"
  then obtain ks where ks: "lru_order s ks"
    by (auto simp: lru_ok_def)
  show "\<exists>s'. lru_on_write k s = Some s' \<and> lru_ok s' \<and> set (sample_keys s') = insert k (set (sample_keys s))"
    using lru_on_write_spec [OF ks, of k] lru_order_ok [OF ks]
    by (auto simp: lru_touch_def dest!: lru_order_ok)
  show "\<exists>s'. lru_on_read k s = Some s' \<and> lru_ok s' \<and> set (sample_keys s') = set (sample_keys s)"
    using lru_on_read_spec [OF ks, of k] lru_order_ok [OF ks]
    by (auto simp: lru_touch_def insert_absorb dest!: lru_order_ok)
  show "\<exists>s'. lru_on_delete k s = Some s' \<and> lru_ok s' \<and> set (sample_keys s') = set (sample_keys s) - {k}"
    using lru_on_delete_spec [OF ks, of k] lru_order_ok [OF ks]
    by (auto dest!: lru_order_ok)
  show "\<exists>s' v. lru_pop_victim s = Some (s', v) \<and> lru_ok s' \<and> set (sample_keys s') = set (sample_keys s) \<and>
      (v = None \<longleftrightarrow> set (sample_keys s) = {}) \<and> (\<forall>k. v = Some k \<longrightarrow> k \<in> set (sample_keys s))"
    using lru_pop_victim_spec [OF ks] lru_order_ok [OF ks] \<open>lru_ok s\<close>
    by (auto split: list.splits)
  show "(lru_get_random_sample_key g s = None \<longleftrightarrow> set (sample_keys s) = {}) \<and>
      (\<forall>k. lru_get_random_sample_key g s = Some k \<longrightarrow> k \<in> set (sample_keys s))" if "range_ok g" for g
    using sample_key_spec [OF that] by (simp add: lru_get_random_sample_key_def)
qed

lemma lfu_write_keys: "fst ` set (lfu_write k rs) = insert k (fst ` set rs)"
  and lfu_access_keys: "fst ` set (lfu_access k rs) = fst ` set rs"
proof -
  show "fst ` set (lfu_access k rs) = fst ` set rs"
    by (cases "map_of rs k") (force simp: lfu_access_def dest: map_of_SomeD)+
  then show "fst ` set (lfu_write k rs) = insert k (fst ` set rs)"
    by (force simp: lfu_write_def map_of_eq_None_iff insert_absorb)
qed

lemma lfu_victim_props:
  "(lfu_victim rs = None \<longleftrightarrow> rs = []) \<and> (\<forall>k. lfu_victim rs = Some k \<longrightarrow> k \<in> fst ` set rs)"
proof (cases "rs = []")
  case False
  then have "Min (snd ` set rs) \<in> snd ` set rs"
    by (intro Min_in) auto
  then have "filter (\<lambda>x. snd x = Min (snd ` set rs)) rs \<noteq> []"
    by (force simp: filter_empty_conv)
  then have "hd (filter (\<lambda>x. snd x = Min (snd ` set rs)) rs) \<in> set rs"
    by (metis filter_is_subset list.set_sel(1) subsetD)
  then show ?thesis
    using False by (auto simp: lfu_victim_def)
qed (simp add: lfu_victim_def)

interpretation lfu: eviction_policy lfu_on_write lfu_on_read lfu_on_delete
  lfu_get_random_sample_key lfu_pop_victim lfu_ok "\<lambda>s. set (lfu_sample_keys s)"
proof
  fix s k
  assume "lfu_ok s"
  then obtain rs where rs: "lfu_order s rs"
    by (auto simp: lfu_ok_def)
  show "\<exists>s'. lfu_on_write k s = Some s' \<and> lfu_ok s' \<and>
      set (lfu_sample_keys s') = insert k (set (lfu_sample_keys s))"
    using lfu_on_write_spec [OF rs, of k] lfu_order_ok [OF rs]
    by (auto simp: lfu_write_keys dest!: lfu_order_ok)
  show "\<exists>s'. lfu_on_read k s = Some s' \<and> lfu_ok s' \<and> set (lfu_sample_keys s') = set (lfu_sample_keys s)"
    using lfu_on_read_spec [OF rs, of k] by (auto simp: lfu_ok_def)
  show "\<exists>s'. lfu_on_delete k s = Some s' \<and> lfu_ok s' \<and>
      set (lfu_sample_keys s') = set (lfu_sample_keys s) - {k}"
  proof -
    obtain s' where "lfu_on_delete k s = Some s'" "lfu_order s' (lfu_remove k rs)"
      using lfu_on_delete_spec [OF rs] by blast
    moreover have "fst ` set (lfu_remove k rs) = fst ` set rs - {k}"
      by auto
    ultimately show ?thesis
      using lfu_order_ok lfu_order_ok [OF rs] by metis
  qed
  show "\<exists>s' v. lfu_pop_victim s = Some (s', v) \<and> lfu_ok s' \<and>
      set (lfu_sample_keys s') = set (lfu_sample_keys s) \<and>
      (v = None \<longleftrightarrow> set (lfu_sample_keys s) = {}) \<and> (\<forall>k. v = Some k \<longrightarrow> k \<in> set (lfu_sample_keys s))"
    using lfu_pop_victim_spec [OF rs] lfu_order_ok [OF rs] lfu_victim_props [of rs]
    by (auto simp: lfu_ok_def)
  show "(lfu_get_random_sample_key g s = None \<longleftrightarrow> set (lfu_sample_keys s) = {}) \<and>
      (\<forall>k. lfu_get_random_sample_key g s = Some k \<longrightarrow> k \<in> set (lfu_sample_keys s))" if "range_ok g" for g
    using sample_key_spec [OF that] by (simp add: lfu_get_random_sample_key_def)
qed

interpretation strategy: eviction_policy strategy_on_write strategy_on_read strategy_on_delete
  strategy_get_random_sample_key strategy_pop_victim strategy_ok strategy_keys
proof
  fix s k
  assume ok: "strategy_ok s"
  show "\<exists>s'. strategy_on_write k s = Some s' \<and> strategy_ok s' \<and> strategy_keys s' = insert k (strategy_keys s)"
    using ok lru.write_law lfu.write_law by (cases s) (simp, fastforce)+
  show "\<exists>s'. strategy_on_read k s = Some s' \<and> strategy_ok s' \<and> strategy_keys s' = strategy_keys s"
    using ok lru.read_law lfu.read_law by (cases s) (simp, fastforce)+
  show "\<exists>s'. strategy_on_delete k s = Some s' \<and> strategy_ok s' \<and> strategy_keys s' = strategy_keys s - {k}"
    using ok lru.delete_law lfu.delete_law by (cases s) (simp, fastforce)+
  show "\<exists>s' v. strategy_pop_victim s = Some (s', v) \<and> strategy_ok s' \<and> strategy_keys s' = strategy_keys s \<and>
      (v = None \<longleftrightarrow> strategy_keys s = {}) \<and> (\<forall>k. v = Some k \<longrightarrow> k \<in> strategy_keys s)"
    using ok lru.victim_law lfu.victim_law by (cases s) (simp, fastforce)+
  show "(strategy_get_random_sample_key g s = None \<longleftrightarrow> strategy_keys s = {}) \<and>
      (\<forall>k. strategy_get_random_sample_key g s = Some k \<longrightarrow> k \<in> strategy_keys s)" if "range_ok g" for g
    using ok lru.sample_law lfu.sample_law that by (cases s) auto
qed

section \<open>Properties\<close>

fun lru_spec :: "policy_op \<Rightarrow> key list \<Rightarrow> key list" where
  "lru_spec (OnWrite k) ks = lru_touch k ks"
| "lru_spec (OnRead k) ks = (if k \<in> set ks then lru_touch k ks else ks)"
| "lru_spec (OnDelete k) ks = lru_remove k ks"

fun lfu_spec :: "policy_op \<Rightarrow> (key \<times> nat) list \<Rightarrow> (key \<times> nat) list" where
  "lfu_spec (OnWrite k) rs = lfu_write k rs"
| "lfu_spec (OnRead k) rs = lfu_access k rs"
| "lfu_spec (OnDelete k) rs = lfu_remove k rs"

lemma lru_run:
  "lru_order n ks \<Longrightarrow> \<exists>n'. ofold strategy_step ops (Lru n) = Some (Lru n') \<and> lru_order n' (fold lru_spec ops ks)"
proof (induction ops arbitrary: n ks)
  case (Cons x ops)
  have "\<exists>n'. strategy_step x (Lru n) = Some (Lru n') \<and> lru_order n' (lru_spec x ks)"
    using lru_on_write_spec [OF Cons.prems] lru_on_read_spec [OF Cons.prems]
      lru_on_delete_spec [OF Cons.prems]
    by (cases x) (fastforce simp: strategy_step_def policy_step_def)+
  then show ?case
    using Cons.IH by auto
qed auto

lemma lfu_run:
  "lfu_order n rs \<Longrightarrow> \<exists>n'. ofold strategy_step ops (Lfu n) = Some (Lfu n') \<and> lfu_order n' (fold lfu_spec ops rs)"
proof (induction ops arbitrary: n rs)
  case (Cons x ops)
  have "\<exists>n'. strategy_step x (Lfu n) = Some (Lfu n') \<and> lfu_order n' (lfu_spec x rs)"
    using lfu_on_write_spec [OF Cons.prems] lfu_on_read_spec [OF Cons.prems]
      lfu_on_delete_spec [OF Cons.prems]
    by (cases x) (fastforce simp: strategy_step_def policy_step_def)+
  then show ?case
    using Cons.IH by auto
qed auto

text \<open>Property C13: whatever calls are made on a fresh LRU policy, in whatever order, no
  call dereferences a freed or unallocated node, indexes out of range or panics, and the victim
  is the key whose last write or read lies furthest back, \<open>None\<close> exactly when nothing is
  tracked.\<close>

theorem lru_victim_is_least_recent:
  "\<exists>n. ofold strategy_step ops (Lru LruNode_new) = Some (Lru n) \<and>
     strategy_pop_victim (Lru n) =
       Some (Lru n, case fold lru_spec ops [] of [] \<Rightarrow> None | k # _ \<Rightarrow> Some k)"
  using lru_run [OF lru_order_new, of ops] lru_pop_victim_spec by fastforce

text \<open>Property C12: the same for a fresh LFU policy: every sequence of calls succeeds, and the
  victim is, among the tracked keys of least access count (counts are capped at 255), the one
  whose last access lies furthest back.\<close>

theorem lfu_victim_is_least_frequent:
  "\<exists>n n'. ofold strategy_step ops (Lfu LfuNode_new) = Some (Lfu n) \<and>
     strategy_pop_victim (Lfu n) = Some (Lfu n', lfu_victim (fold lfu_spec ops []))"
  using lfu_run [OF lfu_order_new, of ops] lfu_pop_victim_spec by fastforce

text \<open>Property C32: the list of an LRU policy owns exactly its allocated nodes: when it is
  dropped after any sequence of calls, every node is freed once and no allocation is left.\<close>

theorem lru_drop_frees_all:
  "\<exists>n h l. ofold strategy_step ops (Lru LruNode_new) = Some (Lru n) \<and>
     drop_list (Suc (length (fold lru_spec ops []))) (lru_heap n) (lru_list n) = Some (h, l) \<and>
     cells h = Map.empty"
proof -
  let ?ks = "fold lru_spec ops []"
  obtain n xs where n: "ofold strategy_step ops (Lru LruNode_new) = Some (Lru n)"
    "lru_rep n xs" "map snd xs = ?ks"
    using lru_run [OF lru_order_new, of ops] by (auto simp: lru_order_def)
  have len: "length xs < Suc (length ?ks)"
    using n(3) by (metis length_map lessI)
  obtain h l where "drop_list (Suc (length ?ks)) (lru_heap n) (lru_list n) = Some (h, l)"
    "dom (cells h) = dom (cells (lru_heap n)) - ptrs xs"
    using drop_list_spec [OF _ len] n(2) by (meson lru_rep_def)
  then show ?thesis
    using n by (auto simp: lru_rep_def)
qed

text \<open>Property C26: for either policy, after any sequence of calls the tracked keys are exactly
  those written and not deleted since, and random sampling and victim selection return a
  tracked key whenever there is one.\<close>

theorem strategy_tracks_keys:
  assumes "s0 = Lru LruNode_new \<or> s0 = Lfu LfuNode_new" and "range_ok g"
  shows "\<exists>s. ofold strategy_step ops s0 = Some s \<and> strategy_keys s = fold track_op ops {} \<and>
    (strategy_get_random_sample_key g s = None \<longleftrightarrow> strategy_keys s = {}) \<and>
    (\<forall>k. strategy_get_random_sample_key g s = Some k \<longrightarrow> k \<in> strategy_keys s) \<and>
    (\<exists>s' v. strategy_pop_victim s = Some (s', v) \<and> (v = None \<longleftrightarrow> strategy_keys s = {}) \<and>
      (\<forall>k. v = Some k \<longrightarrow> k \<in> strategy_keys s))"
proof -
  have ok: "strategy_ok s0" "strategy_keys s0 = {}"
    using assms(1) lru_order_new lfu_order_new
    by (auto simp: lru_ok_def lfu_ok_def LruNode_new_def LfuNode_new_def)
  obtain s where s: "ofold strategy_step ops s0 = Some s" "strategy_ok s"
    "strategy_keys s = fold track_op ops {}"
    using strategy.run_law [OF ok(1), of ops] ok(2) by (auto simp: strategy_step_def)
  then show ?thesis
    using strategy.sample_law [OF s(2) assms(2)] strategy.victim_law [OF s(2)] by fastforce
qed

theorem strategy_tracks_keys_witness:
  "\<exists>s. ofold strategy_step [OnWrite ''a'', OnWrite ''b'', OnRead ''a'', OnDelete ''b''] (Lfu LfuNode_new)
      = Some s \<and> strategy_keys s = {''a''}"
proof -
  have "range_ok (\<lambda>_. 0)"
    by (simp add: range_ok_def)
  then show ?thesis
    using strategy_tracks_keys [of "Lfu LfuNode_new" "\<lambda>_. 0"
      "[OnWrite ''a'', OnWrite ''b'', OnRead ''a'', OnDelete ''b'']"] by auto
qed

end
