(* ===== verification/Cache_Store.thy ===== *)
theory Cache_Store
  imports Types Strategy
begin

text \<open>
  One shard of the store, \<^verbatim>\<open>src/src/db/eviction/cache_store.rs\<close>: the hash map of entries, the
  memory account of the shard, the eviction policy, and the process-wide counter
  \<^verbatim>\<open>GLOBAL_MEMORY\<close>. The operations take and return the pair of the global counter and the
  shard; the counters are machine words and wrap.

  \<open>node_ok\<close> is the invariant every operation keeps: the policy tracks exactly the stored
  keys and the account of the shard is the sum of the recorded sizes of its entries. The
  global counter moves by the same amount as the account of the shard.
\<close>

record 'j MemoryCacheNode =
  db_store :: "key \<rightharpoonup> 'j ValueEntry"
  approx_memory :: usize
  evicition :: EvictionStrategy

datatype EvictionType = LRU | LFU

type_synonym 'j shard = "usize \<times> 'j MemoryCacheNode"

section \<open>Operations\<close>

definition MemoryCacheNode_new :: "EvictionType \<Rightarrow> 'j MemoryCacheNode" where
  "MemoryCacheNode_new ty =
     \<lparr>db_store = Map.empty, approx_memory = 0,
      evicition = (case ty of LRU \<Rightarrow> Lru LruNode_new | LFU \<Rightarrow> Lfu LfuNode_new)\<rparr>"

definition size_before :: "'j MemoryCacheNode \<Rightarrow> key \<Rightarrow> usize" where
  "size_before n k = (case db_store n k of Some e \<Rightarrow> data_size e | None \<Rightarrow> 0)"

definition insert_entry :: "key \<Rightarrow> 'j ValueEntry \<Rightarrow> 'j shard \<Rightarrow> 'j shard option" where
  "insert_entry k v s =
     (case s of (g, n) \<Rightarrow>
        do { ev \<leftarrow> strategy_on_write k (evicition n);
             (let memory_differ = data_size v - size_before n k;
                  n1 = n\<lparr>evicition := ev, db_store := (db_store n)(k \<mapsto> v)\<rparr>
              in if sint memory_differ > 0 then
                   Some (g + memory_differ, n1\<lparr>approx_memory := approx_memory n1 + memory_differ\<rparr>)
                 else if sint memory_differ < 0 then
                   Some (g - (- memory_differ), n1\<lparr>approx_memory := approx_memory n1 - (- memory_differ)\<rparr>)
                 else Some (g, n1)) })"

definition remove_entry :: "key \<Rightarrow> 'j shard \<Rightarrow> ('j shard \<times> 'j ValueEntry option) option" where
  "remove_entry k s =
     (case s of (g, n) \<Rightarrow>
        (case db_store n k of
           Some v \<Rightarrow>
             do { ev \<leftarrow> strategy_on_delete k (evicition n);
                  Some ((g - data_size v,
                         n\<lparr>db_store := (db_store n)(k := None), evicition := ev,
                           approx_memory := approx_memory n - data_size v\<rparr>), Some v) }
         | None \<Rightarrow> Some (s, None)))"

definition get_entry :: "key \<Rightarrow> 'j shard \<Rightarrow> ('j shard \<times> 'j ValueEntry option) option" where
  "get_entry k s =
     (case s of (g, n) \<Rightarrow>
        (case db_store n k of
           Some v \<Rightarrow>
             do { ev \<leftarrow> strategy_on_read k (evicition n);
                  Some ((g, n\<lparr>evicition := ev\<rparr>), Some v) }
         | None \<Rightarrow> Some (s, None)))"

definition peek_entry :: "key \<Rightarrow> 'j MemoryCacheNode \<Rightarrow> 'j ValueEntry option" where
  "peek_entry k n = db_store n k"

section \<open>Invariant\<close>

definition stored_size :: "(key \<rightharpoonup> 'j ValueEntry) \<Rightarrow> usize" where
  "stored_size m = (\<Sum>k \<in> dom m. data_size (the (m k)))"

definition node_ok :: "'j MemoryCacheNode \<Rightarrow> bool" where
  "node_ok n \<longleftrightarrow>
     finite (dom (db_store n)) \<and> strategy_ok (evicition n) \<and>
     strategy_keys (evicition n) = dom (db_store n) \<and>
     approx_memory n = stored_size (db_store n)"

lemma strategy_keys_finite: "finite (strategy_keys s)"
  by (cases s) auto

lemma stored_size_simps [simp]:
  "stored_size Map.empty = 0"
  by (simp add: stored_size_def)

lemma stored_size_upd:
  assumes "finite (dom m)"
  shows "stored_size (m(k \<mapsto> v)) = stored_size m + (data_size v - (case m k of Some e \<Rightarrow> data_size e | None \<Rightarrow> 0))"
proof -
  have sum: "(\<Sum>x \<in> dom m - {k}. data_size (the ((m(k \<mapsto> v)) x))) = (\<Sum>x \<in> dom m - {k}. data_size (the (m x)))"
    by (intro sum.cong) auto
  have "stored_size (m(k \<mapsto> v)) = data_size v + (\<Sum>x \<in> dom m - {k}. data_size (the (m x)))"
    using assms sum.insert_remove [of "dom m" "\<lambda>x. data_size (the ((m(k \<mapsto> v)) x))" k]
    by (simp add: stored_size_def sum)
  moreover have "stored_size m =
      (case m k of Some e \<Rightarrow> data_size e | None \<Rightarrow> 0) + (\<Sum>x \<in> dom m - {k}. data_size (the (m x)))"
    using assms sum.remove [of "dom m" k "\<lambda>x. data_size (the (m x))"]
    by (cases "m k") (auto simp: stored_size_def domIff)
  ultimately show ?thesis
    by (simp add: algebra_simps)
qed

lemma stored_size_del:
  assumes "finite (dom m)" and "m k = Some e"
  shows "stored_size (m(k := None)) = stored_size m - data_size e"
proof -
  have "(\<Sum>x \<in> dom m - {k}. data_size (the ((m(k := None)) x))) = (\<Sum>x \<in> dom m - {k}. data_size (the (m x)))"
    by (intro sum.cong) auto
  then show ?thesis
    using assms sum.remove [of "dom m" k "\<lambda>x. data_size (the (m x))"]
    by (auto simp: stored_size_def domI)
qed

section \<open>Laws\<close>

lemma node_ok_new: "node_ok (MemoryCacheNode_new ty)"
  using lru_order_new lfu_order_new
  by (cases ty) (auto simp: node_ok_def MemoryCacheNode_new_def lru_ok_def lfu_ok_def
      LruNode_new_def LfuNode_new_def)

text \<open>Whatever the sign test of the source decides, the counters move by the wrapped difference.\<close>

lemma insert_entry_eq:
  "insert_entry k v (g, n) =
     map_option (\<lambda>ev. (g + (data_size v - size_before n k),
       n\<lparr>evicition := ev, db_store := (db_store n)(k \<mapsto> v),
         approx_memory := approx_memory n + (data_size v - size_before n k)\<rparr>))
     (strategy_on_write k (evicition n))"
proof -
  have "sint (d :: usize) = 0 \<longleftrightarrow> d = 0" for d
    by (metis signed_0 signed_eq_0_iff)
  then have zero: "d = 0" if "\<not> sint d > 0" "\<not> sint d < 0" for d :: usize
    using that by force
  define d where "d = data_size v - size_before n k"
  have "insert_entry k v (g, n) =
      map_option (\<lambda>ev. (g + d, n\<lparr>evicition := ev, db_store := (db_store n)(k \<mapsto> v),
        approx_memory := approx_memory n + d\<rparr>)) (strategy_on_write k (evicition n))"
    using zero [of d]
    by (cases "strategy_on_write k (evicition n)") (auto simp: insert_entry_def Let_def d_def [symmetric])
  then show ?thesis
    by (simp add: d_def)
qed

lemma insert_entry_spec:
  assumes "node_ok n"
  shows "\<exists>n'. insert_entry k v (g, n) = Some (g + (approx_memory n' - approx_memory n), n') \<and>
    node_ok n' \<and> db_store n' = (db_store n)(k \<mapsto> v)"
proof -
  obtain ev where ev: "strategy_on_write k (evicition n) = Some ev" "strategy_ok ev"
    "strategy_keys ev = insert k (strategy_keys (evicition n))"
    using strategy.write_law [of "evicition n" k] assms by (auto simp: node_ok_def)
  then show ?thesis
    using assms stored_size_upd [of "db_store n" k v]
    by (auto simp: insert_entry_eq node_ok_def size_before_def)
qed

lemma remove_entry_spec:
  assumes "node_ok n"
  shows "\<exists>n'. remove_entry k (g, n) = Some ((g + (approx_memory n' - approx_memory n), n'), db_store n k) \<and>
    node_ok n' \<and> db_store n' = (db_store n)(k := None)"
proof (cases "db_store n k")
  case None
  then show ?thesis
    using assms by (auto simp: remove_entry_def fun_upd_idem)
next
  case (Some v)
  obtain ev where ev: "strategy_on_delete k (evicition n) = Some ev" "strategy_ok ev"
    "strategy_keys ev = strategy_keys (evicition n) - {k}"
    using strategy.delete_law [of "evicition n" k] assms by (auto simp: node_ok_def)
  then show ?thesis
    using assms Some stored_size_del [of "db_store n" k v]
    by (auto simp: remove_entry_def node_ok_def)
qed

lemma get_entry_spec:
  assumes "node_ok n"
  shows "\<exists>n'. get_entry k (g, n) = Some ((g, n'), db_store n k) \<and>
    node_ok n' \<and> db_store n' = db_store n \<and> approx_memory n' = approx_memory n"
proof (cases "db_store n k")
  case None
  then show ?thesis
    using assms by (auto simp: get_entry_def)
next
  case (Some v)
  obtain ev where ev: "strategy_on_read k (evicition n) = Some ev" "strategy_ok ev"
    "strategy_keys ev = strategy_keys (evicition n)"
    using strategy.read_law [of "evicition n" k] assms by (auto simp: node_ok_def)
  then show ?thesis
    using assms Some by (auto simp: get_entry_def node_ok_def)
qed

end
