(* ===== verification/Locked_Db.thy ===== *)
theory Locked_Db
  imports Cache_Store
begin

text \<open>
  The views of a locked shard that commands work through: \<^verbatim>\<open>DirectCacheNode\<close>
  (\<^verbatim>\<open>src/src/db/eviction/direct_node.rs\<close>), the buffering \<^verbatim>\<open>LuaCacheNode\<close>
  (\<^verbatim>\<open>src/src/db/eviction/lua_node.rs\<close>) and their sum \<^verbatim>\<open>LockedDb\<close> (\<^verbatim>\<open>src/src/db/mod.rs\<close>).

  The trait \<^verbatim>\<open>KvOperator\<close> (\<^verbatim>\<open>src/src/db/eviction/traits.rs\<close>) is the locale \<open>kv_operator\<close>. Two
  readings of the contents matter: \<open>tk\<close>, what \<^verbatim>\<open>take\<close> hands out, and \<open>seen\<close>, what
  \<^verbatim>\<open>select\<close> shows; they differ in the expired entries of a directly locked shard, which
  \<^verbatim>\<open>take\<close> still returns. \<open>frame\<close> relates the states before and after to say what no operation
  may touch: the part of the global memory counter that belongs to the other shards, the mode
  of the lock and, for a script, the entries of the shard under its buffer, of which a lookup
  may at most drop expired ones.
\<close>

section \<open>The trait\<close>

definition seen_of :: "(key \<rightharpoonup> 'v) \<Rightarrow> ('v \<Rightarrow> bool) \<Rightarrow> key \<rightharpoonup> 'v" where
  "seen_of m vis = (\<lambda>k. case m k of None \<Rightarrow> None | Some v \<Rightarrow> if vis v then Some v else None)"

datatype 'v kv_op = KInsert key 'v | KSelect key | KTake key | KDelete key

definition kv_step ::
  "(key \<Rightarrow> 'v \<Rightarrow> 's \<Rightarrow> 's option) \<Rightarrow> (key \<Rightarrow> 's \<Rightarrow> ('s \<times> 'v option) option) \<Rightarrow>
   (key \<Rightarrow> 's \<Rightarrow> ('s \<times> 'v option) option) \<Rightarrow> (key \<Rightarrow> 's \<Rightarrow> 's option) \<Rightarrow> 'v kv_op \<Rightarrow> 's \<Rightarrow> 's option" where
  "kv_step ins sel tak del x s =
     (case x of
        KInsert k v \<Rightarrow> ins k v s
      | KSelect k \<Rightarrow> map_option fst (sel k s)
      | KTake k \<Rightarrow> map_option fst (tak k s)
      | KDelete k \<Rightarrow> del k s)"

fun kv_spec :: "('v \<Rightarrow> bool) \<Rightarrow> 'v kv_op \<Rightarrow> (key \<rightharpoonup> 'v) \<Rightarrow> (key \<rightharpoonup> 'v)" where
  "kv_spec vis (KInsert k v) m = m(k := (if vis v then Some v else None))"
| "kv_spec vis (KSelect k) m = m"
| "kv_spec vis (KTake k) m = m(k := None)"
| "kv_spec vis (KDelete k) m = m(k := None)"

lemma seen_of_upd:
  "seen_of (m(k \<mapsto> v)) vis = (seen_of m vis)(k := (if vis v then Some v else None))"
  "seen_of (m(k := None)) vis = (seen_of m vis)(k := None)"
  by (auto simp: seen_of_def fun_eq_iff)

lemma seen_of_idem [simp]: "seen_of (m(k := seen_of m vis k)) vis = seen_of m vis"
  by (auto simp: seen_of_def fun_eq_iff split: option.splits)

locale kv_operator =
  fixes insert :: "key \<Rightarrow> 'v \<Rightarrow> 's \<Rightarrow> 's option"
    and select take :: "key \<Rightarrow> 's \<Rightarrow> ('s \<times> 'v option) option"
    and delete :: "key \<Rightarrow> 's \<Rightarrow> 's option"
    and inv :: "'s \<Rightarrow> bool"
    and tk :: "'s \<Rightarrow> key \<rightharpoonup> 'v"
    and vis :: "'s \<Rightarrow> 'v \<Rightarrow> bool"
    and frame :: "'s \<Rightarrow> 's \<Rightarrow> bool"
  assumes frame_refl: "frame s s"
    and frame_trans: "frame s1 s2 \<Longrightarrow> frame s2 s3 \<Longrightarrow> frame s1 s3"
    and insert_law: "inv s \<Longrightarrow> \<exists>s'. insert k v s = Some s' \<and> inv s' \<and> tk s' = (tk s)(k \<mapsto> v) \<and>
      vis s' = vis s \<and> frame s s'"
    and select_law: "inv s \<Longrightarrow> \<exists>s'. select k s = Some (s', seen_of (tk s) (vis s) k) \<and> inv s' \<and>
      tk s' = (tk s)(k := seen_of (tk s) (vis s) k) \<and> vis s' = vis s \<and> frame s s'"
    and take_law: "inv s \<Longrightarrow> \<exists>s'. take k s = Some (s', tk s k) \<and> inv s' \<and> tk s' = (tk s)(k := None) \<and>
      vis s' = vis s \<and> frame s s'"
    and delete_law: "inv s \<Longrightarrow> \<exists>s'. delete k s = Some s' \<and> inv s' \<and> tk s' = (tk s)(k := None) \<and>
      vis s' = vis s \<and> frame s s'"
begin

lemma step_law:
  assumes "inv s"
  shows "\<exists>s'. kv_step insert select take delete x s = Some s' \<and> inv s' \<and> vis s' = vis s \<and> frame s s' \<and>
    seen_of (tk s') (vis s') = kv_spec (vis s) x (seen_of (tk s) (vis s))"
proof (cases x)
  case (KInsert k v)
  then show ?thesis
    using insert_law [OF assms, of k v] by (auto simp: kv_step_def seen_of_upd)
next
  case (KSelect k)
  then show ?thesis
    using select_law [OF assms, of k] by (auto simp: kv_step_def)
next
  case (KTake k)
  then show ?thesis
    using take_law [OF assms, of k] by (auto simp: kv_step_def seen_of_upd)
next
  case (KDelete k)
  then show ?thesis
    using delete_law [OF assms, of k] by (auto simp: kv_step_def seen_of_upd)
qed

lemma run_law:
  assumes "inv s"
  shows "\<exists>s'. ofold (kv_step insert select take delete) ops s = Some s' \<and> inv s' \<and> vis s' = vis s \<and>
    frame s s' \<and> seen_of (tk s') (vis s') = fold (kv_spec (vis s)) ops (seen_of (tk s) (vis s))"
  using assms
proof (induction ops arbitrary: s)
  case (Cons x ops)
  obtain s1 where s1: "kv_step insert select take delete x s = Some s1" "inv s1" "vis s1 = vis s"
    "frame s s1" "seen_of (tk s1) (vis s1) = kv_spec (vis s) x (seen_of (tk s) (vis s))"
    using step_law [OF Cons.prems] by blast
  then show ?case
    using Cons.IH [OF s1(2)] frame_trans [OF s1(4)] by auto
qed (simp add: frame_refl)

text \<open>The pattern of the executors that modify a container: take the entry out, put a new one in.\<close>

lemma take_insert:
  assumes "inv s"
  shows "\<exists>s1 s2. take k s = Some (s1, tk s k) \<and> insert k v s1 = Some s2 \<and> inv s2 \<and>
    tk s2 = (tk s)(k \<mapsto> v) \<and> vis s2 = vis s \<and> frame s s2"
proof -
  obtain s1 where 1: "take k s = Some (s1, tk s k)" "inv s1" "tk s1 = (tk s)(k := None)"
    "vis s1 = vis s" "frame s s1"
    using take_law [OF assms] by blast
  then show ?thesis
    using insert_law [OF 1(2), of k v] frame_trans [OF 1(5)] by auto
qed

text \<open>The pattern of a conditional write: look, then insert.\<close>

lemma select_insert:
  assumes "inv s"
  shows "\<exists>s1 s2. select k s = Some (s1, seen_of (tk s) (vis s) k) \<and> insert k v s1 = Some s2 \<and> inv s2 \<and>
    tk s2 = (tk s)(k \<mapsto> v) \<and> vis s2 = vis s \<and> frame s s2"
proof -
  obtain s1 where 1: "select k s = Some (s1, seen_of (tk s) (vis s) k)" "inv s1"
    "tk s1 = (tk s)(k := seen_of (tk s) (vis s) k)" "vis s1 = vis s" "frame s s1"
    using select_law [OF assms] by blast
  then show ?thesis
    using insert_law [OF 1(2), of k v] frame_trans [OF 1(5)] by auto
qed

text \<open>What was written is what is read, unless it is already expired.\<close>

lemma insert_select:
  assumes "inv s" and "vis s v"
  shows "\<exists>s1 s2. insert k v s = Some s1 \<and> select k s1 = Some (s2, Some v)"
proof -
  obtain s1 where "insert k v s = Some s1" "inv s1" "tk s1 = (tk s)(k \<mapsto> v)" "vis s1 = vis s"
    using insert_law [OF assms(1)] by blast
  then show ?thesis
    using select_law [of s1 k] assms(2) by (auto simp: seen_of_def)
qed

end

section \<open>DirectCacheNode\<close>

datatype 'j DirectCacheNode = Writeguard "'j shard" | Readguard "'j shard"

fun direct_insert :: "key \<Rightarrow> 'j ValueEntry \<Rightarrow> 'j DirectCacheNode \<Rightarrow> 'j DirectCacheNode option" where
  "direct_insert k v (Writeguard s) = map_option Writeguard (insert_entry k v s)"
| "direct_insert k v (Readguard s) = Some (Readguard s)"

fun direct_delete :: "key \<Rightarrow> 'j DirectCacheNode \<Rightarrow> 'j DirectCacheNode option" where
  "direct_delete k (Writeguard s) = map_option (\<lambda>(s', _). Writeguard s') (remove_entry k s)"
| "direct_delete k (Readguard s) = Some (Readguard s)"

fun direct_take ::
  "key \<Rightarrow> 'j DirectCacheNode \<Rightarrow> ('j DirectCacheNode \<times> 'j ValueEntry option) option" where
  "direct_take k (Writeguard s) = map_option (\<lambda>(s', v). (Writeguard s', v)) (remove_entry k s)"
| "direct_take k (Readguard s) = Some (Readguard s, None)"

fun direct_select ::
  "rt \<Rightarrow> key \<Rightarrow> 'j DirectCacheNode \<Rightarrow> ('j DirectCacheNode \<times> 'j ValueEntry option) option" where
  "direct_select r k (Writeguard s) =
     (case peek_entry k (snd s) of
        None \<Rightarrow> Some (Writeguard s, None)
      | Some v \<Rightarrow>
          if expired r v then map_option (\<lambda>(s', _). (Writeguard s', None)) (remove_entry k s)
          else map_option (\<lambda>(s', w). (Writeguard s', w)) (get_entry k s))"
| "direct_select r k (Readguard s) =
     (case peek_entry k (snd s) of
        None \<Rightarrow> Some (Readguard s, None)
      | Some v \<Rightarrow>
          if expired r v then Some (Readguard s, None)
          else
            do { ev \<leftarrow> strategy_on_read k (evicition (snd s));
                 Some (Readguard (fst s, (snd s)\<lparr>evicition := ev\<rparr>), Some v) })"

fun guarded :: "'j DirectCacheNode \<Rightarrow> 'j shard" where
  "guarded (Writeguard s) = s"
| "guarded (Readguard s) = s"

definition direct_get_memory_usage :: "'j DirectCacheNode \<Rightarrow> usize" where
  "direct_get_memory_usage d = approx_memory (snd (guarded d))"

fun direct_get_eviction_policy :: "'j DirectCacheNode \<Rightarrow> EvictionStrategy option" where
  "direct_get_eviction_policy (Writeguard s) = Some (evicition (snd s))"
| "direct_get_eviction_policy (Readguard s) = None"

definition add_memory_shard :: "usize \<Rightarrow> 'j shard \<Rightarrow> 'j shard" where
  "add_memory_shard d s = (fst s + d, (snd s)\<lparr>approx_memory := approx_memory (snd s) + d\<rparr>)"

definition sub_memory_shard :: "usize \<Rightarrow> 'j shard \<Rightarrow> 'j shard" where
  "sub_memory_shard d s = (fst s - d, (snd s)\<lparr>approx_memory := approx_memory (snd s) - d\<rparr>)"

fun direct_add_memory :: "usize \<Rightarrow> 'j DirectCacheNode \<Rightarrow> 'j DirectCacheNode" where
  "direct_add_memory d (Writeguard s) = Writeguard (add_memory_shard d s)"
| "direct_add_memory d (Readguard s) = Readguard (add_memory_shard d s)"

fun direct_sub_memory :: "usize \<Rightarrow> 'j DirectCacheNode \<Rightarrow> 'j DirectCacheNode" where
  "direct_sub_memory d (Writeguard s) = Writeguard (sub_memory_shard d s)"
| "direct_sub_memory d (Readguard s) = Readguard (sub_memory_shard d s)"

section \<open>LuaCacheNode\<close>

datatype 'j ChangeOp = Update "'j ValueEntry" | Delete

record 'j LuaCacheNode =
  lua_db :: "'j DirectCacheNode"
  differ_map :: "key \<rightharpoonup> 'j ChangeOp"
  local_memory_diff :: usize

definition LuaCacheNode_new :: "'j DirectCacheNode \<Rightarrow> 'j LuaCacheNode" where
  "LuaCacheNode_new d = \<lparr>lua_db = d, differ_map = Map.empty, local_memory_diff = 0\<rparr>"

definition lua_select ::
  "rt \<Rightarrow> key \<Rightarrow> 'j LuaCacheNode \<Rightarrow> ('j LuaCacheNode \<times> 'j ValueEntry option) option" where
  "lua_select r k s =
     (case differ_map s k of
        Some (Update e) \<Rightarrow> Some (s, Some e)
      | Some Delete \<Rightarrow> Some (s, None)
      | None \<Rightarrow> map_option (\<lambda>(d, v). (s\<lparr>lua_db := d\<rparr>, v)) (direct_select r k (lua_db s)))"

definition entry_size :: "'j ValueEntry option \<Rightarrow> usize" where
  "entry_size v = (case v of Some e \<Rightarrow> data_size e | None \<Rightarrow> 0)"

definition lua_insert ::
  "rt \<Rightarrow> key \<Rightarrow> 'j ValueEntry \<Rightarrow> 'j LuaCacheNode \<Rightarrow> 'j LuaCacheNode option" where
  "lua_insert r k v s =
     do { (s1, old) \<leftarrow> lua_select r k s;
          Some (s1\<lparr>differ_map := (differ_map s1)(k \<mapsto> Update v),
                   local_memory_diff := local_memory_diff s1 + (data_size v - entry_size old)\<rparr>) }"

definition lua_take ::
  "rt \<Rightarrow> key \<Rightarrow> 'j LuaCacheNode \<Rightarrow> ('j LuaCacheNode \<times> 'j ValueEntry option) option" where
  "lua_take r k s =
     (case differ_map s k of
        Some (Update e) \<Rightarrow>
          Some (s\<lparr>local_memory_diff := local_memory_diff s - data_size e,
                  differ_map := (differ_map s)(k \<mapsto> Delete)\<rparr>, Some e)
      | Some Delete \<Rightarrow> Some (s\<lparr>differ_map := (differ_map s)(k \<mapsto> Delete)\<rparr>, None)
      | None \<Rightarrow>
          do { (d, v) \<leftarrow> direct_select r k (lua_db s);
               (case v of
                  Some e \<Rightarrow>
                    Some (s\<lparr>lua_db := d, differ_map := (differ_map s)(k \<mapsto> Delete),
                            local_memory_diff := local_memory_diff s - data_size e\<rparr>, Some e)
                | None \<Rightarrow> Some (s\<lparr>lua_db := d\<rparr>, None)) })"

definition lua_delete :: "rt \<Rightarrow> key \<Rightarrow> 'j LuaCacheNode \<Rightarrow> 'j LuaCacheNode option" where
  "lua_delete r k s =
     do { (s1, old) \<leftarrow> lua_select r k s;
          Some (s1\<lparr>differ_map := (differ_map s1)(k \<mapsto> Delete),
                   local_memory_diff := local_memory_diff s1 - entry_size old\<rparr>) }"

text \<open>\<^verbatim>\<open>drain\<close> visits the entries in the order of the hash map, which is unspecified: the list of
  keys in that order is a parameter.\<close>

definition apply_change :: "'j ChangeOp \<Rightarrow> key \<Rightarrow> 'j DirectCacheNode \<Rightarrow> 'j DirectCacheNode option" where
  "apply_change c k d = (case c of Update e \<Rightarrow> direct_insert k e d | Delete \<Rightarrow> direct_delete k d)"

definition lua_commit :: "key list \<Rightarrow> 'j LuaCacheNode \<Rightarrow> 'j LuaCacheNode option" where
  "lua_commit order s =
     do { d \<leftarrow> ofold (\<lambda>k d. case differ_map s k of None \<Rightarrow> Some d | Some c \<Rightarrow> apply_change c k d)
                order (lua_db s);
          Some (s\<lparr>lua_db := d, differ_map := Map.empty\<rparr>) }"

definition drain_order :: "key list \<Rightarrow> 'j LuaCacheNode \<Rightarrow> bool" where
  "drain_order order s \<longleftrightarrow> distinct order \<and> set order = dom (differ_map s)"

section \<open>LockedDb\<close>

datatype 'j LockedDb =
    WriteNormal "'j DirectCacheNode"
  | WriteLua "'j LuaCacheNode"
  | ReadNormal "'j DirectCacheNode"
  | ReadLua "'j LuaCacheNode"

fun locked_insert :: "rt \<Rightarrow> key \<Rightarrow> 'j ValueEntry \<Rightarrow> 'j LockedDb \<Rightarrow> 'j LockedDb option" where
  "locked_insert r k v (WriteNormal d) = map_option WriteNormal (direct_insert k v d)"
| "locked_insert r k v (WriteLua s) = map_option WriteLua (lua_insert r k v s)"
| "locked_insert r k v _ = None"

fun locked_select :: "rt \<Rightarrow> key \<Rightarrow> 'j LockedDb \<Rightarrow> ('j LockedDb \<times> 'j ValueEntry option) option" where
  "locked_select r k (WriteNormal d) = map_option (\<lambda>(d', v). (WriteNormal d', v)) (direct_select r k d)"
| "locked_select r k (WriteLua s) = map_option (\<lambda>(s', v). (WriteLua s', v)) (lua_select r k s)"
| "locked_select r k (ReadNormal d) = map_option (\<lambda>(d', v). (ReadNormal d', v)) (direct_select r k d)"
| "locked_select r k (ReadLua s) = map_option (\<lambda>(s', v). (ReadLua s', v)) (lua_select r k s)"

fun locked_take :: "rt \<Rightarrow> key \<Rightarrow> 'j LockedDb \<Rightarrow> ('j LockedDb \<times> 'j ValueEntry option) option" where
  "locked_take r k (WriteNormal d) = map_option (\<lambda>(d', v). (WriteNormal d', v)) (direct_take k d)"
| "locked_take r k (WriteLua s) = map_option (\<lambda>(s', v). (WriteLua s', v)) (lua_take r k s)"
| "locked_take r k _ = None"

fun locked_delete :: "rt \<Rightarrow> key \<Rightarrow> 'j LockedDb \<Rightarrow> 'j LockedDb option" where
  "locked_delete r k (WriteNormal d) = map_option WriteNormal (direct_delete k d)"
| "locked_delete r k (WriteLua s) = map_option WriteLua (lua_delete r k s)"
| "locked_delete r k _ = None"

fun locked_commit :: "key list \<Rightarrow> 'j LockedDb \<Rightarrow> 'j LockedDb option" where
  "locked_commit order (WriteLua s) = map_option WriteLua (lua_commit order s)"
| "locked_commit order l = Some l"

fun locked_direct :: "'j LockedDb \<Rightarrow> 'j DirectCacheNode" where
  "locked_direct (WriteNormal d) = d"
| "locked_direct (WriteLua s) = lua_db s"
| "locked_direct (ReadNormal d) = d"
| "locked_direct (ReadLua s) = lua_db s"

definition locked_get_memory_usage :: "'j LockedDb \<Rightarrow> usize" where
  "locked_get_memory_usage l = direct_get_memory_usage (locked_direct l)"

definition locked_get_eviction_policy :: "'j LockedDb \<Rightarrow> EvictionStrategy option" where
  "locked_get_eviction_policy l = direct_get_eviction_policy (locked_direct l)"

fun locked_add_memory :: "usize \<Rightarrow> 'j LockedDb \<Rightarrow> 'j LockedDb" where
  "locked_add_memory n (WriteNormal d) = WriteNormal (direct_add_memory n d)"
| "locked_add_memory n (ReadNormal d) = ReadNormal (direct_add_memory n d)"
| "locked_add_memory n (WriteLua x) = WriteLua (x\<lparr>lua_db := direct_add_memory n (lua_db x)\<rparr>)"
| "locked_add_memory n (ReadLua x) = ReadLua (x\<lparr>lua_db := direct_add_memory n (lua_db x)\<rparr>)"

fun locked_sub_memory :: "usize \<Rightarrow> 'j LockedDb \<Rightarrow> 'j LockedDb" where
  "locked_sub_memory n (WriteNormal d) = WriteNormal (direct_sub_memory n d)"
| "locked_sub_memory n (ReadNormal d) = ReadNormal (direct_sub_memory n d)"
| "locked_sub_memory n (WriteLua x) = WriteLua (x\<lparr>lua_db := direct_sub_memory n (lua_db x)\<rparr>)"
| "locked_sub_memory n (ReadLua x) = ReadLua (x\<lparr>lua_db := direct_sub_memory n (lua_db x)\<rparr>)"

section \<open>Interpretations\<close>

definition unexpired :: "rt \<Rightarrow> 'j ValueEntry \<Rightarrow> bool" where
  "unexpired r e \<longleftrightarrow> \<not> expired r e"

fun direct_ok :: "'j DirectCacheNode \<Rightarrow> bool" where
  "direct_ok (Writeguard s) \<longleftrightarrow> node_ok (snd s)"
| "direct_ok (Readguard s) \<longleftrightarrow> False"

definition direct_tk :: "'j DirectCacheNode \<Rightarrow> key \<rightharpoonup> 'j ValueEntry" where
  "direct_tk d = db_store (snd (guarded d))"

definition direct_acct :: "'j DirectCacheNode \<Rightarrow> usize" where
  "direct_acct d = fst (guarded d) - approx_memory (snd (guarded d))"

lemma direct_okE:
  assumes "direct_ok d"
  obtains g n where "d = Writeguard (g, n)" "node_ok n"
  using assms by (cases d) auto

lemmas direct_view_defs = direct_tk_def direct_acct_def seen_of_def unexpired_def

interpretation direct: kv_operator direct_insert "direct_select r" direct_take direct_delete
  direct_ok direct_tk "\<lambda>_. unexpired r" "\<lambda>s s'. direct_acct s' = direct_acct s" for r
proof
  show "direct_acct s = direct_acct s" for s :: "'j DirectCacheNode"
    by (rule refl)
  show "direct_acct s2 = direct_acct s1 \<Longrightarrow> direct_acct s3 = direct_acct s2 \<Longrightarrow> direct_acct s3 = direct_acct s1"
    for s1 s2 s3 :: "'j DirectCacheNode"
    by simp
  fix s :: "'j DirectCacheNode" and k v
  assume "direct_ok s"
  then obtain g n where s: "s = Writeguard (g, n)" and ok: "node_ok n"
    by (rule direct_okE)
  show "\<exists>s'. direct_insert k v s = Some s' \<and> direct_ok s' \<and> direct_tk s' = (direct_tk s)(k \<mapsto> v) \<and>
      unexpired r = unexpired r \<and> direct_acct s' = direct_acct s"
    using insert_entry_spec [OF ok, of k v g] by (auto simp: s direct_view_defs)
  show "\<exists>s'. direct_take k s = Some (s', direct_tk s k) \<and> direct_ok s' \<and>
      direct_tk s' = (direct_tk s)(k := None) \<and> unexpired r = unexpired r \<and> direct_acct s' = direct_acct s"
    using remove_entry_spec [OF ok, of k g] by (auto simp: s direct_view_defs)
  show "\<exists>s'. direct_delete k s = Some s' \<and> direct_ok s' \<and>
      direct_tk s' = (direct_tk s)(k := None) \<and> unexpired r = unexpired r \<and> direct_acct s' = direct_acct s"
    using remove_entry_spec [OF ok, of k g] by (auto simp: s direct_view_defs)
  show "\<exists>s'. direct_select r k s = Some (s', seen_of (direct_tk s) (unexpired r) k) \<and> direct_ok s' \<and>
      direct_tk s' = (direct_tk s)(k := seen_of (direct_tk s) (unexpired r) k) \<and> unexpired r = unexpired r \<and>
      direct_acct s' = direct_acct s"
  proof (cases "db_store n k")
    case None
    then show ?thesis
      using ok by (auto simp: s peek_entry_def direct_view_defs)
  next
    case (Some e)
    then show ?thesis
      using remove_entry_spec [OF ok, of k g] get_entry_spec [OF ok, of k g]
      by (cases "expired r e") (auto simp: s peek_entry_def direct_view_defs fun_eq_iff split: option.splits)
  qed
qed

definition lua_ok :: "'j LuaCacheNode \<Rightarrow> bool" where
  "lua_ok s \<longleftrightarrow> direct_ok (lua_db s) \<and> finite (dom (differ_map s))"

definition lua_tk :: "rt \<Rightarrow> 'j LuaCacheNode \<Rightarrow> key \<rightharpoonup> 'j ValueEntry" where
  "lua_tk r s = (\<lambda>k.
     case differ_map s k of
       Some (Update e) \<Rightarrow> Some e
     | Some Delete \<Rightarrow> None
     | None \<Rightarrow> seen_of (direct_tk (lua_db s)) (unexpired r) k)"

definition lua_acct :: "'j LuaCacheNode \<Rightarrow> usize" where
  "lua_acct s = direct_acct (lua_db s)"

definition lua_frame :: "rt \<Rightarrow> 'j LuaCacheNode \<Rightarrow> 'j LuaCacheNode \<Rightarrow> bool" where
  "lua_frame r s s' \<longleftrightarrow> lua_acct s' = lua_acct s \<and> direct_tk (lua_db s') \<subseteq>\<^sub>m direct_tk (lua_db s) \<and>
     seen_of (direct_tk (lua_db s')) (unexpired r) = seen_of (direct_tk (lua_db s)) (unexpired r)"

lemma lua_frame_simps:
  "lua_frame r s s" "lua_frame r s1 s2 \<Longrightarrow> lua_frame r s2 s3 \<Longrightarrow> lua_frame r s1 s3"
  by (auto simp: lua_frame_def intro: map_le_trans)

lemma seen_upd_le: "m(k := seen_of m vis k) \<subseteq>\<^sub>m m"
  by (auto simp: map_le_def seen_of_def dom_def split: option.splits if_splits)

lemma direct_select_spec:
  assumes "direct_ok d"
  shows "\<exists>d'. direct_select r k d = Some (d', seen_of (direct_tk d) (unexpired r) k) \<and> direct_ok d' \<and>
    seen_of (direct_tk d') (unexpired r) = seen_of (direct_tk d) (unexpired r) \<and>
    direct_acct d' = direct_acct d \<and> direct_tk d' \<subseteq>\<^sub>m direct_tk d"
  using direct.select_law [OF assms, of r k] seen_of_idem seen_upd_le by metis

lemma seen_of_True [simp]: "seen_of m (\<lambda>_. True) = m"
  by (auto simp: seen_of_def fun_eq_iff split: option.splits)

lemma lua_select_spec:
  assumes "lua_ok s"
  shows "\<exists>d. lua_select r k s = Some (s\<lparr>lua_db := d\<rparr>, lua_tk r s k) \<and> direct_ok d \<and>
    seen_of (direct_tk d) (unexpired r) = seen_of (direct_tk (lua_db s)) (unexpired r) \<and>
    direct_acct d = direct_acct (lua_db s) \<and> direct_tk d \<subseteq>\<^sub>m direct_tk (lua_db s)"
proof (cases "differ_map s k")
  case None
  then show ?thesis
    using direct_select_spec [of "lua_db s" r k] assms
    by (auto simp: lua_select_def lua_tk_def lua_ok_def)
next
  case (Some c)
  then show ?thesis
    using assms by (cases c) (auto simp: lua_select_def lua_tk_def lua_ok_def intro!: exI [of _ "lua_db s"])
qed

lemma lua_tk_upd:
  assumes "differ_map s' = (differ_map s)(k \<mapsto> c)"
    and "seen_of (direct_tk (lua_db s')) (unexpired r) = seen_of (direct_tk (lua_db s)) (unexpired r)"
  shows "lua_tk r s' = (lua_tk r s)(k := (case c of Update e \<Rightarrow> Some e | Delete \<Rightarrow> None))"
  unfolding lua_tk_def assms by (auto simp: fun_eq_iff)

lemma lua_tk_same:
  assumes "differ_map s' = differ_map s"
    and "seen_of (direct_tk (lua_db s')) (unexpired r) = seen_of (direct_tk (lua_db s)) (unexpired r)"
  shows "lua_tk r s' = lua_tk r s"
  unfolding lua_tk_def assms ..

interpretation lua: kv_operator "lua_insert r" "lua_select r" "lua_take r" "lua_delete r"
  lua_ok "lua_tk r" "\<lambda>_ _. True" "lua_frame r" for r
proof
  show "lua_frame r s s" for s :: "'j LuaCacheNode"
    by (rule lua_frame_simps)
  show "lua_frame r s1 s2 \<Longrightarrow> lua_frame r s2 s3 \<Longrightarrow> lua_frame r s1 s3" for s1 s2 s3 :: "'j LuaCacheNode"
    by (rule lua_frame_simps)
next
  fix s :: "'j LuaCacheNode" and k v
  assume ok: "lua_ok s"
  obtain d where d: "lua_select r k s = Some (s\<lparr>lua_db := d\<rparr>, lua_tk r s k)" "direct_ok d"
    "seen_of (direct_tk d) (unexpired r) = seen_of (direct_tk (lua_db s)) (unexpired r)"
    "direct_acct d = direct_acct (lua_db s)" "direct_tk d \<subseteq>\<^sub>m direct_tk (lua_db s)"
    using lua_select_spec [OF ok] by blast
  show "\<exists>s'. lua_insert r k v s = Some s' \<and> lua_ok s' \<and> lua_tk r s' = (lua_tk r s)(k \<mapsto> v) \<and>
      (\<lambda>_. True) = ((\<lambda>_. True) :: 'j ValueEntry \<Rightarrow> bool) \<and> lua_frame r s s'"
    using d ok by (auto simp: lua_insert_def lua_ok_def lua_frame_def lua_acct_def lua_tk_upd [where s = s and c = "Update v"])
  show "\<exists>s'. lua_delete r k s = Some s' \<and> lua_ok s' \<and> lua_tk r s' = (lua_tk r s)(k := None) \<and>
      (\<lambda>_. True) = ((\<lambda>_. True) :: 'j ValueEntry \<Rightarrow> bool) \<and> lua_frame r s s'"
    using d ok by (auto simp: lua_delete_def lua_ok_def lua_frame_def lua_acct_def lua_tk_upd [where s = s and c = Delete])
  show "\<exists>s'. lua_select r k s = Some (s', seen_of (lua_tk r s) (\<lambda>_. True) k) \<and> lua_ok s' \<and>
      lua_tk r s' = (lua_tk r s)(k := seen_of (lua_tk r s) (\<lambda>_. True) k) \<and>
      (\<lambda>_. True) = ((\<lambda>_. True) :: 'j ValueEntry \<Rightarrow> bool) \<and> lua_frame r s s'"
    using d ok lua_tk_same [of "s\<lparr>lua_db := d\<rparr>" s r] by (auto simp: lua_ok_def lua_frame_def lua_acct_def)
  show "\<exists>s'. lua_take r k s = Some (s', lua_tk r s k) \<and> lua_ok s' \<and> lua_tk r s' = (lua_tk r s)(k := None) \<and>
      (\<lambda>_. True) = ((\<lambda>_. True) :: 'j ValueEntry \<Rightarrow> bool) \<and> lua_frame r s s'"
  proof (cases "differ_map s k")
    case None
    obtain d where d: "direct_select r k (lua_db s) = Some (d, seen_of (direct_tk (lua_db s)) (unexpired r) k)"
      "direct_ok d" "seen_of (direct_tk d) (unexpired r) = seen_of (direct_tk (lua_db s)) (unexpired r)"
      "direct_acct d = direct_acct (lua_db s)" "direct_tk d \<subseteq>\<^sub>m direct_tk (lua_db s)"
      using direct_select_spec [of "lua_db s" r k] ok by (auto simp: lua_ok_def)
    show ?thesis
    proof (cases "seen_of (direct_tk (lua_db s)) (unexpired r) k")
      case (Some e)
      then show ?thesis
        using None d ok by (auto simp: lua_take_def lua_ok_def lua_frame_def lua_acct_def lua_tk_def [of r s]
            lua_tk_upd [where s = s and c = Delete])
    next
      case no: None
      then have "lua_tk r s k = None"
        using None by (simp add: lua_tk_def)
      then show ?thesis
        using None no d ok lua_tk_same [of "s\<lparr>lua_db := d\<rparr>" s r]
        by (auto simp: lua_take_def lua_ok_def lua_frame_def lua_acct_def fun_upd_idem)
    qed
  next
    case (Some c)
    then show ?thesis
      using ok by (cases c) (auto simp: lua_take_def lua_ok_def lua_frame_def lua_acct_def lua_tk_def [of r s]
          lua_tk_upd [where s = s and c = Delete])
  qed
qed

fun locked_ok :: "'j LockedDb \<Rightarrow> bool" where
  "locked_ok (WriteNormal d) \<longleftrightarrow> direct_ok d"
| "locked_ok (WriteLua s) \<longleftrightarrow> lua_ok s"
| "locked_ok _ \<longleftrightarrow> False"

fun locked_tk :: "rt \<Rightarrow> 'j LockedDb \<Rightarrow> key \<rightharpoonup> 'j ValueEntry" where
  "locked_tk r (WriteNormal d) = direct_tk d"
| "locked_tk r (WriteLua s) = lua_tk r s"
| "locked_tk r (ReadNormal d) = direct_tk d"
| "locked_tk r (ReadLua s) = lua_tk r s"

fun locked_vis :: "rt \<Rightarrow> 'j LockedDb \<Rightarrow> 'j ValueEntry \<Rightarrow> bool" where
  "locked_vis r (WriteNormal d) = unexpired r"
| "locked_vis r (ReadNormal d) = unexpired r"
| "locked_vis r (WriteLua s) = (\<lambda>_. True)"
| "locked_vis r (ReadLua s) = (\<lambda>_. True)"

datatype lock_mode = Write_Normal | Write_Lua | Read_Normal | Read_Lua

fun mode_of :: "'j LockedDb \<Rightarrow> lock_mode" where
  "mode_of (WriteNormal _) = Write_Normal"
| "mode_of (WriteLua _) = Write_Lua"
| "mode_of (ReadNormal _) = Read_Normal"
| "mode_of (ReadLua _) = Read_Lua"

definition locked_acct :: "'j LockedDb \<Rightarrow> usize" where
  "locked_acct l = direct_acct (locked_direct l)"

text \<open>Correcting the account of a shard moves the global counter along: what the other shards account for stays.\<close>

lemma direct_memory:
  "direct_acct (direct_add_memory n d) = direct_acct d" "direct_sub_memory n (direct_add_memory n d) = d"
  by (cases d; simp add: direct_acct_def add_memory_shard_def sub_memory_shard_def)+

lemma locked_memory:
  "locked_acct (locked_add_memory n l) = locked_acct l" "locked_sub_memory n (locked_add_memory n l) = l"
  by (cases l; simp add: locked_acct_def direct_memory)+

definition locked_frame :: "rt \<Rightarrow> 'j LockedDb \<Rightarrow> 'j LockedDb \<Rightarrow> bool" where
  "locked_frame r l l' \<longleftrightarrow> mode_of l' = mode_of l \<and> locked_acct l' = locked_acct l \<and>
     (mode_of l = Write_Lua \<longrightarrow> direct_tk (locked_direct l') \<subseteq>\<^sub>m direct_tk (locked_direct l) \<and>
        seen_of (direct_tk (locked_direct l')) (unexpired r) = seen_of (direct_tk (locked_direct l)) (unexpired r))"

lemma locked_frame_simps:
  "locked_frame r l l" "locked_frame r l1 l2 \<Longrightarrow> locked_frame r l2 l3 \<Longrightarrow> locked_frame r l1 l3"
  by (auto simp: locked_frame_def intro: map_le_trans)

interpretation locked: kv_operator "locked_insert r" "locked_select r" "locked_take r" "locked_delete r"
  locked_ok "locked_tk r" "locked_vis r" "locked_frame r" for r
proof
  show "locked_frame r s s" for s :: "'j LockedDb"
    by (rule locked_frame_simps)
  show "locked_frame r s1 s2 \<Longrightarrow> locked_frame r s2 s3 \<Longrightarrow> locked_frame r s1 s3" for s1 s2 s3 :: "'j LockedDb"
    by (rule locked_frame_simps)
next
  fix s :: "'j LockedDb" and k v
  assume ok: "locked_ok s"
  show "\<exists>s'. locked_insert r k v s = Some s' \<and> locked_ok s' \<and> locked_tk r s' = (locked_tk r s)(k \<mapsto> v) \<and>
      locked_vis r s' = locked_vis r s \<and> locked_frame r s s'"
  proof (cases s)
    case (WriteNormal d)
    then show ?thesis
      using direct.insert_law [of d k v] ok by (auto simp: locked_frame_def locked_acct_def)
  next
    case (WriteLua l)
    then show ?thesis
      using lua.insert_law [of l r k v] ok by (auto simp: locked_frame_def locked_acct_def lua_frame_def lua_acct_def)
  qed (use ok in auto)
  show "\<exists>s'. locked_select r k s = Some (s', seen_of (locked_tk r s) (locked_vis r s) k) \<and> locked_ok s' \<and>
      locked_tk r s' = (locked_tk r s)(k := seen_of (locked_tk r s) (locked_vis r s) k) \<and>
      locked_vis r s' = locked_vis r s \<and> locked_frame r s s'"
  proof (cases s)
    case (WriteNormal d)
    then show ?thesis
      using direct.select_law [of d r k] ok by (auto simp: locked_frame_def locked_acct_def)
  next
    case (WriteLua l)
    then show ?thesis
      using lua.select_law [of l r k] ok by (auto simp: locked_frame_def locked_acct_def lua_frame_def lua_acct_def)
  qed (use ok in auto)
  show "\<exists>s'. locked_take r k s = Some (s', locked_tk r s k) \<and> locked_ok s' \<and>
      locked_tk r s' = (locked_tk r s)(k := None) \<and> locked_vis r s' = locked_vis r s \<and>
      locked_frame r s s'"
  proof (cases s)
    case (WriteNormal d)
    then show ?thesis
      using direct.take_law [of d k] ok by (auto simp: locked_frame_def locked_acct_def)
  next
    case (WriteLua l)
    then show ?thesis
      using lua.take_law [of l r k] ok by (auto simp: locked_frame_def locked_acct_def lua_frame_def lua_acct_def)
  qed (use ok in auto)
  show "\<exists>s'. locked_delete r k s = Some s' \<and> locked_ok s' \<and>
      locked_tk r s' = (locked_tk r s)(k := None) \<and> locked_vis r s' = locked_vis r s \<and>
      locked_frame r s s'"
  proof (cases s)
    case (WriteNormal d)
    then show ?thesis
      using direct.delete_law [of d k] ok by (auto simp: locked_frame_def locked_acct_def)
  next
    case (WriteLua l)
    then show ?thesis
      using lua.delete_law [of l r k] ok by (auto simp: locked_frame_def locked_acct_def lua_frame_def lua_acct_def)
  qed (use ok in auto)
qed

section \<open>Commit\<close>

definition merged :: "(key \<rightharpoonup> 'j ChangeOp) \<Rightarrow> (key \<rightharpoonup> 'j ValueEntry) \<Rightarrow> (key \<rightharpoonup> 'j ValueEntry)" where
  "merged dm m = (\<lambda>k. case dm k of Some (Update e) \<Rightarrow> Some e | Some Delete \<Rightarrow> None | None \<Rightarrow> m k)"

lemma merged_lua_tk:
  "seen_of (merged (differ_map s) (direct_tk (lua_db s))) (unexpired r) = seen_of (lua_tk r s) (unexpired r)"
  by (auto simp: merged_def lua_tk_def seen_of_def fun_eq_iff split: option.splits ChangeOp.splits)

lemma apply_change_spec:
  assumes "direct_ok d"
  shows "\<exists>d'. apply_change c k d = Some d' \<and> direct_ok d' \<and> direct_acct d' = direct_acct d \<and>
    direct_tk d' = (direct_tk d)(k := (case c of Update e \<Rightarrow> Some e | Delete \<Rightarrow> None))"
  using direct.insert_law [OF assms, of k] direct.delete_law [OF assms, of k]
  by (cases c) (auto simp: apply_change_def)

lemma commit_fold:
  assumes "direct_ok d" and "distinct order"
  shows "\<exists>d'. ofold (\<lambda>k d. case dm k of None \<Rightarrow> Some d | Some c \<Rightarrow> apply_change c k d) order d = Some d' \<and>
    direct_ok d' \<and> direct_acct d' = direct_acct d \<and>
    direct_tk d' = (\<lambda>k. if k \<in> set order then merged dm (direct_tk d) k else direct_tk d k)"
  using assms
proof (induction order arbitrary: d)
  case (Cons k ks)
  have "\<exists>d1. (case dm k of None \<Rightarrow> Some d | Some c \<Rightarrow> apply_change c k d) = Some d1 \<and> direct_ok d1 \<and>
      direct_acct d1 = direct_acct d \<and> direct_tk d1 = (direct_tk d)(k := merged dm (direct_tk d) k)"
    using apply_change_spec [OF Cons.prems(1), of _ k] Cons.prems(1)
    by (cases "dm k") (auto simp: merged_def fun_upd_idem split: ChangeOp.splits)
  then obtain d1 where d1: "(case dm k of None \<Rightarrow> Some d | Some c \<Rightarrow> apply_change c k d) = Some d1"
    "direct_ok d1" "direct_acct d1 = direct_acct d"
    "direct_tk d1 = (direct_tk d)(k := merged dm (direct_tk d) k)"
    by blast
  obtain d2 where d2: "ofold (\<lambda>k d. case dm k of None \<Rightarrow> Some d | Some c \<Rightarrow> apply_change c k d) ks d1 = Some d2"
    "direct_ok d2" "direct_acct d2 = direct_acct d1"
    "direct_tk d2 = (\<lambda>x. if x \<in> set ks then merged dm (direct_tk d1) x else direct_tk d1 x)"
    using Cons.IH [OF d1(2)] Cons.prems(2) by auto
  have "direct_tk d2 = (\<lambda>x. if x \<in> set (k # ks) then merged dm (direct_tk d) x else direct_tk d x)"
    using d2(4) d1(4) Cons.prems(2) by (auto simp: fun_eq_iff merged_def split: option.splits)
  then show ?case
    using d1 d2 by auto
qed simp

lemma lua_commit_spec:
  assumes "lua_ok s" and "drain_order order s"
  shows "\<exists>s'. lua_commit order s = Some s' \<and> lua_ok s' \<and> differ_map s' = Map.empty \<and>
    lua_acct s' = lua_acct s \<and> direct_tk (lua_db s') = merged (differ_map s) (direct_tk (lua_db s))"
proof -
  obtain d where d: "ofold (\<lambda>k d. case differ_map s k of None \<Rightarrow> Some d | Some c \<Rightarrow> apply_change c k d) order (lua_db s)
      = Some d" "direct_ok d" "direct_acct d = direct_acct (lua_db s)"
    "direct_tk d = (\<lambda>k. if k \<in> set order then merged (differ_map s) (direct_tk (lua_db s)) k
       else direct_tk (lua_db s) k)"
    using commit_fold [of "lua_db s" order "differ_map s"] assms by (auto simp: lua_ok_def drain_order_def)
  have "direct_tk d = merged (differ_map s) (direct_tk (lua_db s))"
    using d(4) assms(2) by (auto simp: fun_eq_iff drain_order_def merged_def domIff)
  then show ?thesis
    using d by (auto simp: lua_commit_def lua_ok_def lua_acct_def)
qed

section \<open>Properties\<close>

definition shard_step :: "rt \<times> 'j ValueEntry kv_op \<Rightarrow> 'j DirectCacheNode \<Rightarrow> 'j DirectCacheNode option" where
  "shard_step x = kv_step direct_insert (direct_select (fst x)) direct_take direct_delete (snd x)"

definition lua_step :: "rt \<Rightarrow> 'j ValueEntry kv_op \<Rightarrow> 'j LuaCacheNode \<Rightarrow> 'j LuaCacheNode option" where
  "lua_step r = kv_step (lua_insert r) (lua_select r) (lua_take r) (lua_delete r)"

lemma shard_run:
  assumes "direct_ok d"
  shows "\<exists>d'. ofold shard_step ops d = Some d' \<and> direct_ok d' \<and> direct_acct d' = direct_acct d"
  using assms
proof (induction ops arbitrary: d)
  case (Cons x ops)
  show ?case
  proof -
    obtain d1 where "shard_step x d = Some d1" "direct_ok d1" "direct_acct d1 = direct_acct d"
      using direct.step_law [OF Cons.prems, of "fst x" "snd x"] by (auto simp: shard_step_def)
    then show ?thesis
      using Cons.IH [of d1] by auto
  qed
qed simp

text \<open>No operation of a session touches the shard, except that a lookup may drop an expired entry; the session sees
  its own writes.\<close>

lemma lua_run_keeps:
  assumes "lua_ok s"
  shows "\<exists>s'. ofold (lua_step r) ops s = Some s' \<and> lua_ok s' \<and> lua_acct s' = lua_acct s \<and>
    seen_of (direct_tk (lua_db s')) (unexpired r) = seen_of (direct_tk (lua_db s)) (unexpired r) \<and>
    lua_tk r s' = fold (kv_spec (\<lambda>_. True)) ops (lua_tk r s)"
  using lua.run_law [OF assms, of r ops] by (auto simp: lua_step_def lua_frame_def)

text \<open>Property C25: whatever entries are inserted, looked up (with lazy removal of expired ones), taken
  and deleted on a shard, at whatever clock readings, no operation panics, the memory account
  of the shard is the sum of the recorded sizes of its entries, the global counter has moved
  by exactly that amount, and the eviction policy tracks exactly the stored keys.\<close>

theorem shard_accounting:
  "\<exists>g' n. ofold shard_step ops (Writeguard (g, MemoryCacheNode_new ty)) = Some (Writeguard (g', n)) \<and>
     approx_memory n = stored_size (db_store n) \<and> g' = g + approx_memory n \<and>
     strategy_keys (evicition n) = dom (db_store n)"
proof -
  obtain d where d: "ofold shard_step ops (Writeguard (g, MemoryCacheNode_new ty)) = Some d" "direct_ok d"
    "direct_acct d = g"
    using shard_run [of "Writeguard (g, MemoryCacheNode_new ty)" ops] node_ok_new
    by (auto simp: direct_acct_def MemoryCacheNode_new_def)
  obtain g' n where "d = Writeguard (g', n)" "node_ok n"
    using d(2) by (rule direct_okE)
  then show ?thesis
    using d(1,3) by (auto simp: direct_acct_def node_ok_def)
qed

text \<open>Property C11: a script's writes are invisible until it commits. Whatever a Lua session does
  on a shard, the visible contents of the shard itself are unchanged, so dropping the session
  rolls it back; the session sees its own writes; and a commit, in whatever order the change
  buffer is drained, makes the visible contents of the shard those the session saw, with the
  memory account and the eviction policy consistent.\<close>

theorem lua_commit_atomic:
  assumes "node_ok n"
  shows "\<exists>s. ofold (lua_step r) ops (LuaCacheNode_new (Writeguard (g, n))) = Some s \<and>
    seen_of (direct_tk (lua_db s)) (unexpired r) = seen_of (db_store n) (unexpired r) \<and>
    lua_tk r s = fold (kv_spec (\<lambda>_. True)) ops (seen_of (db_store n) (unexpired r)) \<and>
    (\<forall>order. drain_order order s \<longrightarrow>
      (\<exists>s' g' n'. lua_commit order s = Some s' \<and> lua_db s' = Writeguard (g', n') \<and> node_ok n' \<and>
        seen_of (db_store n') (unexpired r) = seen_of (lua_tk r s) (unexpired r) \<and>
        g' = g + (approx_memory n' - approx_memory n)))"
proof -
  let ?s0 = "LuaCacheNode_new (Writeguard (g, n))"
  have ok0: "lua_ok ?s0"
    using assms by (simp add: lua_ok_def LuaCacheNode_new_def)
  have init: "direct_tk (lua_db ?s0) = db_store n" "lua_acct ?s0 = g - approx_memory n"
    "lua_tk r ?s0 = seen_of (db_store n) (unexpired r)"
    by (simp_all add: LuaCacheNode_new_def direct_tk_def lua_acct_def direct_acct_def lua_tk_def)
  obtain s where s: "ofold (lua_step r) ops ?s0 = Some s" "lua_ok s" "lua_acct s = g - approx_memory n"
    "seen_of (direct_tk (lua_db s)) (unexpired r) = seen_of (db_store n) (unexpired r)"
    and saw: "lua_tk r s = fold (kv_spec (\<lambda>_. True)) ops (seen_of (db_store n) (unexpired r))"
    using lua_run_keeps [OF ok0, of r ops] init by auto
  have commit: "\<exists>s' g' n'. lua_commit order s = Some s' \<and> lua_db s' = Writeguard (g', n') \<and> node_ok n' \<and>
      seen_of (db_store n') (unexpired r) = seen_of (lua_tk r s) (unexpired r) \<and>
      g' = g + (approx_memory n' - approx_memory n)" if dr: "drain_order order s" for order
  proof -
    obtain s' where s': "lua_commit order s = Some s'" "lua_ok s'" "lua_acct s' = lua_acct s"
      "direct_tk (lua_db s') = merged (differ_map s) (direct_tk (lua_db s))"
      using lua_commit_spec [OF s(2) dr] by blast
    obtain g' n' where n': "lua_db s' = Writeguard (g', n')" "node_ok n'"
      using s'(2) by (auto simp: lua_ok_def elim: direct_okE)
    have "g' - approx_memory n' = g - approx_memory n"
      using trans [OF s'(3) s(3)] by (simp add: lua_acct_def direct_acct_def n'(1))
    then have "g' = g + (approx_memory n' - approx_memory n)"
      by (simp add: algebra_simps)
    then show ?thesis
      using s'(1,4) n' merged_lua_tk [of s r] by (auto simp: direct_tk_def)
  qed
  show ?thesis
    using s(1,4) saw commit by blast
qed

theorem lua_commit_atomic_witness:
  "\<forall>r (e :: unit ValueEntry). \<exists>s s' g' n'. ofold (lua_step r) [KInsert ''k'' e, KDelete ''x'']
      (LuaCacheNode_new (Writeguard (0, MemoryCacheNode_new LRU))) = Some s \<and>
    drain_order [''x'', ''k''] s \<and> lua_commit [''x'', ''k''] s = Some s' \<and>
    lua_db s' = Writeguard (g', n') \<and>
    seen_of (db_store n') (unexpired r) = seen_of ([''k'' \<mapsto> e]) (unexpired r)"
proof (intro allI)
  fix r and e :: "unit ValueEntry"
  let ?ops = "[KInsert ''k'' e, KDelete ''x'']"
  let ?s0 = "LuaCacheNode_new (Writeguard (0, MemoryCacheNode_new LRU))"
  obtain s where s: "ofold (lua_step r) ?ops ?s0 = Some s"
    "lua_tk r s = fold (kv_spec (\<lambda>_. True)) ?ops (seen_of Map.empty (unexpired r))"
    "\<forall>order. drain_order order s \<longrightarrow>
      (\<exists>s' g' n'. lua_commit order s = Some s' \<and> lua_db s' = Writeguard (g', n') \<and>
        seen_of (db_store n') (unexpired r) = seen_of (lua_tk r s) (unexpired r))"
    using lua_commit_atomic [OF node_ok_new [of LRU], of r ?ops 0]
    by (auto simp: MemoryCacheNode_new_def) blast
  have "differ_map s = [''k'' \<mapsto> Update e, ''x'' \<mapsto> Delete]"
    using s(1) by (auto simp: lua_step_def kv_step_def lua_insert_def lua_delete_def lua_select_def
        LuaCacheNode_new_def MemoryCacheNode_new_def peek_entry_def)
  then have "drain_order [''x'', ''k''] s"
    by (auto simp: drain_order_def)
  moreover have "lua_tk r s = [''k'' \<mapsto> e]"
    using s(2) by (simp add: seen_of_def fun_upd_def fun_eq_iff)
  ultimately show "\<exists>s s' g' n'. ofold (lua_step r) ?ops ?s0 = Some s \<and>
    drain_order [''x'', ''k''] s \<and> lua_commit [''x'', ''k''] s = Some s' \<and>
    lua_db s' = Writeguard (g', n') \<and>
    seen_of (db_store n') (unexpired r) = seen_of ([''k'' \<mapsto> e]) (unexpired r)"
    using s(1,3) by auto
qed

end
