(* ===== verification/Resp.thy ===== *)
theory Resp
  imports Domain
begin

text \<open>
  The wire protocol: the incremental RESP parser of \<^verbatim>\<open>src/src/core_explain.rs\<close> and
  \<^verbatim>\<open>Frame::serialize\<close> of \<^verbatim>\<open>src/src/core_execute.rs\<close>.

  A \<^verbatim>\<open>Cursor<&[u8]>\<close> over a fixed slice is its unread suffix; \<^verbatim>\<open>cursor.position()\<close> is the
  number of bytes already dropped. The parser answers one of five things: a frame with
  the suffix that follows it, \<^verbatim>\<open>Ok(None)\<close> (\<open>Incomplete\<close>), \<^verbatim>\<open>Err\<close> (\<open>Fail\<close>), a panic
  (\<open>Panic\<close>, a bounds check or a capacity check of the standard library failing), or it
  runs out of the recursion fuel of the model, which the entry point \<open>parse_frame\<close> never
  does (\<open>parse_frame_total\<close>). The native stack is not modelled: the code has no limit on the depth of nested arrays.

  Two things come from outside: the SIMD search \<^verbatim>\<open>memmem::Finder::find\<close> of the memchr
  crate, and the size of the type \<^verbatim>\<open>Frame\<close>, which bounds \<^verbatim>\<open>Vec::with_capacity\<close>. They are
  the fields of \<open>resp_env\<close>; \<open>finder_ok\<close> is the documented contract of the search.
\<close>

record resp_env =
  crlf_finder :: "bytes \<Rightarrow> nat option"
  size_of_Frame :: nat

datatype 'a step =
    Done 'a bytes
  | Incomplete
  | Fail KvError
  | Panic
  | OutOfFuel

definition CR :: char where "CR = CHR 0x0D"
definition LF :: char where "LF = CHR 0x0A"
definition crlf :: bytes where "crlf = [CR, LF]"

section \<open>The parser\<close>

text \<open>\<^verbatim>\<open>buf.windows(2).position(|w| w == CRLF)\<close>.\<close>

fun find_crlf_idiomatic :: "bytes \<Rightarrow> nat option" where
  "find_crlf_idiomatic (a # b # s) =
     (if a = CR \<and> b = LF then Some 0 else map_option Suc (find_crlf_idiomatic (b # s)))"
| "find_crlf_idiomatic _ = None"

definition finder_ok :: "resp_env \<Rightarrow> bool" where
  "finder_ok R \<longleftrightarrow> (\<forall>s. crlf_finder R s = find_crlf_idiomatic s)"

definition find_crlf :: "resp_env \<Rightarrow> bytes \<Rightarrow> nat option" where
  "find_crlf R buf = crlf_finder R buf"

text \<open>\<^verbatim>\<open>Vec::with_capacity(n)\<close> panics when the allocation would exceed \<^verbatim>\<open>isize::MAX\<close> bytes.\<close>

definition vec_capacity_ok :: "resp_env \<Rightarrow> nat \<Rightarrow> bool" where
  "vec_capacity_ok R n \<longleftrightarrow> size_of_Frame R * n \<le> 2 ^ 63 - 1"

definition parse_decimal :: "bytes \<Rightarrow> nat kvres" where
  "parse_decimal s =
     (if \<not> utf8_valid s then Inl (ProtocolError (Zh ''invalid UTF-8 digit sequence''))
      else case parse_usize s of
             None \<Rightarrow> Inl (ProtocolError (Zh ''invalid decimal format''))
           | Some n \<Rightarrow> Inr n)"

definition read_line_from_cursor :: "resp_env \<Rightarrow> bytes \<Rightarrow> bytes step" where
  "read_line_from_cursor R s =
     (case find_crlf R s of
        None \<Rightarrow> Incomplete
      | Some p \<Rightarrow> if p + 2 \<le> length s then Done (take p s) (drop (p + 2) s) else Panic)"

definition parse_bulk_string_from_cursor :: "resp_env \<Rightarrow> bytes \<Rightarrow> Frame step" where
  "parse_bulk_string_from_cursor R s =
     (case read_line_from_cursor R s of
        Done line rest \<Rightarrow>
          (case line of
             [] \<Rightarrow> Panic
           | c # ds \<Rightarrow>
               if c \<noteq> CHR ''$'' then Fail (ProtocolError (Zh ''expected bulk string''))
               else
                 (case parse_decimal ds of
                    Inl e \<Rightarrow> Fail e
                  | Inr data_len \<Rightarrow>
                      if USIZE_MAX < data_len + 2
                      then Fail (ProtocolError (Zh ''bulk length overflow''))
                      else if length rest < data_len + 2 then Incomplete
                      else if take 2 (drop data_len rest) \<noteq> crlf
                      then Fail (ProtocolError (Zh ''bulk string lacks trailing CRLF''))
                      else Done (Bulk (take data_len rest)) (drop (data_len + 2) rest)))
      | Incomplete \<Rightarrow> Incomplete
      | Fail e \<Rightarrow> Fail e
      | Panic \<Rightarrow> Panic
      | OutOfFuel \<Rightarrow> OutOfFuel)"

text \<open>The recursion of the source, with the nesting depth as fuel. The loop of
  \<^verbatim>\<open>parse_array_from_cursor\<close> is \<open>parse_elements\<close>; its accumulator is the vector
  \<^verbatim>\<open>elements\<close>.\<close>

fun parse_frame_from_cursor :: "resp_env \<Rightarrow> nat \<Rightarrow> bytes \<Rightarrow> Frame step"
  and parse_array_from_cursor :: "resp_env \<Rightarrow> nat \<Rightarrow> bytes \<Rightarrow> Frame step"
  and parse_elements :: "resp_env \<Rightarrow> nat \<Rightarrow> nat \<Rightarrow> Frame list \<Rightarrow> bytes \<Rightarrow> Frame step"
where
  "parse_frame_from_cursor R 0 s = OutOfFuel"
| "parse_frame_from_cursor R (Suc n) s =
     (case s of
        [] \<Rightarrow> Incomplete
      | c # _ \<Rightarrow>
          if c = CHR ''*'' then parse_array_from_cursor R n s
          else if c = CHR ''$'' then parse_bulk_string_from_cursor R s
          else Fail (ProtocolError (Zh ''invalid frame prefix'')))"
| "parse_array_from_cursor R n s =
     (case read_line_from_cursor R s of
        Done line rest \<Rightarrow>
          (case line of
             [] \<Rightarrow> Panic
           | c # ds \<Rightarrow>
               if c \<noteq> CHR ''*'' then Fail (ProtocolError (Zh ''expected array''))
               else
                 (case parse_decimal ds of
                    Inl e \<Rightarrow> Fail e
                  | Inr num_elements \<Rightarrow>
                      if \<not> vec_capacity_ok R num_elements then Panic
                      else parse_elements R n num_elements [] rest))
      | Incomplete \<Rightarrow> Incomplete
      | Fail e \<Rightarrow> Fail e
      | Panic \<Rightarrow> Panic
      | OutOfFuel \<Rightarrow> OutOfFuel)"
| "parse_elements R n 0 elements s = Done (Array elements) s"
| "parse_elements R n (Suc k) elements s =
     (case parse_frame_from_cursor R n s of
        Done f s' \<Rightarrow> parse_elements R n k (elements @ [f]) s'
      | Incomplete \<Rightarrow> Incomplete
      | Fail e \<Rightarrow> Fail e
      | Panic \<Rightarrow> Panic
      | OutOfFuel \<Rightarrow> OutOfFuel)"

text \<open>The public entry point: \<open>Done f rest\<close> of the cursor becomes the frame and the
  number of bytes consumed. An inner panic is a panic of the caller.\<close>

datatype parsed =
    ParsedFrame Frame nat
  | NeedMore
  | ParseError KvError
  | ParsePanic
  | ParseFuel

definition parse_frame :: "resp_env \<Rightarrow> bytes \<Rightarrow> parsed" where
  "parse_frame R buf =
     (case parse_frame_from_cursor R (Suc (length buf)) buf of
        Done f rest \<Rightarrow> ParsedFrame f (length buf - length rest)
      | Incomplete \<Rightarrow> NeedMore
      | Fail e \<Rightarrow> ParseError e
      | Panic \<Rightarrow> ParsePanic
      | OutOfFuel \<Rightarrow> ParseFuel)"

section \<open>The serializer\<close>

fun serialize :: "Frame \<Rightarrow> bytes" where
  "serialize (Simple s) = ''+'' @ s @ crlf"
| "serialize (Error s) = ''-'' @ s @ crlf"
| "serialize (Integer i) = '':'' @ show_int i @ crlf"
| "serialize Null = ''$-1'' @ crlf"
| "serialize (Bulk b) = ''$'' @ show_nat (length b) @ crlf @ b @ crlf"
| "serialize (Array fs) = ''*'' @ show_nat (length fs) @ crlf @ concat (map serialize fs)"

text \<open>The frames a client or the append-only file sends: bulk strings and arrays of such,
  with lengths that fit the machine.\<close>

fun request_frame :: "resp_env \<Rightarrow> Frame \<Rightarrow> bool" where
  "request_frame R (Bulk b) \<longleftrightarrow> length b + 2 \<le> USIZE_MAX"
| "request_frame R (Array fs) \<longleftrightarrow>
     length fs \<le> USIZE_MAX \<and> vec_capacity_ok R (length fs) \<and> list_all (request_frame R) fs"
| "request_frame R _ \<longleftrightarrow> False"

section \<open>Finding line ends\<close>

lemma crlf_chars [simp]: "CR \<noteq> LF" "LF \<noteq> CR"
  by (simp_all add: CR_def LF_def)

lemma length_crlf [simp]: "length crlf = 2"
  by (simp add: crlf_def)

lemma find_crlf_bounds:
  "find_crlf_idiomatic s = Some p \<Longrightarrow> p + 2 \<le> length s \<and> s ! p = CR \<and> s ! Suc p = LF"
proof (induction s arbitrary: p rule: find_crlf_idiomatic.induct)
  case (1 a b s)
  then show ?case by (cases "a = CR \<and> b = LF") auto
qed auto

lemma find_crlf_append:
  "find_crlf_idiomatic s = Some p \<Longrightarrow> find_crlf_idiomatic (s @ t) = Some p"
proof (induction s arbitrary: p rule: find_crlf_idiomatic.induct)
  case (1 a b s)
  then show ?case by (cases "a = CR \<and> b = LF") auto
qed auto

lemma find_crlf_line:
  "CR \<notin> set l \<Longrightarrow> find_crlf_idiomatic (l @ CR # LF # rest) = Some (length l)"
  by (induction l rule: find_crlf_idiomatic.induct) auto

lemma CR_not_digit: "CR \<notin> set (show_nat n)"
  using show_nat_digits [of n] by (auto simp: list_all_iff is_digit_def CR_def nat_of_char_def)

lemma CR_not_header: "c \<noteq> CR \<Longrightarrow> CR \<notin> set (c # show_nat n)"
  using CR_not_digit by auto

section \<open>Reading a header line\<close>

lemma read_line_Done:
  "read_line_from_cursor R s = Done l rest \<Longrightarrow> \<exists>k\<ge>2. k \<le> length s \<and> rest = drop k s"
  by (auto simp: read_line_from_cursor_def split: option.splits if_splits intro: exI [of _ "_ + 2"])

lemma read_line_not_fuel [simp]:
  "read_line_from_cursor R s \<noteq> OutOfFuel" "read_line_from_cursor R s \<noteq> Fail e"
  by (auto simp: read_line_from_cursor_def split: option.splits)

lemma read_line_no_panic: "finder_ok R \<Longrightarrow> read_line_from_cursor R s \<noteq> Panic"
  by (auto simp: read_line_from_cursor_def finder_ok_def find_crlf_def
      split: option.splits dest: find_crlf_bounds)

lemma read_line_append:
  assumes "finder_ok R" and "read_line_from_cursor R s = Done l rest"
  shows "read_line_from_cursor R (s @ t) = Done l (rest @ t)"
  using assms find_crlf_append [of s _ t]
  by (auto simp: read_line_from_cursor_def finder_ok_def find_crlf_def
      split: option.splits if_splits)

lemma read_line_header:
  assumes "finder_ok R" and "c \<noteq> CR"
  shows "read_line_from_cursor R (c # show_nat n @ crlf @ rest) = Done (c # show_nat n) rest"
  using assms find_crlf_line [OF CR_not_header [OF assms(2)], of n rest]
  by (simp add: read_line_from_cursor_def finder_ok_def find_crlf_def crlf_def)

lemma parse_decimal_show_nat: "n \<le> USIZE_MAX \<Longrightarrow> parse_decimal (show_nat n) = Inr n"
  by (simp add: parse_decimal_def parse_unsigned_show_nat USIZE_MAX_def)

section \<open>Progress and totality\<close>

lemma bulk_Done:
  assumes "parse_bulk_string_from_cursor R s = Done f s'"
  shows "\<exists>k>0. k \<le> length s \<and> s' = drop k s"
proof -
  obtain l rest where line: "read_line_from_cursor R s = Done l rest"
    using assms by (auto simp: parse_bulk_string_from_cursor_def split: step.splits)
  then obtain j where j: "j \<ge> 2" "j \<le> length s" "rest = drop j s"
    using read_line_Done by blast
  obtain n where n: "n + 2 \<le> length rest" "s' = drop (n + 2) rest"
    using assms line
    by (force simp: parse_bulk_string_from_cursor_def split: list.splits sum.splits if_splits)
  with j have "s' = drop (n + 2 + j) s" and "n + 2 + j \<le> length s" by auto
  then show ?thesis by (intro exI [of _ "n + 2 + j"]) simp
qed

lemma bulk_not_fuel: "parse_bulk_string_from_cursor R s \<noteq> OutOfFuel"
  by (auto simp: parse_bulk_string_from_cursor_def split: step.splits list.splits sum.splits)

lemma parse_suffix:
  "parse_frame_from_cursor R n s = Done f s' \<Longrightarrow> \<exists>k>0. k \<le> length s \<and> s' = drop k s"
  "parse_array_from_cursor R n s = Done f s' \<Longrightarrow> \<exists>k>0. k \<le> length s \<and> s' = drop k s"
  "parse_elements R n k es s = Done f s' \<Longrightarrow> \<exists>k\<le>length s. s' = drop k s"
proof (induction R n s and R n s and R n k es s arbitrary: f s' and f s' and f s'
    rule: parse_frame_from_cursor_parse_array_from_cursor_parse_elements.induct)
  case (2 R n s)
  show ?case
  proof (cases s)
    case (Cons c t)
    show ?thesis
    proof (cases "c = CHR ''*''")
      case True
      then show ?thesis using 2 Cons by auto
    next
      case False
      then have "parse_bulk_string_from_cursor R s = Done f s'"
        using "2.prems" Cons by (auto split: if_splits)
      then show ?thesis by (rule bulk_Done)
    qed
  qed (use "2.prems" in simp)
next
  case (3 R n s)
  from "3.prems" obtain c ds rest k where line: "read_line_from_cursor R s = Done (c # ds) rest"
    and dec: "parse_decimal ds = Inr k" and cap: "vec_capacity_ok R k" and star: "c = CHR ''*''"
    and els: "parse_elements R n k [] rest = Done f s'"
    by (auto split: step.splits list.splits sum.splits if_splits)
  from read_line_Done [OF line] obtain j where j: "j \<ge> 2" "j \<le> length s" "rest = drop j s"
    by blast
  from "3.IH" [OF line refl _ dec _ els] star cap
  obtain i where "i \<le> length rest" "s' = drop i rest" by auto
  with j show ?case by (intro exI [of _ "i + j"]) auto
next
  case (4 R n es s)
  then show ?case by (auto intro: exI [of _ 0])
next
  case (5 R n k es s)
  from "5.prems" obtain g u where fst: "parse_frame_from_cursor R n s = Done g u"
    and els: "parse_elements R n k (es @ [g]) u = Done f s'"
    by (auto split: step.splits)
  from "5.IH"(1) [OF fst] obtain i where i: "i > 0" "i \<le> length s" "u = drop i s" by blast
  from "5.IH"(2) [OF fst els] obtain j where "j \<le> length u" "s' = drop j u" by blast
  with i show ?case by (intro exI [of _ "j + i"]) auto
qed auto

lemma parse_enough_fuel:
  "length s < n \<Longrightarrow> parse_frame_from_cursor R n s \<noteq> OutOfFuel"
  "length s \<le> n \<Longrightarrow> parse_array_from_cursor R n s \<noteq> OutOfFuel"
  "length s < n \<Longrightarrow> parse_elements R n k es s \<noteq> OutOfFuel"
proof (induction R n s and R n s and R n k es s
    rule: parse_frame_from_cursor_parse_array_from_cursor_parse_elements.induct)
  case (2 R n s)
  then show ?case using bulk_not_fuel by (cases s) (auto split: if_splits)
next
  case (3 R n s)
  show ?case
  proof
    assume "parse_array_from_cursor R n s = OutOfFuel"
    then obtain c ds rest k where line: "read_line_from_cursor R s = Done (c # ds) rest"
      and dec: "parse_decimal ds = Inr k" and cap: "vec_capacity_ok R k" "c = CHR ''*''"
      and els: "parse_elements R n k [] rest = OutOfFuel"
      by (auto split: step.splits list.splits sum.splits if_splits)
    have "length rest < n" using read_line_Done [OF line] "3.prems" by auto
    with "3.IH" [OF line refl _ dec] cap els show False by auto
  qed
next
  case (5 R n k es s)
  show ?case
  proof
    assume "parse_elements R n (Suc k) es s = OutOfFuel"
    then obtain g u where fst: "parse_frame_from_cursor R n s = Done g u"
      and els: "parse_elements R n k (es @ [g]) u = OutOfFuel"
      using "5.IH"(1) "5.prems" by (auto split: step.splits)
    have "length u < n" using parse_suffix(1) [OF fst] "5.prems" by auto
    with "5.IH"(2) [OF fst] els show False by auto
  qed
qed auto

lemma parse_fuel_mono:
  "parse_frame_from_cursor R n s \<noteq> OutOfFuel \<Longrightarrow> n \<le> m \<Longrightarrow>
     parse_frame_from_cursor R m s = parse_frame_from_cursor R n s"
  "parse_array_from_cursor R n s \<noteq> OutOfFuel \<Longrightarrow> n \<le> m \<Longrightarrow>
     parse_array_from_cursor R m s = parse_array_from_cursor R n s"
  "parse_elements R n k es s \<noteq> OutOfFuel \<Longrightarrow> n \<le> m \<Longrightarrow>
     parse_elements R m k es s = parse_elements R n k es s"
proof (induction R n s and R n s and R n k es s arbitrary: m and m and m
    rule: parse_frame_from_cursor_parse_array_from_cursor_parse_elements.induct)
  case (2 R n s)
  then obtain m' where m: "m = Suc m'" "n \<le> m'" by (cases m) auto
  show ?case
  proof (cases s)
    case (Cons c t)
    show ?thesis
    proof (cases "c = CHR ''*''")
      case True
      then show ?thesis using "2.IH" [OF Cons True _ m(2)] "2.prems"(1) Cons m by simp
    qed (use Cons m in simp)
  qed (use m in simp)
next
  case (3 R n s)
  show ?case
  proof (cases "read_line_from_cursor R s")
    case (Done line rest)
    show ?thesis
    proof (cases line)
      case (Cons c ds)
      show ?thesis
      proof (cases "c = CHR ''*'' \<and> (\<exists>k. parse_decimal ds = Inr k \<and> vec_capacity_ok R k)")
        case True
        then obtain k where k: "c = CHR ''*''" "parse_decimal ds = Inr k" "vec_capacity_ok R k"
          by blast
        then have eq: "parse_array_from_cursor R j s = parse_elements R j k [] rest" for j
          using Done Cons by simp
        show ?thesis
          unfolding eq by (rule "3.IH" [OF Done Cons]) (use k "3.prems" eq in auto)
      next
        case False
        then show ?thesis using Done Cons by (auto split: sum.splits)
      qed
    qed (use Done in simp)
  qed auto
next
  case (5 R n k es s)
  show ?case
  proof (cases "parse_frame_from_cursor R n s")
    case (Done g u)
    then have "parse_frame_from_cursor R m s = Done g u"
      using "5.IH"(1) [OF _ "5.prems"(2)] by simp
    with Done show ?thesis using "5.IH"(2) [OF Done _ "5.prems"(2)] "5.prems"(1) by simp
  qed (use "5.prems" "5.IH"(1) [OF _ "5.prems"(2)] in auto)
qed auto

section \<open>Streaming: more input never changes a decided answer\<close>

primrec extend :: "bytes \<Rightarrow> 'a step \<Rightarrow> 'a step" where
  "extend t (Done x r) = Done x (r @ t)"
| "extend t Incomplete = Incomplete"
| "extend t (Fail e) = Fail e"
| "extend t Panic = Panic"
| "extend t OutOfFuel = OutOfFuel"

lemma extend_simps [simp]:
  "extend t r = Incomplete \<longleftrightarrow> r = Incomplete"
  "extend t r = Panic \<longleftrightarrow> r = Panic"
  "extend t r = OutOfFuel \<longleftrightarrow> r = OutOfFuel"
  "extend t r = Fail e \<longleftrightarrow> r = Fail e"
  by (cases r; simp)+

lemma bulk_extend:
  assumes "finder_ok R" and "parse_bulk_string_from_cursor R s \<noteq> Incomplete"
  shows "parse_bulk_string_from_cursor R (s @ t) = extend t (parse_bulk_string_from_cursor R s)"
proof -
  obtain l rest where line: "read_line_from_cursor R s = Done l rest"
    using assms read_line_no_panic [OF assms(1), of s]
    by (cases "read_line_from_cursor R s") (auto simp: parse_bulk_string_from_cursor_def)
  note line' = read_line_append [OF assms(1) line, of t]
  have "length rest \<ge> n + 2 \<Longrightarrow> take 2 (drop n (rest @ t)) = take 2 (drop n rest)" for n
    by simp
  then show ?thesis
    using assms(2) unfolding parse_bulk_string_from_cursor_def line line'
    by (auto split: list.splits sum.splits)
qed

lemma parse_extend:
  "finder_ok R \<Longrightarrow> parse_frame_from_cursor R n s \<noteq> Incomplete \<Longrightarrow>
     parse_frame_from_cursor R n (s @ t) = extend t (parse_frame_from_cursor R n s)"
  "finder_ok R \<Longrightarrow> parse_array_from_cursor R n s \<noteq> Incomplete \<Longrightarrow>
     parse_array_from_cursor R n (s @ t) = extend t (parse_array_from_cursor R n s)"
  "finder_ok R \<Longrightarrow> parse_elements R n k es s \<noteq> Incomplete \<Longrightarrow>
     parse_elements R n k es (s @ t) = extend t (parse_elements R n k es s)"
proof (induction R n s and R n s and R n k es s
    rule: parse_frame_from_cursor_parse_array_from_cursor_parse_elements.induct)
  case (2 R n s)
  show ?case
  proof (cases s)
    case (Cons c u)
    show ?thesis
    proof (cases "c = CHR ''*''")
      case True
      then show ?thesis using "2.IH" [OF Cons True "2.prems"(1)] "2.prems"(2) Cons by simp
    next
      case False
      then show ?thesis
        using bulk_extend [OF "2.prems"(1), of s t] "2.prems"(2) Cons
        by (cases "c = CHR ''$''") auto
    qed
  qed (use "2.prems" in simp)
next
  case (3 R n s)
  obtain l rest where line: "read_line_from_cursor R s = Done l rest"
    using "3.prems" read_line_no_panic [OF "3.prems"(1), of s]
    by (cases "read_line_from_cursor R s") auto
  note line' = read_line_append [OF "3.prems"(1) line, of t]
  show ?case
  proof (cases l)
    case (Cons c ds)
    show ?thesis
    proof (cases "c = CHR ''*'' \<and> (\<exists>k. parse_decimal ds = Inr k \<and> vec_capacity_ok R k)")
      case True
      then obtain k where k: "c = CHR ''*''" "parse_decimal ds = Inr k" "vec_capacity_ok R k"
        by blast
      then show ?thesis
        using "3.IH" [OF line Cons _ k(2) _ "3.prems"(1)] "3.prems"(2) line line' Cons by simp
    next
      case False
      then show ?thesis using line line' Cons by (auto split: sum.splits)
    qed
  qed (simp add: line line')
next
  case (5 R n k es s)
  show ?case
  proof (cases "parse_frame_from_cursor R n s")
    case (Done g u)
    then show ?thesis
      using "5.IH"(1) [OF "5.prems"(1)] "5.IH"(2) [OF Done "5.prems"(1)] "5.prems"(2) by simp
  qed (use "5.IH"(1) [OF "5.prems"(1)] "5.prems"(2) in auto)
qed auto

section \<open>Round trip\<close>

lemma fuel_agree:
  assumes "parse_frame_from_cursor R n s \<noteq> OutOfFuel" and "parse_frame_from_cursor R m s \<noteq> OutOfFuel"
  shows "parse_frame_from_cursor R n s = parse_frame_from_cursor R m s"
  using parse_fuel_mono(1) [OF assms(1), of m] parse_fuel_mono(1) [OF assms(2), of n]
  by (cases "n \<le> m") auto

lemma parse_bulk_serialize:
  assumes "finder_ok R" and "length b + 2 \<le> USIZE_MAX"
  shows "parse_bulk_string_from_cursor R (serialize (Bulk b) @ rest) = Done (Bulk b) rest"
  using assms read_line_header [OF assms(1), of "CHR ''$''" "length b" "b @ crlf @ rest"]
  by (simp add: parse_bulk_string_from_cursor_def parse_decimal_show_nat CR_def)

lemma parse_serialize:
  assumes "finder_ok R"
  shows "request_frame R f \<Longrightarrow> \<exists>n. parse_frame_from_cursor R n (serialize f @ rest) = Done f rest"
proof (induction f arbitrary: rest)
  case (Bulk b)
  then show ?case
    using parse_bulk_serialize [OF assms, of b rest] by (intro exI [of _ 1]) simp
next
  case (Array fs)
  have els: "\<exists>n. parse_elements R n (length gs) es (concat (map serialize gs) @ rest)
      = Done (Array (es @ gs)) rest" if "set gs \<subseteq> set fs" for gs es
    using that
  proof (induction gs arbitrary: es)
    case (Cons g gs)
    let ?r = "concat (map serialize gs) @ rest"
    have "request_frame R g" using Cons.prems Array.prems by (auto simp: list_all_iff)
    then obtain i where i: "parse_frame_from_cursor R i (serialize g @ ?r) = Done g ?r"
      using Array.IH [of g] Cons.prems by auto
    obtain j where j: "parse_elements R j (length gs) (es @ [g]) ?r = Done (Array ((es @ [g]) @ gs)) rest"
      using Cons.IH [of "es @ [g]"] Cons.prems by auto
    have "parse_frame_from_cursor R (max i j) (serialize g @ ?r) = Done g ?r"
      using parse_fuel_mono(1) [of R i "serialize g @ ?r" "max i j"] i by simp
    moreover have "parse_elements R (max i j) (length gs) (es @ [g]) ?r = Done (Array ((es @ [g]) @ gs)) rest"
      using parse_fuel_mono(3) [of R j "length gs" "es @ [g]" ?r "max i j"] j by simp
    ultimately show ?case by (intro exI [of _ "max i j"]) simp
  qed simp
  obtain n where n: "parse_elements R n (length fs) [] (concat (map serialize fs) @ rest) = Done (Array fs) rest"
    using els [of fs "[]"] by auto
  have "read_line_from_cursor R (serialize (Array fs) @ rest)
      = Done (CHR ''*'' # show_nat (length fs)) (concat (map serialize fs) @ rest)"
    using read_line_header [OF assms, of "CHR ''*''" "length fs"] by (simp add: CR_def)
  with n Array.prems have "parse_array_from_cursor R n (serialize (Array fs) @ rest) = Done (Array fs) rest"
    by (simp add: parse_decimal_show_nat)
  then show ?case by (intro exI [of _ "Suc n"]) simp
qed auto

lemma parse_frame_not_fuel: "parse_frame_from_cursor R (Suc (length s)) s \<noteq> OutOfFuel"
  using parse_enough_fuel(1) [of s "Suc (length s)" R] by simp

lemma parse_cursor_serialize:
  assumes "finder_ok R" and "request_frame R f"
  shows "parse_frame_from_cursor R (Suc (length (serialize f @ rest))) (serialize f @ rest) = Done f rest"
proof -
  obtain n where "parse_frame_from_cursor R n (serialize f @ rest) = Done f rest"
    using parse_serialize [OF assms] by blast
  then show ?thesis
    using fuel_agree [of R n "serialize f @ rest"] parse_frame_not_fuel by (metis step.distinct(7))
qed

lemma parse_frame_serialize:
  assumes "finder_ok R" and "request_frame R f"
  shows "parse_frame R (serialize f @ rest) = ParsedFrame f (length (serialize f))"
  using parse_cursor_serialize [OF assms, of rest] by (simp add: parse_frame_def)

lemma parse_frame_torn:
  assumes R: "finder_ok R" and f: "request_frame R f" and k: "k < length (serialize f)"
  shows "parse_frame R (take k (serialize f)) = NeedMore"
proof -
  let ?s = "take k (serialize f)" and ?t = "drop k (serialize f)"
  let ?p = "parse_frame_from_cursor R (Suc (length (serialize f)))"
  have full: "?p (?s @ ?t) = Done f []"
    using parse_cursor_serialize [OF R f, of "[]"] by simp
  have "?p ?s = Incomplete"
  proof (rule ccontr)
    assume "?p ?s \<noteq> Incomplete"
    then have "extend ?t (?p ?s) = Done f []" using parse_extend(1) [OF R] full by metis
    then show False using k by (cases "?p ?s") auto
  qed
  then show ?thesis
    using fuel_agree [of R "Suc (length (serialize f))" ?s "Suc (length ?s)"] parse_frame_not_fuel [of R ?s]
    by (simp add: parse_frame_def)
qed

section \<open>Safety of the parser\<close>

lemma bulk_no_panic:
  assumes "finder_ok R" and "s = CHR ''$'' # t"
  shows "parse_bulk_string_from_cursor R s \<noteq> Panic"
proof (cases "read_line_from_cursor R s")
  case (Done l rest)
  have "l \<noteq> []"
  proof
    assume "l = []"
    then have "find_crlf_idiomatic s = Some 0"
      using Done assms by (auto simp: read_line_from_cursor_def finder_ok_def find_crlf_def
          split: option.splits if_splits)
    then show False using find_crlf_bounds [of s 0] assms(2) by (simp add: CR_def)
  qed
  then show ?thesis
    using Done by (auto simp: parse_bulk_string_from_cursor_def split: list.splits sum.splits)
qed (use read_line_no_panic [OF assms(1)] in \<open>auto simp: parse_bulk_string_from_cursor_def\<close>)

lemma array_line_nonempty:
  assumes "finder_ok R" and "read_line_from_cursor R (c # t) = Done l rest" and "c \<noteq> CR"
  shows "l \<noteq> []"
proof
  assume "l = []"
  then have "find_crlf_idiomatic (c # t) = Some 0"
    using assms by (auto simp: read_line_from_cursor_def finder_ok_def find_crlf_def
        split: option.splits if_splits)
  then show False using find_crlf_bounds [of "c # t" 0] assms(3) by simp
qed

text \<open>Some array header of the input announces more elements than can be reserved.\<close>

definition huge_header :: "resp_env \<Rightarrow> bytes \<Rightarrow> bool" where
  "huge_header R s \<longleftrightarrow>
     (\<exists>a ds n b. s = a @ CHR ''*'' # ds @ crlf @ b \<and> parse_decimal ds = Inr n \<and> \<not> vec_capacity_ok R n)"

lemma huge_header_drop: "huge_header R (drop k s) \<Longrightarrow> huge_header R s"
  unfolding huge_header_def by (metis append_assoc append_take_drop_id)

lemma read_line_split:
  assumes "finder_ok R" "read_line_from_cursor R s = Done l rest"
  shows "s = l @ crlf @ rest"
proof -
  obtain p where p: "find_crlf_idiomatic s = Some p" "l = take p s" "rest = drop (p + 2) s" "p + 2 \<le> length s"
    using assms by (auto simp: read_line_from_cursor_def find_crlf_def finder_ok_def split: option.splits if_splits)
  have "drop p s = crlf @ drop (p + 2) s"
    using find_crlf_bounds [OF p(1)] Cons_nth_drop_Suc [of p s] Cons_nth_drop_Suc [of "Suc p" s] by (simp add: crlf_def)
  then show ?thesis
    using p(2,3) by (metis append_take_drop_id)
qed

lemma parse_panic_only_capacity:
  "finder_ok R \<Longrightarrow> parse_frame_from_cursor R n s = Panic \<Longrightarrow> huge_header R s"
  "finder_ok R \<Longrightarrow> (\<exists>t. s = CHR ''*'' # t) \<Longrightarrow> parse_array_from_cursor R n s = Panic \<Longrightarrow> huge_header R s"
  "finder_ok R \<Longrightarrow> parse_elements R n k es s = Panic \<Longrightarrow> huge_header R s"
proof (induction R n s and R n s and R n k es s
    rule: parse_frame_from_cursor_parse_array_from_cursor_parse_elements.induct)
  case (2 R n s)
  show ?case
  proof (cases s)
    case (Cons c u)
    then show ?thesis
      using "2.IH" [OF Cons _ "2.prems"(1)] "2.prems"(2) bulk_no_panic [OF "2.prems"(1), of s u] by (auto split: if_splits)
  qed (use "2.prems" in simp)
next
  case (3 R n s)
  show ?case
  proof (cases "read_line_from_cursor R s")
    case (Done l rest)
    obtain t where t: "s = CHR ''*'' # t" using "3.prems"(2) by blast
    have "l \<noteq> []" using array_line_nonempty [OF "3.prems"(1) Done [unfolded t]] by (simp add: CR_def)
    then obtain c ds where l: "l = c # ds" by (cases l) auto
    have s: "s = (c # ds) @ crlf @ rest" using read_line_split [OF "3.prems"(1) Done] l by simp
    then have c: "c = CHR ''*''" using t by simp
    then obtain m where m: "parse_decimal ds = Inr m" "\<not> vec_capacity_ok R m \<or> parse_elements R n m [] rest = Panic"
      using "3.prems"(3) Done l by (auto split: sum.splits if_splits)
    show ?thesis
    proof (cases "vec_capacity_ok R m")
      case True
      then have "huge_header R rest"
        using "3.IH" [OF Done l _ m(1) _ "3.prems"(1)] m(2) c by auto
      moreover have "rest = drop (length (l @ crlf)) s"
        using s l by simp
      ultimately show ?thesis using huge_header_drop by metis
    next
      case False
      then show ?thesis
        using s c m(1) unfolding huge_header_def by (metis append_Cons append_Nil)
    qed
  qed (use read_line_no_panic [OF "3.prems"(1)] "3.prems"(3) in auto)
next
  case (5 R n k es s)
  show ?case
  proof (cases "parse_frame_from_cursor R n s")
    case (Done g u)
    then have "huge_header R u" using "5.IH"(2) [OF Done "5.prems"(1)] "5.prems"(2) by simp
    then show ?thesis using parse_suffix(1) [OF Done] huge_header_drop by blast
  qed (use "5.IH"(1) [OF "5.prems"(1)] "5.prems"(2) in auto)
qed auto

lemma parse_reply_prefix:
  assumes "s \<noteq> []" and "hd s \<noteq> CHR ''*''" and "hd s \<noteq> CHR ''$''"
  shows "parse_frame R s = ParseError (ProtocolError (Zh ''invalid frame prefix''))"
  using assms by (cases s) (auto simp: parse_frame_def)

lemma parse_frame_consumed:
  assumes "parse_frame R buf = ParsedFrame f n"
  shows "0 < n \<and> n \<le> length buf"
proof -
  obtain rest where "parse_frame_from_cursor R (Suc (length buf)) buf = Done f rest"
    and "n = length buf - length rest"
    using assms by (auto simp: parse_frame_def simp del: parse_frame_from_cursor.simps split: step.splits)
  then show ?thesis using parse_suffix(1) by fastforce
qed

lemma parse_frame_extend:
  assumes "finder_ok R" and "parse_frame R buf = ParsedFrame f n"
  shows "parse_frame R (buf @ nxt) = ParsedFrame f n"
proof -
  let ?p = "\<lambda>s. parse_frame_from_cursor R (Suc (length s)) s"
  obtain rest where rest: "?p buf = Done f rest" and n: "n = length buf - length rest"
    using assms(2) by (auto simp: parse_frame_def simp del: parse_frame_from_cursor.simps split: step.splits)
  have "parse_frame_from_cursor R (Suc (length buf)) (buf @ nxt) = Done f (rest @ nxt)"
    using parse_extend(1) [OF assms(1), of "Suc (length buf)" buf nxt] rest
    by (simp del: parse_frame_from_cursor.simps)
  then have "?p (buf @ nxt) = Done f (rest @ nxt)"
    using fuel_agree [of R "Suc (length buf)" "buf @ nxt" "Suc (length (buf @ nxt))"]
      parse_frame_not_fuel [of R "buf @ nxt"] by (simp del: parse_frame_from_cursor.simps)
  moreover have "length rest \<le> length buf" using parse_suffix(1) [OF rest] by auto
  ultimately show ?thesis
    using n by (simp add: parse_frame_def del: parse_frame_from_cursor.simps)
qed

text \<open>A reference environment: the search of the standard library and the size a 64-bit
  target gives \<^verbatim>\<open>Frame\<close>.\<close>

definition std_resp :: resp_env where
  "std_resp = \<lparr>crlf_finder = find_crlf_idiomatic, size_of_Frame = 32\<rparr>"

lemma std_resp_ok [simp]: "finder_ok std_resp"
  by (simp add: std_resp_def finder_ok_def)

section \<open>Properties\<close>

text \<open>Property C20: the parser decodes what the serializer encodes. For every request frame
  (bulk strings and arrays of them) followed by arbitrary further input, \<^verbatim>\<open>parse_frame\<close>
  returns that frame and consumes exactly its encoding.\<close>

theorem resp_roundtrip:
  assumes "finder_ok R" and "request_frame R f"
  shows "parse_frame R (serialize f @ rest) = ParsedFrame f (length (serialize f))"
  by (rule parse_frame_serialize [OF assms])

theorem resp_roundtrip_witness:
  "parse_frame std_resp (serialize (Array [Bulk ''GET'', Bulk ''k'']) @ ''*1'')
     = ParsedFrame (Array [Bulk ''GET'', Bulk ''k'']) 20"
proof -
  have "request_frame std_resp (Array [Bulk ''GET'', Bulk ''k''])"
    by (simp add: std_resp_def vec_capacity_ok_def USIZE_MAX_def)
  from resp_roundtrip [OF std_resp_ok this, of "''*1''"] show ?thesis
    by (simp add: show_nat.simps crlf_def)
qed

text \<open>Property C29: \<^verbatim>\<open>parse_frame\<close> terminates on every input. The nesting depth of the recursion
  never exceeds the number of bytes, so the fuel the model gives it is always enough,
  whatever the byte search returns.\<close>

theorem resp_parse_total: "parse_frame R buf \<noteq> ParseFuel"
  using parse_frame_not_fuel [of R buf]
  by (auto simp: parse_frame_def simp del: parse_frame_from_cursor.simps split: step.splits)

text \<open>An array header that announces more elements than \<^verbatim>\<open>Vec::with_capacity\<close> can reserve panics at
  once, although nothing but the header was sent.\<close>

lemma resp_huge_array_panics:
  assumes "finder_ok R" and "n \<le> USIZE_MAX" and "2 ^ 63 \<le> size_of_Frame R * n"
  shows "parse_frame R (''*'' @ show_nat n @ crlf @ rest) = ParsePanic"
proof -
  have "read_line_from_cursor R (''*'' @ show_nat n @ crlf @ rest) = Done (''*'' @ show_nat n) rest"
    using read_line_header [OF assms(1), of "CHR ''*''" n rest] by (simp add: CR_def)
  with assms show ?thesis
    by (simp add: parse_frame_def parse_decimal_show_nat vec_capacity_ok_def)
qed
text \<open>Property C28: no slice index, cursor advance or line access of the parser goes out of bounds, on any
  input. A panic of \<^verbatim>\<open>parse_frame\<close> has one cause: the input holds an array header that announces a number of
  elements whose vector would exceed \<^verbatim>\<open>isize::MAX\<close> bytes.\<close>

theorem resp_panic_only_on_huge_array:
  assumes "finder_ok R" and "parse_frame R buf = ParsePanic"
  shows "\<exists>a ds n b. buf = a @ CHR ''*'' # ds @ crlf @ b \<and> parse_decimal ds = Inr n \<and> 2 ^ 63 \<le> size_of_Frame R * n"
proof -
  have "parse_frame_from_cursor R (Suc (length buf)) buf = Panic"
    using assms(2) by (auto simp: parse_frame_def simp del: parse_frame_from_cursor.simps split: step.splits)
  then have "huge_header R buf"
    by (rule parse_panic_only_capacity(1) [OF assms(1)])
  moreover have "2 ^ 63 \<le> x" if "\<not> x \<le> 2 ^ 63 - 1" for x :: nat
    using that by simp
  ultimately show ?thesis
    unfolding huge_header_def vec_capacity_ok_def by blast
qed

theorem resp_panic_only_on_huge_array_witness:
  "parse_frame std_resp (''*'' @ show_nat (2 ^ 60) @ crlf) = ParsePanic \<and>
   (\<exists>a ds n b. ''*'' @ show_nat (2 ^ 60) @ crlf = a @ CHR ''*'' # ds @ crlf @ b \<and> parse_decimal ds = Inr n \<and>
      2 ^ 63 \<le> size_of_Frame std_resp * n)"
proof -
  have "parse_frame std_resp (''*'' @ show_nat (2 ^ 60) @ crlf) = ParsePanic"
    using resp_huge_array_panics [OF std_resp_ok, of "2 ^ 60" "[]"] by (simp add: std_resp_def USIZE_MAX_def)
  with resp_panic_only_on_huge_array [OF std_resp_ok this] show ?thesis
    by blast
qed

end
