(* ===== verification/Command_Parser.thy ===== *)
theory Command_Parser
  imports Domain
begin

text \<open>
  From frames to commands: the argument extractors of \<^verbatim>\<open>src/src/parser/mod.rs\<close>, the
  \<^verbatim>\<open>Parser\<close> implementations of \<^verbatim>\<open>src/src/parser/*.rs\<close> and the dispatcher
  \<^verbatim>\<open>Command::try_from\<close> of \<^verbatim>\<open>src/src/core_exchange.rs\<close>.

  The iterator over the argument frames is the list of frames that are left;
  \<^verbatim>\<open>itor.next()\<close> is \<open>next_frame\<close> followed by \<open>tl\<close>. What the code takes from outside is the
  record \<open>ext\<close>: the Unicode tables behind \<^verbatim>\<open>String::to_uppercase\<close>, the decimal conversions
  of \<^verbatim>\<open>f64\<close>, the integer printer of the itoa crate and the size of \<^verbatim>\<open>String\<close>. Their documented behaviour is \<open>ext_ok\<close>.
\<close>

record ext =
  to_uppercase :: "string \<Rightarrow> string"
  f64_from_str :: "string \<Rightarrow> f64 option"
  f64_to_string :: "f64 \<Rightarrow> string"
  itoa_format :: "int \<Rightarrow> string"
  size_of_String :: nat

definition ext_ok :: "ext \<Rightarrow> bool" where
  "ext_ok E \<longleftrightarrow>
     (\<forall>s. is_ascii s \<longrightarrow> to_uppercase E s = ascii_upper s) \<and>
     (\<forall>x. \<not> f64_is_nan x \<longrightarrow> f64_from_str E (f64_to_string E x) = Some x) \<and>
     (\<forall>x. is_ascii (f64_to_string E x)) \<and>
     (\<forall>i. itoa_format E i = show_int i)"

definition protocol_msg :: "string \<Rightarrow> 'a kvres" where
  "protocol_msg t = Inl (ProtocolError (Msg t))"

definition protocol_zh :: "string \<Rightarrow> 'a kvres" where
  "protocol_zh t = Inl (ProtocolError (Zh t))"

section \<open>Argument extraction\<close>

definition next_frame :: "Frame list \<Rightarrow> Frame option" where
  "next_frame fs = (case fs of [] \<Rightarrow> None | f # _ \<Rightarrow> Some f)"

definition extract_bulk_string :: "Frame option \<Rightarrow> string kvres" where
  "extract_bulk_string frame =
     (case frame of
        Some (Bulk b) \<Rightarrow> if utf8_valid b then Inr b else Inl (ProtocolError Utf8Error)
      | _ \<Rightarrow> protocol_zh ''expected a bulk string argument'')"

definition extract_bulk_integer :: "Frame option \<Rightarrow> int kvres" where
  "extract_bulk_integer frame =
     res_bind (extract_bulk_string frame)
       (\<lambda>s. case parse_i64 s of Some i \<Rightarrow> Inr i | None \<Rightarrow> Inl (ProtocolError ParseIntError))"

definition extract_bulk_bytes :: "Frame option \<Rightarrow> bytes kvres" where
  "extract_bulk_bytes frame =
     (case frame of Some (Bulk b) \<Rightarrow> Inr b | _ \<Rightarrow> protocol_zh ''expected a bulk string argument'')"

text \<open>The idiom \<^verbatim>\<open>match iter.next() { Some(frame) => extract_bulk_string(Some(frame))?, None =>
  return Err(..) }\<close> of the JSON and sorted-set parsers.\<close>

definition required_string :: "string \<Rightarrow> Frame list \<Rightarrow> string kvres" where
  "required_string missing fs =
     (case next_frame fs of
        Some f \<Rightarrow> extract_bulk_string (Some f)
      | None \<Rightarrow> protocol_msg missing)"

section \<open>String commands\<close>

fun parse_set_options ::
  "Frame list \<Rightarrow> Expiration option \<Rightarrow> SetCondition option
     \<Rightarrow> (Expiration option \<times> SetCondition option) kvres" where
  "parse_set_options [] expiration condition = Inr (expiration, condition)"
| "parse_set_options (Bulk b # fs) expiration condition =
     (if eq_ignore_ascii_case b ''PX'' then
        (case fs of
           [] \<Rightarrow> protocol_zh ''PX needs a time argument''
         | t # fs' \<Rightarrow> res_bind (extract_bulk_integer (Some t)) (\<lambda>time.
             if time \<le> 0 then protocol_zh ''PX expire time must be positive''
             else parse_set_options fs' (Some (Exp_PX (word_of_int time))) condition))
      else if eq_ignore_ascii_case b ''EX'' then
        (case fs of
           [] \<Rightarrow> protocol_zh ''EX needs a time argument''
         | t # fs' \<Rightarrow> res_bind (extract_bulk_integer (Some t)) (\<lambda>time.
             if time \<le> 0 then protocol_zh ''EX expire time must be positive''
             else parse_set_options fs' (Some (Exp_EX (word_of_int time))) condition))
      else if eq_ignore_ascii_case b ''PXAT'' then
        (case fs of
           [] \<Rightarrow> protocol_zh ''PXAT needs a time argument''
         | t # fs' \<Rightarrow> res_bind (extract_bulk_integer (Some t)) (\<lambda>time.
             if time \<le> 0 then protocol_zh ''PXAT expire time must be positive''
             else parse_set_options fs' (Some (Exp_PXAT (word_of_int time))) condition))
      else if eq_ignore_ascii_case b ''EXAT'' then
        (case fs of
           [] \<Rightarrow> protocol_zh ''EXAT needs a time argument''
         | t # fs' \<Rightarrow> res_bind (extract_bulk_integer (Some t)) (\<lambda>time.
             if time \<le> 0 then protocol_zh ''EXAT expire time must be positive''
             else parse_set_options fs' (Some (Exp_EXAT (word_of_int time))) condition))
      else if eq_ignore_ascii_case b ''NX'' then
        (if condition \<noteq> None then protocol_zh ''only one of NX and XX''
         else parse_set_options fs expiration (Some NX))
      else if eq_ignore_ascii_case b ''XX'' then
        (if condition \<noteq> None then protocol_zh ''only one of NX and XX''
         else parse_set_options fs expiration (Some XX))
      else protocol_zh ''unknown argument'')"
| "parse_set_options (_ # fs) expiration condition = protocol_zh ''unknown argument''"

definition parse_set :: "Frame list \<Rightarrow> Command kvres" where
  "parse_set fs =
     res_bind (extract_bulk_string (next_frame fs)) (\<lambda>key.
     res_bind (extract_bulk_bytes (next_frame (tl fs))) (\<lambda>value.
     res_bind (parse_set_options (tl (tl fs)) None None) (\<lambda>(expiration, condition).
       Inr (Set key value expiration condition))))"

definition parse_get :: "Frame list \<Rightarrow> Command kvres" where
  "parse_get fs = res_bind (extract_bulk_string (next_frame fs)) (\<lambda>key. Inr (Get key))"

text \<open>\<^verbatim>\<open>while let Ok(key) = ..\<close>: the loop of MSET and MGET ends at the first frame that is not
  a bulk string of valid UTF-8, without an error.\<close>

fun parse_mset_pairs :: "Frame list \<Rightarrow> (key \<times> bytes) list kvres" where
  "parse_mset_pairs [] = Inr []"
| "parse_mset_pairs (f # fs) =
     (case extract_bulk_string (Some f) of
        Inl _ \<Rightarrow> Inr []
      | Inr key \<Rightarrow>
          (case fs of
             [] \<Rightarrow> protocol_zh ''mset value missing''
           | g # fs' \<Rightarrow>
               (case extract_bulk_bytes (Some g) of
                  Inl _ \<Rightarrow> protocol_zh ''mset value missing''
                | Inr value \<Rightarrow> res_bind (parse_mset_pairs fs') (\<lambda>ps. Inr ((key, value) # ps)))))"

definition parse_mset :: "Frame list \<Rightarrow> Command kvres" where
  "parse_mset fs =
     res_bind (parse_mset_pairs fs) (\<lambda>keys_and_values.
       if keys_and_values = [] then protocol_zh ''mset argument error''
       else Inr (MSet keys_and_values))"

fun parse_mget_keys :: "Frame list \<Rightarrow> key list" where
  "parse_mget_keys [] = []"
| "parse_mget_keys (f # fs) =
     (case extract_bulk_string (Some f) of Inl _ \<Rightarrow> [] | Inr key \<Rightarrow> key # parse_mget_keys fs)"

definition parse_mget :: "Frame list \<Rightarrow> Command kvres" where
  "parse_mget fs =
     (if parse_mget_keys fs = [] then protocol_zh ''mget argument error''
      else Inr (MGet (parse_mget_keys fs)))"

section \<open>List commands\<close>

definition parse_lpush :: "Frame list \<Rightarrow> Command kvres" where
  "parse_lpush fs =
     res_bind (extract_bulk_string (next_frame fs)) (\<lambda>key.
     res_bind (res_map (\<lambda>f. extract_bulk_bytes (Some f)) (tl fs)) (\<lambda>values.
       Inr (LPush key values)))"

definition parse_lpop :: "Frame list \<Rightarrow> Command kvres" where
  "parse_lpop fs = res_bind (extract_bulk_string (next_frame fs)) (\<lambda>key. Inr (LPop key))"

definition parse_blpop :: "Frame list \<Rightarrow> Command kvres" where
  "parse_blpop fs =
     res_bind (extract_bulk_string (next_frame fs)) (\<lambda>key.
     res_bind (extract_bulk_string (next_frame (tl fs))) (\<lambda>timeout_str.
       case parse_u64 timeout_str of
         None \<Rightarrow> protocol_msg ''Invalid timeout''
       | Some timeout \<Rightarrow> Inr (BLPop key (of_nat timeout))))"

section \<open>Hash commands\<close>

fun parse_field_values :: "Frame list \<Rightarrow> (string \<times> bytes) list kvres" where
  "parse_field_values [] = Inr []"
| "parse_field_values (f # fs) =
     res_bind (extract_bulk_string (Some f)) (\<lambda>field.
       case fs of
         [] \<Rightarrow> protocol_zh ''expected a bulk string argument''
       | g # fs' \<Rightarrow>
           res_bind (extract_bulk_bytes (Some g)) (\<lambda>value.
           res_bind (parse_field_values fs') (\<lambda>fvs. Inr ((field, value) # fvs))))"

definition parse_hset :: "Frame list \<Rightarrow> Command kvres" where
  "parse_hset fs =
     res_bind (extract_bulk_string (next_frame fs)) (\<lambda>key.
     res_bind (parse_field_values (tl fs)) (\<lambda>field_values. Inr (HSet key field_values)))"

definition parse_hget :: "Frame list \<Rightarrow> Command kvres" where
  "parse_hget fs =
     res_bind (extract_bulk_string (next_frame fs)) (\<lambda>key.
     res_bind (extract_bulk_string (next_frame (tl fs))) (\<lambda>field. Inr (HGet key field)))"

definition parse_hdel :: "Frame list \<Rightarrow> Command kvres" where
  "parse_hdel fs =
     res_bind (extract_bulk_string (next_frame fs)) (\<lambda>key.
     res_bind (res_map (\<lambda>f. extract_bulk_string (Some f)) (tl fs)) (\<lambda>fields.
       Inr (HDel key fields)))"

section \<open>JSON commands\<close>

definition parse_json_set :: "Frame list \<Rightarrow> Command kvres" where
  "parse_json_set fs =
     res_bind (required_string ''JSON.SET missing key'' fs) (\<lambda>key.
     res_bind (required_string ''JSON.SET missing path'' (tl fs)) (\<lambda>path.
     res_bind (required_string ''JSON.SET missing value'' (tl (tl fs))) (\<lambda>value.
       Inr (JsonSet key path value))))"

definition parse_json_get :: "Frame list \<Rightarrow> Command kvres" where
  "parse_json_get fs =
     res_bind (required_string ''JSON.GET missing key'' fs) (\<lambda>key.
     res_bind (required_string ''JSON.GET missing path'' (tl fs)) (\<lambda>path.
       Inr (JsonGet key path)))"

section \<open>Sorted-set commands\<close>

definition parse_zadd :: "ext \<Rightarrow> Frame list \<Rightarrow> Command kvres" where
  "parse_zadd E fs =
     res_bind (required_string ''ZADD missing key'' fs) (\<lambda>key.
     res_bind (required_string ''ZADD missing score'' (tl fs)) (\<lambda>score_str.
       case f64_from_str E score_str of
         None \<Rightarrow> protocol_msg ''ZADD score is not a valid float''
       | Some score \<Rightarrow>
           res_bind (required_string ''ZADD missing member'' (tl (tl fs))) (\<lambda>member.
             Inr (ZAdd key score member))))"

definition parse_zscore :: "Frame list \<Rightarrow> Command kvres" where
  "parse_zscore fs =
     res_bind (required_string ''ZSCORE missing key'' fs) (\<lambda>key.
     res_bind (required_string ''ZSCORE missing member'' (tl fs)) (\<lambda>member.
       Inr (ZScore key member)))"

definition parse_zrank :: "Frame list \<Rightarrow> Command kvres" where
  "parse_zrank fs =
     res_bind (required_string ''ZRANK missing key'' fs) (\<lambda>key.
     res_bind (required_string ''ZRANK missing member'' (tl fs)) (\<lambda>member.
       Inr (ZRank key member)))"

definition parse_zrange :: "Frame list \<Rightarrow> Command kvres" where
  "parse_zrange fs =
     res_bind (required_string ''ZRANGE missing key'' fs) (\<lambda>key.
     res_bind (required_string ''ZRANGE missing start'' (tl fs)) (\<lambda>start_str.
       case parse_i64 start_str of
         None \<Rightarrow> protocol_msg ''ZRANGE start must be integer''
       | Some start \<Rightarrow>
           res_bind (required_string ''ZRANGE missing stop'' (tl (tl fs))) (\<lambda>stop_str.
             case parse_i64 stop_str of
               None \<Rightarrow> protocol_msg ''ZRANGE stop must be integer''
             | Some stop \<Rightarrow> Inr (ZRange key start stop))))"

definition parse_zrem :: "Frame list \<Rightarrow> Command kvres" where
  "parse_zrem fs =
     res_bind (required_string ''ZREM missing key'' fs) (\<lambda>key.
     res_bind (required_string ''ZREM missing member'' (tl fs)) (\<lambda>member.
       Inr (ZRem key member)))"

section \<open>Connection and script commands\<close>

definition parse_ping :: "Frame list \<Rightarrow> Command kvres" where
  "parse_ping fs =
     (if length fs > 1 then protocol_zh ''PING takes at most one argument''
      else if length fs = 0 then Inr (Ping None)
      else res_bind (extract_bulk_string (next_frame fs)) (\<lambda>msg. Inr (Ping (Some msg))))"

definition parse_unimplement :: "Frame list \<Rightarrow> string \<Rightarrow> Command kvres" where
  "parse_unimplement fs command_name =
     res_bind
       (res_map (\<lambda>f. case f of Bulk b \<Rightarrow> Inr b
                             | _ \<Rightarrow> protocol_zh ''command arguments must be bulk strings'')
          (drop 1 fs))
       (\<lambda>args. Inr (Unimplemented command_name args))"

fun parse_eval_keys :: "nat \<Rightarrow> Frame list \<Rightarrow> (string list \<times> Frame list) kvres" where
  "parse_eval_keys 0 fs = Inr ([], fs)"
| "parse_eval_keys (Suc n) fs =
     (case fs of
        [] \<Rightarrow> protocol_msg ''Not enough keys provided''
      | f # fs' \<Rightarrow>
          res_bind (extract_bulk_string (Some f)) (\<lambda>k.
          res_bind (parse_eval_keys n fs') (\<lambda>(ks, rest). Inr (k # ks, rest))))"

text \<open>\<^verbatim>\<open>Vec::with_capacity(numkeys)\<close> reserves the number of keys the client announces before
  any key is read; beyond \<^verbatim>\<open>isize::MAX\<close> bytes it panics.\<close>

definition parse_eval :: "ext \<Rightarrow> Frame list \<Rightarrow> Command kvres" where
  "parse_eval E fs =
     res_bind (extract_bulk_string (next_frame fs)) (\<lambda>script.
     res_bind (extract_bulk_string (next_frame (tl fs))) (\<lambda>numkeys_str.
       case parse_usize numkeys_str of
         None \<Rightarrow> protocol_msg ''numkeys must be an integer''
       | Some numkeys \<Rightarrow>
           if 2 ^ 63 - 1 < size_of_String E * numkeys then Inl Panicked
           else
             res_bind (parse_eval_keys numkeys (tl (tl fs))) (\<lambda>(keys, rest).
             res_bind (res_map (\<lambda>f. extract_bulk_string (Some f)) rest) (\<lambda>args.
               Inr (Eval script keys args)))))"

section \<open>The dispatcher\<close>

definition dispatch :: "ext \<Rightarrow> string \<Rightarrow> nat \<Rightarrow> Frame list \<Rightarrow> Command kvres" where
  "dispatch E name len iter =
     (if name = ''GET'' then
        (if len \<noteq> 2 then protocol_zh ''GET needs 1 argument'' else parse_get iter)
      else if name = ''SET'' then
        (if len < 3 then protocol_msg ''frame is too short'' else parse_set iter)
      else if name = ''MSET'' then
        (if len < 3 \<or> len mod 2 = 0 then protocol_zh ''MSET argument error'' else parse_mset iter)
      else if name = ''MGET'' then
        (if len < 2 then protocol_zh ''MGET needs at least 1 argument'' else parse_mget iter)
      else if name = ''LPUSH'' then
        (if len < 3 then protocol_zh ''LPUSH needs at least 2 arguments'' else parse_lpush iter)
      else if name = ''LPOP'' then
        (if len \<noteq> 2 then protocol_zh ''LPOP needs 1 argument'' else parse_lpop iter)
      else if name = ''BLPOP'' then
        (if len \<noteq> 3 then protocol_zh ''BLPOP needs 2 arguments'' else parse_blpop iter)
      else if name = ''HSET'' then
        (if len < 4 \<or> len mod 2 \<noteq> 0 then protocol_zh ''HSET argument error'' else parse_hset iter)
      else if name = ''HGET'' then
        (if len \<noteq> 3 then protocol_zh ''HGET needs 2 arguments'' else parse_hget iter)
      else if name = ''HDEL'' then
        (if len < 3 then protocol_zh ''HDEL needs at least 2 arguments'' else parse_hdel iter)
      else if name = ''JSON.SET'' then
        (if len \<noteq> 4 then protocol_zh ''JSON.SET needs 3 arguments'' else parse_json_set iter)
      else if name = ''JSON.GET'' then
        (if len \<noteq> 3 then protocol_zh ''JSON.GET needs 2 arguments'' else parse_json_get iter)
      else if name = ''ZADD'' then
        (if len \<noteq> 4 then protocol_zh ''ZADD needs 3 arguments'' else parse_zadd E iter)
      else if name = ''ZSCORE'' then
        (if len \<noteq> 3 then protocol_zh ''ZSCORE needs 2 arguments'' else parse_zscore iter)
      else if name = ''ZRANK'' then
        (if len \<noteq> 3 then protocol_zh ''ZRANK needs 2 arguments'' else parse_zrank iter)
      else if name = ''ZRANGE'' then
        (if len \<noteq> 4 then protocol_zh ''ZRANGE needs 3 arguments'' else parse_zrange iter)
      else if name = ''ZREM'' then
        (if len \<noteq> 3 then protocol_zh ''ZREM needs 2 arguments'' else parse_zrem iter)
      else if name = ''PING'' then parse_ping iter
      else if name = ''MULTI'' then Inr Multi
      else if name = ''EXEC'' then Inr Exec
      else if name = ''EVAL'' then parse_eval E iter
      else parse_unimplement iter name)"

definition try_from :: "ext \<Rightarrow> Frame \<Rightarrow> Command kvres" where
  "try_from E frame =
     (case frame of
        Array frames \<Rightarrow>
          (case frames of
             [] \<Rightarrow> protocol_msg ''frame is empty''
           | Bulk start_str # iter \<Rightarrow>
               if \<not> utf8_valid start_str then protocol_msg ''zhuan huan yi chang ''
               else dispatch E (to_uppercase E start_str) (length frames) iter
           | _ \<Rightarrow> protocol_msg ''not a command'')
      | _ \<Rightarrow> protocol_msg ''must be a array from frame'')"

section \<open>Evaluation of the parsers on bulk strings\<close>

lemma next_frame_simps [simp]: "next_frame [] = None" "next_frame (f # fs) = Some f"
  by (simp_all add: next_frame_def)

lemma extract_bulk_string_Bulk [simp]:
  "utf8_valid b \<Longrightarrow> extract_bulk_string (Some (Bulk b)) = Inr b"
  by (simp add: extract_bulk_string_def)

lemma extract_bulk_string_Inr:
  "extract_bulk_string fo = Inr s \<longleftrightarrow> fo = Some (Bulk s) \<and> utf8_valid s"
  by (auto simp: extract_bulk_string_def protocol_zh_def split: option.splits Frame.splits if_splits)

lemma extract_bulk_bytes_Bulk [simp]: "extract_bulk_bytes (Some (Bulk b)) = Inr b"
  by (simp add: extract_bulk_bytes_def)

lemma extract_bulk_integer_Inr:
  "extract_bulk_integer fo = Inr i \<longleftrightarrow>
     (\<exists>s. fo = Some (Bulk s) \<and> utf8_valid s \<and> parse_i64 s = Some i)"
  by (auto simp: extract_bulk_integer_def extract_bulk_string_Inr res_bind_Inr_iff split: option.splits)

lemma required_string_Cons [simp]:
  "utf8_valid b \<Longrightarrow> required_string m (Bulk b # fs) = Inr b"
  by (simp add: required_string_def)

lemma required_string_Inr:
  "required_string m fs = Inr s \<longleftrightarrow> next_frame fs = Some (Bulk s) \<and> utf8_valid s"
  by (auto simp: required_string_def protocol_msg_def extract_bulk_string_Inr split: option.splits)

lemma protocol_not_Inr [simp]: "protocol_msg t \<noteq> Inr x" "protocol_zh t \<noteq> Inr x"
  by (simp_all add: protocol_msg_def protocol_zh_def)

lemma res_map_bytes [simp]:
  "res_map (\<lambda>f. extract_bulk_bytes (Some f)) (map Bulk vs) = Inr vs"
  by (induction vs) auto

lemma res_map_strings [simp]:
  "list_all utf8_valid vs \<Longrightarrow> res_map (\<lambda>f. extract_bulk_string (Some f)) (map Bulk vs) = Inr vs"
  by (induction vs) auto

definition pair_frames :: "(string \<times> bytes) list \<Rightarrow> Frame list" where
  "pair_frames kvs = concat (map (\<lambda>(k, v). [Bulk k, Bulk v]) kvs)"

lemma pair_frames_simps [simp]:
  "pair_frames [] = []"
  "pair_frames ((k, v) # kvs) = Bulk k # Bulk v # pair_frames kvs"
  "length (pair_frames kvs) = 2 * length kvs"
  by (simp_all add: pair_frames_def length_concat case_prod_unfold comp_def sum_list_triv)

lemma parse_mset_pairs_frames:
  "list_all (\<lambda>(k, v). utf8_valid k) kvs \<Longrightarrow> parse_mset_pairs (pair_frames kvs) = Inr kvs"
  by (induction kvs) auto

lemma parse_field_values_frames:
  "list_all (\<lambda>(k, v). utf8_valid k) kvs \<Longrightarrow> parse_field_values (pair_frames kvs) = Inr kvs"
  by (induction kvs) auto

lemma try_from_name:
  assumes "ext_ok E" and "is_ascii n" and "ascii_upper n = n"
  shows "try_from E (Array (Bulk n # args)) = dispatch E n (Suc (length args)) args"
  using assms by (simp add: try_from_def ext_ok_def ascii_utf8_valid)

lemma ascii_upper_Cons [simp]:
  "ascii_upper [] = []" "ascii_upper (c # s) = ascii_upper_char c # ascii_upper s"
  by (simp_all add: ascii_upper_def)

definition command_names :: "string list" where
  "command_names =
     [''GET'', ''SET'', ''MSET'', ''MGET'', ''LPUSH'', ''LPOP'', ''BLPOP'', ''HSET'', ''HGET'', ''HDEL'',
      ''JSON.SET'', ''JSON.GET'', ''ZADD'', ''ZSCORE'', ''ZRANK'', ''ZRANGE'', ''ZREM'', ''PING'',
      ''MULTI'', ''EXEC'', ''EVAL'']"

lemma command_names_all: "list_all (\<lambda>n. is_ascii n \<and> ascii_upper n = n) command_names"
  by code_simp

lemma try_from_command:
  assumes "ext_ok E" and "n \<in> set command_names"
  shows "try_from E (Array (Bulk n # args)) = dispatch E n (Suc (length args)) args"
  using try_from_name [OF assms(1)] assms(2) command_names_all by (auto simp: list_all_iff)

section \<open>What an accepted command satisfies\<close>

fun expiration_arg :: "Expiration \<Rightarrow> u64" where
  "expiration_arg (Exp_EX s) = s"
| "expiration_arg (Exp_PX ms) = ms"
| "expiration_arg (Exp_EXAT s) = s"
| "expiration_arg (Exp_PXAT ms) = ms"

definition expiration_in_range :: "Expiration \<Rightarrow> bool" where
  "expiration_in_range e \<longleftrightarrow> 0 < unat (expiration_arg e) \<and> unat (expiration_arg e) < 2 ^ 63"

text \<open>Keys, fields and paths are Rust \<^verbatim>\<open>String\<close>s, so they are valid UTF-8; the multi-valued
  commands have at least one value; an expiry is a positive \<^verbatim>\<open>i64\<close>.\<close>

fun command_ok :: "Command \<Rightarrow> bool" where
  "command_ok (Set k v e c) \<longleftrightarrow> utf8_valid k \<and> (\<forall>x. e = Some x \<longrightarrow> expiration_in_range x)"
| "command_ok (Get k) \<longleftrightarrow> utf8_valid k"
| "command_ok (LPush k vs) \<longleftrightarrow> utf8_valid k \<and> vs \<noteq> []"
| "command_ok (LPop k) \<longleftrightarrow> utf8_valid k"
| "command_ok (BLPop k t) \<longleftrightarrow> utf8_valid k"
| "command_ok (HSet k fvs) \<longleftrightarrow> utf8_valid k \<and> fvs \<noteq> [] \<and> list_all (\<lambda>(f, v). utf8_valid f) fvs"
| "command_ok (HGet k f) \<longleftrightarrow> utf8_valid k \<and> utf8_valid f"
| "command_ok (HDel k fs) \<longleftrightarrow> utf8_valid k \<and> fs \<noteq> [] \<and> list_all utf8_valid fs"
| "command_ok (MSet kvs) \<longleftrightarrow> kvs \<noteq> [] \<and> list_all (\<lambda>(k, v). utf8_valid k) kvs"
| "command_ok (MGet ks) \<longleftrightarrow> ks \<noteq> [] \<and> list_all utf8_valid ks"
| "command_ok (JsonSet k p v) \<longleftrightarrow> utf8_valid k \<and> utf8_valid p \<and> utf8_valid v"
| "command_ok (JsonGet k p) \<longleftrightarrow> utf8_valid k \<and> utf8_valid p"
| "command_ok (ZAdd k s m) \<longleftrightarrow> utf8_valid k \<and> utf8_valid m"
| "command_ok (ZScore k m) \<longleftrightarrow> utf8_valid k \<and> utf8_valid m"
| "command_ok (ZRank k m) \<longleftrightarrow> utf8_valid k \<and> utf8_valid m"
| "command_ok (ZRange k i j) \<longleftrightarrow> utf8_valid k"
| "command_ok (ZRem k m) \<longleftrightarrow> utf8_valid k \<and> utf8_valid m"
| "command_ok (Ping m) \<longleftrightarrow> (\<forall>x. m = Some x \<longrightarrow> utf8_valid x)"
| "command_ok (Eval s ks as) \<longleftrightarrow> utf8_valid s \<and> list_all utf8_valid ks \<and> list_all utf8_valid as"
| "command_ok (Unimplemented n as) \<longleftrightarrow> True"
| "command_ok Multi \<longleftrightarrow> True"
| "command_ok Exec \<longleftrightarrow> True"
| "command_ok (MultiGroup cs) \<longleftrightarrow> False"

lemma parse_signed_bound:
  assumes "parse_signed w s = Some i"
  shows "i < 2 ^ (w - 1)"
proof (cases "i < 0")
  case True
  also have "(0::int) < 2 ^ (w - 1)" by simp
  finally show ?thesis .
next
  case False
  with assms show ?thesis
    by (auto simp: parse_signed_def split: list.splits option.splits if_splits)
qed

lemma positive_i64_word:
  assumes "parse_i64 s = Some i" and "0 < i"
  shows "0 < unat (word_of_int i :: u64) \<and> unat (word_of_int i :: u64) < 2 ^ 63"
proof -
  have i: "i < 2 ^ 63" using parse_signed_bound [OF assms(1)] by simp
  then have "uint (word_of_int i :: u64) = i" using assms(2) by (simp add: word_of_int_inverse)
  then have "unat (word_of_int i :: u64) = nat i" by (simp add: unat_eq_nat_uint)
  with i assms(2) show ?thesis by (simp add: nat_less_iff)
qed

lemma extract_time_in_range:
  assumes "extract_bulk_integer fo = Inr i" and "\<not> i \<le> 0"
  shows "0 < unat (word_of_int i :: u64) \<and> unat (word_of_int i :: u64) < 2 ^ 63"
  using assms positive_i64_word by (auto simp: extract_bulk_integer_Inr)

lemma parse_set_options_ok:
  "parse_set_options fs e c = Inr (e', c') \<Longrightarrow> (\<forall>x. e = Some x \<longrightarrow> expiration_in_range x) \<Longrightarrow>
     (\<forall>x. e' = Some x \<longrightarrow> expiration_in_range x)"
proof (induction fs e c rule: parse_set_options.induct)
  case (2 b fs e c)
  have range: "\<forall>x. Some e1 = Some x \<longrightarrow> expiration_in_range x"
    if "extract_bulk_integer t = Inr i" "\<not> i \<le> 0" "expiration_arg e1 = word_of_int i" for t i e1
    using extract_time_in_range [OF that(1,2)] that(3) by (simp add: expiration_in_range_def)
  show ?case
  proof (cases fs)
    case Nil
    then show ?thesis using 2 by (auto split: if_splits)
  next
    case (Cons t fs')
    then show ?thesis
      using "2.prems" "2.IH"(1) [OF _ Cons _ _ _ range] "2.IH"(2) [OF _ _ Cons _ _ _ range]
        "2.IH"(3) [OF _ _ _ Cons _ _ _ range] "2.IH"(4) [OF _ _ _ _ Cons _ _ _ range]
        "2.IH"(5) "2.IH"(6)
      by (auto simp: res_bind_Inr_iff split: if_splits)
  qed
qed auto

lemma res_map_strings_ok:
  "res_map (\<lambda>f. extract_bulk_string (Some f)) fs = Inr vs \<Longrightarrow> list_all utf8_valid vs"
  by (induction fs arbitrary: vs) (auto simp: res_bind_Inr_iff extract_bulk_string_Inr)

lemma parse_mset_pairs_ok:
  "parse_mset_pairs fs = Inr kvs \<Longrightarrow> list_all (\<lambda>(k, v). utf8_valid k) kvs"
proof (induction fs arbitrary: kvs rule: parse_mset_pairs.induct)
  case (2 f fs)
  then show ?case
    by (auto simp: res_bind_Inr_iff extract_bulk_string_Inr split: sum.splits list.splits)
qed simp

lemma parse_mget_keys_ok: "list_all utf8_valid (parse_mget_keys fs)"
  by (induction fs) (auto simp: extract_bulk_string_Inr split: sum.splits)

lemma parse_field_values_ok:
  "parse_field_values fs = Inr kvs \<Longrightarrow>
     list_all (\<lambda>(k, v). utf8_valid k) kvs \<and> (fs \<noteq> [] \<longrightarrow> kvs \<noteq> [])"
proof (induction fs arbitrary: kvs rule: parse_field_values.induct)
  case (2 f fs)
  then show ?case
    by (cases fs) (auto simp: res_bind_Inr_iff extract_bulk_string_Inr)
qed simp

lemma parse_eval_keys_ok: "parse_eval_keys n fs = Inr (ks, rest) \<Longrightarrow> list_all utf8_valid ks"
  by (induction n arbitrary: fs ks)
    (auto simp: res_bind_Inr_iff extract_bulk_string_Inr protocol_msg_def split: list.splits)

lemmas inversion = res_bind_Inr_iff extract_bulk_string_Inr required_string_Inr

lemma parse_string_commands_ok:
  "parse_get fs = Inr c \<Longrightarrow> command_ok c"
  "parse_set fs = Inr c \<Longrightarrow> command_ok c"
  "parse_mset fs = Inr c \<Longrightarrow> command_ok c"
  "parse_mget fs = Inr c \<Longrightarrow> command_ok c"
  using parse_set_options_ok
  by (fastforce simp: parse_get_def parse_set_def parse_mset_def parse_mget_def inversion
      parse_mget_keys_ok dest: parse_mset_pairs_ok split: if_splits)+

lemma parse_list_commands_ok:
  "parse_lpush fs = Inr c \<Longrightarrow> 1 < length fs \<Longrightarrow> command_ok c"
  "parse_lpop fs = Inr c \<Longrightarrow> command_ok c"
  "parse_blpop fs = Inr c \<Longrightarrow> command_ok c"
  by (auto simp: parse_lpush_def parse_lpop_def parse_blpop_def inversion
      dest!: res_map_length split: option.splits)

lemma parse_hash_commands_ok:
  "parse_hset fs = Inr c \<Longrightarrow> 1 < length fs \<Longrightarrow> command_ok c"
  "parse_hget fs = Inr c \<Longrightarrow> command_ok c"
  "parse_hdel fs = Inr c \<Longrightarrow> 1 < length fs \<Longrightarrow> command_ok c"
proof -
  show "parse_hset fs = Inr c \<Longrightarrow> 1 < length fs \<Longrightarrow> command_ok c"
    by (cases fs) (auto simp: parse_hset_def inversion dest!: parse_field_values_ok)
  show "parse_hget fs = Inr c \<Longrightarrow> command_ok c"
    by (auto simp: parse_hget_def inversion)
  show "parse_hdel fs = Inr c \<Longrightarrow> 1 < length fs \<Longrightarrow> command_ok c"
    using res_map_length [of "\<lambda>f. extract_bulk_string (Some f)" "tl fs"]
    by (fastforce simp: parse_hdel_def inversion dest: res_map_strings_ok)
qed

lemma parse_json_zset_commands_ok:
  "parse_json_set fs = Inr c \<Longrightarrow> command_ok c"
  "parse_json_get fs = Inr c \<Longrightarrow> command_ok c"
  "parse_zadd E fs = Inr c \<Longrightarrow> command_ok c"
  "parse_zscore fs = Inr c \<Longrightarrow> command_ok c"
  "parse_zrank fs = Inr c \<Longrightarrow> command_ok c"
  "parse_zrange fs = Inr c \<Longrightarrow> command_ok c"
  "parse_zrem fs = Inr c \<Longrightarrow> command_ok c"
  by (auto simp: parse_json_set_def parse_json_get_def parse_zadd_def parse_zscore_def
      parse_zrank_def parse_zrange_def parse_zrem_def inversion split: option.splits)

lemma parse_eval_ok:
  assumes "parse_eval E fs = Inr c"
  shows "command_ok c"
proof -
  obtain s n where s: "extract_bulk_string (next_frame fs) = Inr s"
    and n: "extract_bulk_string (next_frame (tl fs)) = Inr n"
    using assms by (auto simp: parse_eval_def res_bind_Inr_iff)
  then show ?thesis
    using assms by (auto simp: parse_eval_def inversion dest: parse_eval_keys_ok res_map_strings_ok
        split: option.splits if_splits)
qed

lemma parse_other_commands_ok:
  "parse_ping fs = Inr c \<Longrightarrow> command_ok c"
  "parse_eval E fs = Inr c \<Longrightarrow> command_ok c"
  "parse_unimplement fs n = Inr c \<Longrightarrow> command_ok c"
  by (auto simp: parse_ping_def parse_unimplement_def inversion parse_eval_ok split: if_splits)

lemmas parsers_ok = parse_string_commands_ok parse_list_commands_ok parse_hash_commands_ok
  parse_json_zset_commands_ok parse_other_commands_ok

lemma dispatch_ok:
  "dispatch E name (Suc (length iter)) iter = Inr c \<Longrightarrow> command_ok c"
  by (auto simp: dispatch_def parsers_ok split: if_splits)

lemma try_from_cases:
  assumes "try_from E f = Inr c"
  obtains n iter where "f = Array (Bulk n # iter)" "utf8_valid n"
    "dispatch E (to_uppercase E n) (Suc (length iter)) iter = Inr c"
  using assms by (auto simp: try_from_def split: Frame.splits list.splits if_splits)

lemma try_from_ok: "try_from E f = Inr c \<Longrightarrow> command_ok c"
  by (erule try_from_cases) (rule dispatch_ok)

text \<open>A concrete environment that meets the contract (scores are written as their bit pattern).\<close>

definition demo_ext :: ext where
  "demo_ext = \<lparr>to_uppercase = ascii_upper,
     f64_from_str = (\<lambda>s. map_option of_nat (parse_u64 s)), f64_to_string = (\<lambda>x. show_nat (unat x)),
     itoa_format = show_int, size_of_String = 24\<rparr>"

lemma demo_ext_ok: "ext_ok demo_ext"
  by (simp add: ext_ok_def demo_ext_def parse_unsigned_show_nat unsigned_less [where 'b = 64, simplified])

section \<open>Properties\<close>

text \<open>Property C24: every command the dispatcher accepts is well formed: its key, fields, paths
  and members are valid UTF-8, multi-valued commands carry at least one value, an expiry is
  positive and below \<^verbatim>\<open>2^63\<close>, and no client can submit a \<^verbatim>\<open>MultiGroup\<close>.\<close>

theorem try_from_wellformed:
  assumes "try_from E f = Inr c"
  shows "command_ok c"
  by (rule try_from_ok [OF assms])

theorem try_from_wellformed_witness:
  "\<exists>c. try_from demo_ext (Array [Bulk ''hset'', Bulk ''k'', Bulk ''f'', Bulk ''v'']) = Inr c \<and> c = HSet ''k'' [(''f'', ''v'')] \<and> command_ok c"
proof -
  have parsed: "try_from demo_ext (Array [Bulk ''hset'', Bulk ''k'', Bulk ''f'', Bulk ''v'']) = Inr (HSet ''k'' [(''f'', ''v'')])"
    by code_simp
  show ?thesis
    using parsed try_from_wellformed [OF parsed] by blast
qed

end
