(* ===== verification/Aof_Encoder.thy ===== *)
theory Aof_Encoder
  imports Resp Command_Parser
begin

text \<open>
  The append-only-file encoding of write commands: \<^verbatim>\<open>src/src/aof_encoder/*.rs\<close>.

  \<^verbatim>\<open>encode_aof_command\<close> sends byte messages down a channel; the model returns the list of
  messages. \<open>now\<close> is the cached clock \<^verbatim>\<open>get_cached_time_ms()\<close>; additions and products of
  times are \<^verbatim>\<open>u64\<close> operations of a release build, so they wrap around.
\<close>

section \<open>Encoders\<close>

definition parse_int_from_bytes_u64 :: "ext \<Rightarrow> u64 \<Rightarrow> bytes" where
  "parse_int_from_bytes_u64 E i = itoa_format E (uint i)"

definition exchange_absolute_time :: "ext \<Rightarrow> u64 \<Rightarrow> u64 \<Rightarrow> bytes" where
  "exchange_absolute_time E now expire_time = parse_int_from_bytes_u64 E (now + expire_time)"

definition encode_set :: "ext \<Rightarrow> u64 \<Rightarrow> key \<Rightarrow> bytes \<Rightarrow> Expiration option \<Rightarrow> bytes" where
  "encode_set E now k value expiration =
     serialize (Array ([Bulk ''SET'', Bulk k, Bulk value] @
       (case expiration of
          None \<Rightarrow> []
        | Some (Exp_EX s) \<Rightarrow> [Bulk ''EXAT'', Bulk (exchange_absolute_time E now (s * 1000))]
        | Some (Exp_PX ms) \<Rightarrow> [Bulk ''PXAT'', Bulk (exchange_absolute_time E now ms)]
        | Some (Exp_EXAT s) \<Rightarrow> [Bulk ''EXAT'', Bulk (parse_int_from_bytes_u64 E s)]
        | Some (Exp_PXAT ms) \<Rightarrow> [Bulk ''PXAT'', Bulk (parse_int_from_bytes_u64 E ms)])))"

definition encode_mset :: "(key \<times> bytes) list \<Rightarrow> bytes" where
  "encode_mset keys_and_values =
     serialize (Array ([Bulk ''MSET''] @
       concat (map (\<lambda>(k, val). [Bulk k, Bulk val]) keys_and_values)))"

definition encode_lpush :: "key \<Rightarrow> bytes list \<Rightarrow> bytes" where
  "encode_lpush k values = serialize (Array ([Bulk ''LPUSH'', Bulk k] @ map Bulk values))"

definition encode_lpop :: "key \<Rightarrow> bytes" where
  "encode_lpop k = serialize (Array [Bulk ''LPOP'', Bulk k])"

text \<open>HSET and HDEL are written byte by byte instead of through \<^verbatim>\<open>Frame::serialize\<close>.\<close>

definition encode_hset :: "key \<Rightarrow> (string \<times> bytes) list \<Rightarrow> bytes" where
  "encode_hset k field_values =
     ''*'' @ show_nat (2 + length field_values * 2) @ crlf @ ''$4'' @ crlf @ ''HSET'' @ crlf @
     ''$'' @ show_nat (length k) @ crlf @ k @ crlf @
     concat (map (\<lambda>(field, val).
       ''$'' @ show_nat (length field) @ crlf @ field @ crlf @
       ''$'' @ show_nat (length val) @ crlf @ val @ crlf) field_values)"

definition encode_hdel :: "key \<Rightarrow> string list \<Rightarrow> bytes" where
  "encode_hdel k fds =
     ''*'' @ show_nat (2 + length fds) @ crlf @ ''$4'' @ crlf @ ''HDEL'' @ crlf @
     ''$'' @ show_nat (length k) @ crlf @ k @ crlf @
     concat (map (\<lambda>field. ''$'' @ show_nat (length field) @ crlf @ field @ crlf) fds)"

definition encode_json_set :: "key \<Rightarrow> string \<Rightarrow> string \<Rightarrow> bytes" where
  "encode_json_set k path value =
     serialize (Array [Bulk ''JSON.SET'', Bulk k, Bulk path, Bulk value])"

definition encode_zadd :: "ext \<Rightarrow> key \<Rightarrow> f64 \<Rightarrow> bytes \<Rightarrow> bytes" where
  "encode_zadd E k score member =
     serialize (Array [Bulk ''ZADD'', Bulk k, Bulk (f64_to_string E score), Bulk member])"

definition encode_zrem :: "key \<Rightarrow> bytes \<Rightarrow> bytes" where
  "encode_zrem k member = serialize (Array [Bulk ''ZREM'', Bulk k, Bulk member])"

definition encode_multi :: bytes where
  "encode_multi = serialize (Array [Bulk ''MULTI''])"

definition encode_exec :: bytes where
  "encode_exec = serialize (Array [Bulk ''EXEC''])"

text \<open>One command inside a transaction group; every other command is skipped.\<close>

fun encode_group_member :: "ext \<Rightarrow> u64 \<Rightarrow> Command \<Rightarrow> bytes" where
  "encode_group_member E now (Set k v e c) = encode_set E now k v e"
| "encode_group_member E now (LPush k vs) = encode_lpush k vs"
| "encode_group_member E now (LPop k) = encode_lpop k"
| "encode_group_member E now (HSet k fvs) = encode_hset k fvs"
| "encode_group_member E now (HDel k fs) = encode_hdel k fs"
| "encode_group_member E now (MSet kvs) = encode_mset kvs"
| "encode_group_member E now (JsonSet k p v) = encode_json_set k p v"
| "encode_group_member E now (ZAdd k s m) = encode_zadd E k s m"
| "encode_group_member E now (ZRem k m) = encode_zrem k m"
| "encode_group_member E now _ = []"

fun encode_aof_command :: "ext \<Rightarrow> u64 \<Rightarrow> Command \<Rightarrow> bytes list" where
  "encode_aof_command E now (Set k v e c) = [encode_set E now k v e]"
| "encode_aof_command E now (LPush k vs) = [encode_lpush k vs]"
| "encode_aof_command E now (LPop k) = [encode_lpop k]"
| "encode_aof_command E now (BLPop k t) = []"
| "encode_aof_command E now (HSet k fvs) = [encode_hset k fvs]"
| "encode_aof_command E now (HDel k fs) = [encode_hdel k fs]"
| "encode_aof_command E now (JsonSet k p v) = [encode_json_set k p v]"
| "encode_aof_command E now (ZAdd k s m) = [encode_zadd E k s m]"
| "encode_aof_command E now (ZRem k m) = [encode_zrem k m]"
| "encode_aof_command E now (Get k) = []"
| "encode_aof_command E now (HGet k f) = []"
| "encode_aof_command E now (JsonGet k p) = []"
| "encode_aof_command E now (ZScore k m) = []"
| "encode_aof_command E now (ZRank k m) = []"
| "encode_aof_command E now (ZRange k i j) = []"
| "encode_aof_command E now (Ping v) = []"
| "encode_aof_command E now (Unimplemented n as) = []"
| "encode_aof_command E now (MGet ks) = []"
| "encode_aof_command E now (Eval s ks as) = []"
| "encode_aof_command E now Multi = [encode_multi]"
| "encode_aof_command E now Exec = [encode_exec]"
| "encode_aof_command E now (MultiGroup cmds) =
     [encode_multi @ concat (map (encode_group_member E now) cmds) @ encode_exec]"
| "encode_aof_command E now (MSet kvs) = [encode_mset kvs]"

text \<open>The expiry a SET stores: \<^verbatim>\<open>calculate_expiration_timestamp_ms\<close> of
  \<^verbatim>\<open>src/src/executor/mod.rs\<close>.\<close>

definition saturating_mul_u64 :: "u64 \<Rightarrow> nat \<Rightarrow> u64" where
  "saturating_mul_u64 x n = (if unat x * n < 2 ^ 64 then of_nat (unat x * n) else of_nat (2 ^ 64 - 1))"

fun calculate_expiration_timestamp_ms :: "u64 \<Rightarrow> Expiration \<Rightarrow> u64" where
  "calculate_expiration_timestamp_ms now (Exp_PX ms) = now + ms"
| "calculate_expiration_timestamp_ms now (Exp_EX s) = now + s * 1000"
| "calculate_expiration_timestamp_ms now (Exp_EXAT s) = saturating_mul_u64 s 1000"
| "calculate_expiration_timestamp_ms now (Exp_PXAT ms) = ms"

section \<open>What is logged\<close>

text \<open>The command that the log entry of a write command denotes: relative expiries have become
  absolute, NX and XX have been dropped. Commands with no entry have none.\<close>

fun logged_expiration :: "u64 \<Rightarrow> Expiration \<Rightarrow> Expiration" where
  "logged_expiration now (Exp_EX s) = Exp_EXAT (now + s * 1000)"
| "logged_expiration now (Exp_PX ms) = Exp_PXAT (now + ms)"
| "logged_expiration now (Exp_EXAT s) = Exp_EXAT s"
| "logged_expiration now (Exp_PXAT ms) = Exp_PXAT ms"

fun logged :: "u64 \<Rightarrow> Command \<Rightarrow> Command option" where
  "logged now (Set k v e c) = Some (Set k v (map_option (logged_expiration now) e) None)"
| "logged now (LPush k vs) = Some (LPush k vs)"
| "logged now (LPop k) = Some (LPop k)"
| "logged now (HSet k fvs) = Some (HSet k fvs)"
| "logged now (HDel k fs) = Some (HDel k fs)"
| "logged now (MSet kvs) = Some (MSet kvs)"
| "logged now (JsonSet k p v) = Some (JsonSet k p v)"
| "logged now (ZAdd k s m) = Some (ZAdd k s m)"
| "logged now (ZRem k m) = Some (ZRem k m)"
| "logged now _ = None"

text \<open>The time argument that reaches the log must read back as a positive \<^verbatim>\<open>i64\<close>.\<close>

definition expiration_loggable :: "u64 \<Rightarrow> Expiration \<Rightarrow> bool" where
  "expiration_loggable now e \<longleftrightarrow>
     0 < unat (expiration_arg (logged_expiration now e)) \<and>
     unat (expiration_arg (logged_expiration now e)) < 2 ^ 63"

text \<open>What the command parser guarantees of a write command, and what the log needs of it.\<close>

fun loggable :: "u64 \<Rightarrow> Command \<Rightarrow> bool" where
  "loggable now (Set k v e c) \<longleftrightarrow> utf8_valid k \<and> (\<forall>x. e = Some x \<longrightarrow> expiration_loggable now x)"
| "loggable now (LPush k vs) \<longleftrightarrow> utf8_valid k \<and> vs \<noteq> []"
| "loggable now (LPop k) \<longleftrightarrow> utf8_valid k"
| "loggable now (HSet k fvs) \<longleftrightarrow> utf8_valid k \<and> fvs \<noteq> [] \<and> list_all (\<lambda>(f, v). utf8_valid f) fvs"
| "loggable now (HDel k fs) \<longleftrightarrow> utf8_valid k \<and> fs \<noteq> [] \<and> list_all utf8_valid fs"
| "loggable now (MSet kvs) \<longleftrightarrow> kvs \<noteq> [] \<and> list_all (\<lambda>(k, v). utf8_valid k) kvs"
| "loggable now (JsonSet k p v) \<longleftrightarrow> utf8_valid k \<and> utf8_valid p \<and> utf8_valid v"
| "loggable now (ZAdd k s m) \<longleftrightarrow> utf8_valid k \<and> \<not> f64_is_nan s \<and> utf8_valid m"
| "loggable now (ZRem k m) \<longleftrightarrow> utf8_valid k \<and> utf8_valid m"
| "loggable now _ \<longleftrightarrow> False"

lemma unat_saturating_mul: "unat (saturating_mul_u64 x n) = min (unat x * n) (2 ^ 64 - 1)"
  by (simp add: saturating_mul_u64_def unat_of_nat del: of_nat_mult)

section \<open>Log entries as frames\<close>

fun expiration_frames :: "ext \<Rightarrow> Expiration \<Rightarrow> Frame list" where
  "expiration_frames E (Exp_EXAT s) = [Bulk ''EXAT'', Bulk (itoa_format E (uint s))]"
| "expiration_frames E (Exp_PXAT s) = [Bulk ''PXAT'', Bulk (itoa_format E (uint s))]"
| "expiration_frames E _ = []"

fun command_frame :: "ext \<Rightarrow> Command \<Rightarrow> Frame" where
  "command_frame E (Set k v e c) =
     Array ([Bulk ''SET'', Bulk k, Bulk v] @ (case e of None \<Rightarrow> [] | Some x \<Rightarrow> expiration_frames E x))"
| "command_frame E (LPush k vs) = Array ([Bulk ''LPUSH'', Bulk k] @ map Bulk vs)"
| "command_frame E (LPop k) = Array [Bulk ''LPOP'', Bulk k]"
| "command_frame E (HSet k fvs) = Array ([Bulk ''HSET'', Bulk k] @ pair_frames fvs)"
| "command_frame E (HDel k fs) = Array ([Bulk ''HDEL'', Bulk k] @ map Bulk fs)"
| "command_frame E (MSet kvs) = Array (Bulk ''MSET'' # pair_frames kvs)"
| "command_frame E (JsonSet k p v) = Array [Bulk ''JSON.SET'', Bulk k, Bulk p, Bulk v]"
| "command_frame E (ZAdd k s m) = Array [Bulk ''ZADD'', Bulk k, Bulk (f64_to_string E s), Bulk m]"
| "command_frame E (ZRem k m) = Array [Bulk ''ZREM'', Bulk k, Bulk m]"
| "command_frame E _ = Null"

lemma show_nat_4: "show_nat (Suc (Suc (Suc (Suc 0)))) = ''4''"
  by code_simp

lemma encode_hset_serialize:
  "encode_hset k fvs = serialize (Array ([Bulk ''HSET'', Bulk k] @ pair_frames fvs))"
proof -
  have "concat (map serialize (pair_frames fvs)) =
      concat (map (\<lambda>(field, val).
         ''$'' @ show_nat (length field) @ crlf @ field @ crlf @
         ''$'' @ show_nat (length val) @ crlf @ val @ crlf) fvs)"
    by (induction fvs) auto
  then show ?thesis by (simp add: encode_hset_def mult.commute show_nat_4)
qed

lemma encode_hdel_serialize:
  "encode_hdel k fs = serialize (Array ([Bulk ''HDEL'', Bulk k] @ map Bulk fs))"
proof -
  have "concat (map serialize (map Bulk fs)) =
      concat (map (\<lambda>field. ''$'' @ show_nat (length field) @ crlf @ field @ crlf) fs)"
    by (induction fs) auto
  then show ?thesis by (simp add: encode_hdel_def show_nat_4)
qed

lemmas encoder_defs = encode_set_def encode_mset_def encode_lpush_def encode_lpop_def
  encode_json_set_def encode_zadd_def encode_zrem_def exchange_absolute_time_def
  parse_int_from_bytes_u64_def encode_hset_serialize encode_hdel_serialize

lemma encode_log_frame:
  assumes "logged now c = Some c'"
  shows "encode_aof_command E now c = [serialize (command_frame E c')]"
    and "encode_group_member E now c = serialize (command_frame E c')"
  using assms
  by (cases c; auto simp: encoder_defs pair_frames_def split: option.splits Expiration.splits)+

section \<open>Reading a log entry back\<close>

lemma parse_time_word:
  assumes "ext_ok E" and "0 < unat t" and "unat t < 2 ^ 63"
  shows "extract_bulk_integer (Some (Bulk (itoa_format E (uint t)))) = Inr (uint t)" and "0 < uint t"
proof -
  have u: "int (unat t) = uint t" by simp
  have "int 0 < int (unat t)" "int (unat t) < int (2 ^ 63)"
    using assms(2,3) by (simp_all only: of_nat_less_iff)
  then have bnd: "0 < uint t" "uint t < 2 ^ 63" unfolding u by simp_all
  then have "parse_i64 (show_int (uint t)) = Some (uint t)"
    by (intro parse_signed_show_int) simp_all
  moreover have "itoa_format E (uint t) = show_int (uint t)" using assms(1) by (simp add: ext_ok_def)
  moreover have "utf8_valid (show_int (uint t))" using bnd by (simp add: show_int_def)
  ultimately show "extract_bulk_integer (Some (Bulk (itoa_format E (uint t)))) = Inr (uint t)"
    by (simp add: extract_bulk_integer_def)
  show "0 < uint t" by (rule bnd)
qed

lemma option_keywords [simp]:
  "eq_ignore_ascii_case ''EXAT'' ''EXAT''" "\<not> eq_ignore_ascii_case ''EXAT'' ''PX''"
  "\<not> eq_ignore_ascii_case ''EXAT'' ''EX''" "\<not> eq_ignore_ascii_case ''EXAT'' ''PXAT''"
  "eq_ignore_ascii_case ''PXAT'' ''PXAT''" "\<not> eq_ignore_ascii_case ''PXAT'' ''PX''"
  "\<not> eq_ignore_ascii_case ''PXAT'' ''EX''"
  by code_simp+

lemma parse_options_absolute:
  assumes "ext_ok E" and "0 < unat t" and "unat t < 2 ^ 63"
  shows "parse_set_options (expiration_frames E (Exp_EXAT t)) None None = Inr (Some (Exp_EXAT t), None)"
    and "parse_set_options (expiration_frames E (Exp_PXAT t)) None None = Inr (Some (Exp_PXAT t), None)"
  using parse_time_word [OF assms] by simp_all

lemma parse_options_logged:
  assumes "ext_ok E" and "expiration_loggable now x"
  shows "parse_set_options (expiration_frames E (logged_expiration now x)) None None
    = Inr (Some (logged_expiration now x), None)"
  using assms(2) parse_options_absolute [OF assms(1)]
  by (cases x) (simp_all add: expiration_loggable_def del: expiration_frames.simps)

lemmas log_entry_simps = try_from_command dispatch_def command_names_def

lemma try_from_command_frame:
  assumes E: "ext_ok E" and c: "loggable now c"
  shows "\<exists>c'. logged now c = Some c' \<and> try_from E (command_frame E c') = Inr c'"
proof (cases c)
  case (Set k v e cnd)
  then show ?thesis
    using c parse_options_logged [OF E, of now]
    by (cases e) (auto simp: log_entry_simps E parse_set_def)
next
  case (ZAdd k s m)
  have "f64_from_str E (f64_to_string E s) = Some s" "utf8_valid (f64_to_string E s)"
    using E c ZAdd by (auto simp: ext_ok_def ascii_utf8_valid)
  with ZAdd c show ?thesis by (simp add: log_entry_simps E parse_zadd_def)
next
  case (HSet k fvs)
  then show ?thesis
    using c by (cases fvs) (auto simp: log_entry_simps E parse_hset_def
        parse_field_values_frames)
next
  case (MSet kvs)
  then show ?thesis
    using c by (cases kvs) (auto simp: log_entry_simps E parse_mset_def
        parse_mset_pairs_frames)
next
  case (LPush k vs)
  then show ?thesis using c by (cases vs) (auto simp: log_entry_simps E parse_lpush_def)
next
  case (HDel k fs)
  then show ?thesis using c by (cases fs) (auto simp: log_entry_simps E parse_hdel_def)
qed (use c in \<open>auto simp: log_entry_simps E parse_lpop_def parse_json_set_def
      parse_zrem_def\<close>)

text \<open>The only things a well-formed write command can lose in the log: an absolute expiry that
  does not fit \<^verbatim>\<open>i64\<close>, and a NaN score.\<close>

fun log_survives :: "u64 \<Rightarrow> Command \<Rightarrow> bool" where
  "log_survives now (Set k v (Some e) c) \<longleftrightarrow> expiration_loggable now e"
| "log_survives now (ZAdd k s m) \<longleftrightarrow> \<not> f64_is_nan s"
| "log_survives now _ \<longleftrightarrow> True"

lemma accepted_loggable:
  "command_ok c \<Longrightarrow> logged now c = Some c' \<Longrightarrow> log_survives now c \<Longrightarrow> loggable now c"
  by (cases c) (auto split: option.splits)

text \<open>A stream of encoded commands, as a log file or a connection carries it: the frames \<open>fs\<close> stand for the
  commands \<open>cs\<close>.\<close>

definition log_of :: "resp_env \<Rightarrow> ext \<Rightarrow> Frame list \<Rightarrow> Command list \<Rightarrow> bool" where
  "log_of R E fs cs \<longleftrightarrow> list_all2 (\<lambda>f c. request_frame R f \<and> try_from E f = Inr c) fs cs"

lemma log_of_simps [simp]:
  "log_of R E [] cs \<longleftrightarrow> cs = []"
  "log_of R E (f # fs) cs \<longleftrightarrow> (\<exists>c cs'. cs = c # cs' \<and> request_frame R f \<and> try_from E f = Inr c \<and> log_of R E fs cs')"
  "log_of R E fs cs \<Longrightarrow> log_of R E gs ds \<Longrightarrow> log_of R E (fs @ gs) (cs @ ds)"
  by (auto simp: log_of_def list_all2_Cons1 intro: list_all2_appendI)

abbreviation wire :: "Frame list \<Rightarrow> bytes" where
  "wire fs \<equiv> concat (map serialize fs)"

lemma serialize_nonempty [simp]: "serialize f \<noteq> []"
  by (cases f) auto

section \<open>Properties\<close>

text \<open>Property C21: the append-only file is faithful. A write command accepted from a client is
  logged as exactly one message; the RESP parser reads that message back whatever follows
  it, and the command parser turns it into the command the log entry denotes. The side
  conditions are that the entry fits the address space, that an absolute expiry fits
  \<^verbatim>\<open>i64\<close> and that a score is not NaN.\<close>

theorem aof_roundtrip:
  assumes "ext_ok E" and "finder_ok R" and "try_from E f = Inr c" and "logged now c = Some c'"
    and "log_survives now c" and "request_frame R (command_frame E c')"
  shows "\<exists>m. encode_aof_command E now c = [m] \<and>
    parse_frame R (m @ rest) = ParsedFrame (command_frame E c') (length m) \<and>
    try_from E (command_frame E c') = Inr c'"
proof -
  have "loggable now c" using accepted_loggable [OF try_from_ok [OF assms(3)] assms(4,5)] .
  then have "try_from E (command_frame E c') = Inr c'"
    using try_from_command_frame [OF assms(1)] assms(4) by fastforce
  then show ?thesis
    using encode_log_frame(1) [OF assms(4)] parse_frame_serialize [OF assms(2,6)] by blast
qed

theorem aof_roundtrip_witness:
  "\<exists>m. encode_aof_command demo_ext 5 (LPush ''k'' [''a'']) = [m] \<and>
    parse_frame std_resp (m @ ''x'') = ParsedFrame (command_frame demo_ext (LPush ''k'' [''a''])) (length m) \<and>
    try_from demo_ext (command_frame demo_ext (LPush ''k'' [''a''])) = Inr (LPush ''k'' [''a''])"
proof (rule aof_roundtrip [OF demo_ext_ok std_resp_ok])
  show "try_from demo_ext (Array [Bulk ''lpush'', Bulk ''k'', Bulk ''a'']) = Inr (LPush ''k'' [''a''])"
    by code_simp
  show "request_frame std_resp (command_frame demo_ext (LPush ''k'' [''a'']))"
    by (simp add: std_resp_def vec_capacity_ok_def USIZE_MAX_def)
qed simp_all

text \<open>An accepted SET can produce a log entry that recovery rejects: when the absolute expiry of a PX
  command reaches \<^verbatim>\<open>2^63\<close>, the entry is written but cannot be parsed back.\<close>

lemma aof_px_unreadable:
  assumes "ext_ok E" and "utf8_valid k" and "2 ^ 63 \<le> unat (now + ms)"
  shows "encode_aof_command E now (Set k v (Some (Exp_PX ms)) c) =
      [serialize (command_frame E (Set k v (Some (Exp_PXAT (now + ms))) None))] \<and>
    try_from E (command_frame E (Set k v (Some (Exp_PXAT (now + ms))) None)) =
      Inl (ProtocolError ParseIntError)"
proof -
  let ?t = "now + ms"
  have itoa: "itoa_format E (uint ?t) = show_nat (unat ?t)"
    using assms(1) by (simp add: ext_ok_def show_int_def)
  obtain d ds where ds: "show_nat (unat ?t) = d # ds" "is_digit d" using show_nat_hd by blast
  then have "parse_i64 (show_nat (unat ?t)) = None"
    using parse_digits_show_nat [of "unat ?t"] digit_not_sign [OF ds(2)] assms(3)
    by (simp add: parse_signed_def)
  then have "extract_bulk_integer (Some (Bulk (itoa_format E (uint ?t)))) = Inl (ProtocolError ParseIntError)"
    by (simp add: extract_bulk_integer_def itoa)
  then show ?thesis
    using assms(1,2) encode_log_frame(1) [of now "Set k v (Some (Exp_PX ms)) c"]
    by (simp add: log_entry_simps parse_set_def)
qed

end
