(* ===== verification/Executors.thy ===== *)
theory Executors
  imports Locked_Db Aof_Encoder
begin

text \<open>
  The executors of \<^verbatim>\<open>src/src/executor\<close> on one locked shard: what a command does between taking the
  lock of its key and releasing it, with the reply and the commands it hands to \<^verbatim>\<open>send_aof\<close>.
  \<open>None\<close> is a panic. Everything the code calls outside the repository, the integer parser of
  lexical-core, serde_json, the hash of fxhash and the random draws of the skip list, is a field of
  the record \<open>env\<close>, beside the runtime readings \<open>rt\<close> and the configured number of shards.
\<close>

record 'j env =
  ext_of :: ext
  rt_of :: rt
  lexical_parse_i64 :: "bytes \<Rightarrow> int option"
  json_from_str :: "string \<Rightarrow> 'j option"
  json_to_string :: "'j \<Rightarrow> string option"
  json_pointer :: "string \<Rightarrow> 'j \<Rightarrow> 'j option"
  json_pointer_set :: "string \<Rightarrow> 'j \<Rightarrow> 'j \<Rightarrow> 'j option"
  level_draws :: "bool list"
  fx_hash :: "key \<Rightarrow> u64"
  num_shards :: nat

type_synonym 'j outcome = "'j LockedDb \<times> Frame kvres \<times> Command list"

abbreviation env_now :: "'j env \<Rightarrow> u64" where
  "env_now e \<equiv> cached_time_ms (rt_of e)"

definition wrongtype :: Frame where
  "wrongtype = Error ''WRONGTYPE Operation against a key holding the wrong kind of value''"

definition wrongtype_err :: "Frame kvres" where
  "wrongtype_err =
     Inl (ProtocolError (Msg ''WRONGTYPE Operation against a key holding the wrong kind of value''))"

definition parse_int_from_bytes :: "'j env \<Rightarrow> int \<Rightarrow> bytes" where
  "parse_int_from_bytes e i = itoa_format (ext_of e) i"

definition bytes_to_i64_fast :: "'j env \<Rightarrow> bytes \<Rightarrow> int option" where
  "bytes_to_i64_fast e b = lexical_parse_i64 e b"

fun element_bytes :: "'j env \<Rightarrow> Element \<Rightarrow> bytes" where
  "element_bytes e (EString b) = b"
| "element_bytes e (EInt i) = parse_int_from_bytes e i"

section \<open>Strings\<close>

definition simple_entry :: "'j env \<Rightarrow> bytes \<Rightarrow> u64 option \<Rightarrow> 'j ValueEntry" where
  "simple_entry e v ex =
     (case bytes_to_i64_fast e v of
        Some i \<Rightarrow> ValueEntry_new (rt_of e) (VSimple (EInt i)) ex
      | None \<Rightarrow> ValueEntry_new (rt_of e) (VSimple (EString v)) ex)"

definition exec_set ::
  "'j env \<Rightarrow> key \<Rightarrow> bytes \<Rightarrow> Expiration option \<Rightarrow> SetCondition option \<Rightarrow> 'j LockedDb \<Rightarrow> 'j outcome option" where
  "exec_set e k v ex cond l =
     (let time_expire = map_option (calculate_expiration_timestamp_ms (env_now e)) ex;
          value_obj = simple_entry e v time_expire
      in do { (l1, fails) \<leftarrow>
                (case cond of
                   None \<Rightarrow> Some (l, False)
                 | Some c \<Rightarrow>
                     do { (l1, cur) \<leftarrow> locked_select (rt_of e) k l;
                          Some (l1, case c of NX \<Rightarrow> cur \<noteq> None | XX \<Rightarrow> cur = None) });
              if fails then Some (l1, Inr Null, [])
              else
                do { l2 \<leftarrow> locked_insert (rt_of e) k value_obj l1;
                     Some (l2, Inr (Simple ''OK''), [Set k v ex cond]) } })"

definition string_reply :: "'j env \<Rightarrow> 'j ValueEntry option \<Rightarrow> Frame" where
  "string_reply e cur =
     (case cur of
        None \<Rightarrow> Null
      | Some ent \<Rightarrow>
          (case data ent of VSimple el \<Rightarrow> Bulk (element_bytes e el) | _ \<Rightarrow> Null))"

definition exec_get :: "'j env \<Rightarrow> key \<Rightarrow> 'j LockedDb \<Rightarrow> 'j outcome option" where
  "exec_get e k l =
     do { (l1, cur) \<leftarrow> locked_select (rt_of e) k l; Some (l1, Inr (string_reply e cur), []) }"

text \<open>One iteration of \<^verbatim>\<open>MSET\<close>.\<close>

definition exec_mset_one :: "'j env \<Rightarrow> key \<Rightarrow> bytes \<Rightarrow> 'j LockedDb \<Rightarrow> 'j LockedDb option" where
  "exec_mset_one e k v l = locked_insert (rt_of e) k (simple_entry e v None) l"

section \<open>Hashes\<close>

fun hset_loop ::
  "(string \<times> bytes) list \<Rightarrow> (string \<times> Element) list \<Rightarrow> usize \<Rightarrow> int \<Rightarrow>
   (string \<times> Element) list \<times> usize \<times> int" where
  "hset_loop [] m elements_heap added = (m, elements_heap, added)"
| "hset_loop ((f, v) # fvs) m elements_heap added =
     (let el = EString v;
          added_size = of_nat (length f) + heap_size el
      in case map_of m f of
           Some old_val \<Rightarrow>
             hset_loop fvs (AList.update f el m)
               (elements_heap - heap_size old_val + of_nat (length v)) added
         | None \<Rightarrow> hset_loop fvs (AList.update f el m) (elements_heap + added_size) (added + 1))"

definition exec_hset :: "'j env \<Rightarrow> key \<Rightarrow> (string \<times> bytes) list \<Rightarrow> 'j LockedDb \<Rightarrow> 'j outcome option" where
  "exec_hset e k fvs l =
     do { (l1, cur) \<leftarrow> locked_take (rt_of e) k l;
          (let finish = (\<lambda>m ex h.
                 (case hset_loop fvs m h 0 of (m', h', added) \<Rightarrow>
                    do { l2 \<leftarrow> locked_insert (rt_of e) k (ValueEntry_new (rt_of e) (VHash m' h') ex) l1;
                         Some (l2, Inr (Integer added), [HSet k fvs]) }))
           in case cur of
                None \<Rightarrow> finish [] None 0
              | Some ent \<Rightarrow>
                  (case data ent of
                     VHash m h \<Rightarrow> finish m (expires_at ent) h
                   | _ \<Rightarrow>
                       do { l2 \<leftarrow> locked_insert (rt_of e) k ent l1; Some (l2, Inr wrongtype, []) })) }"

definition exec_hget :: "'j env \<Rightarrow> key \<Rightarrow> string \<Rightarrow> 'j LockedDb \<Rightarrow> 'j outcome option" where
  "exec_hget e k f l =
     do { (l1, cur) \<leftarrow> locked_select (rt_of e) k l;
          Some (l1,
            Inr (case cur of
                   None \<Rightarrow> Null
                 | Some ent \<Rightarrow>
                     (case data ent of
                        VHash m _ \<Rightarrow>
                          (case map_of m f of None \<Rightarrow> Null | Some el \<Rightarrow> Bulk (element_bytes e el))
                      | _ \<Rightarrow> wrongtype)), []) }"

fun hdel_loop ::
  "string list \<Rightarrow> (string \<times> Element) list \<Rightarrow> usize \<Rightarrow> int \<Rightarrow> (string \<times> Element) list \<times> usize \<times> int" where
  "hdel_loop [] m elements_heap removed = (m, elements_heap, removed)"
| "hdel_loop (f # fs) m elements_heap removed =
     (case map_of m f of
        Some old_val \<Rightarrow>
          hdel_loop fs (AList.delete f m) (elements_heap - (of_nat (length f) + heap_size old_val)) (removed + 1)
      | None \<Rightarrow> hdel_loop fs m elements_heap removed)"

definition exec_hdel :: "'j env \<Rightarrow> key \<Rightarrow> string list \<Rightarrow> 'j LockedDb \<Rightarrow> 'j outcome option" where
  "exec_hdel e k fs l =
     do { (l1, cur) \<leftarrow> locked_take (rt_of e) k l;
          (case cur of
             None \<Rightarrow> Some (l1, Inr (Integer 0), [])
           | Some ent \<Rightarrow>
               (case data ent of
                  VHash m h \<Rightarrow>
                    (case hdel_loop fs m h 0 of (m', h', removed) \<Rightarrow>
                       do { l2 \<leftarrow>
                              (if m' \<noteq> [] then
                                 locked_insert (rt_of e) k
                                   (ValueEntry_new (rt_of e) (VHash m' h') (expires_at ent)) l1
                               else locked_delete (rt_of e) k l1);
                            Some (l2, Inr (Integer removed), [HDel k fs]) })
                | _ \<Rightarrow>
                    do { l2 \<leftarrow> locked_insert (rt_of e) k ent l1; Some (l2, Inr wrongtype, []) })) }"

section \<open>Lists\<close>

fun lpush_loop :: "bytes list \<Rightarrow> Element list \<Rightarrow> usize \<Rightarrow> Element list \<times> usize" where
  "lpush_loop [] d elements_heap = (d, elements_heap)"
| "lpush_loop (v # vs) d elements_heap =
     lpush_loop vs (EString v # d) (elements_heap + heap_size (EString v))"

text \<open>The part of \<^verbatim>\<open>LPUSH\<close> under the lock: \<open>pushes\<close> are the values no blocked client took, \<open>vs\<close> the values of
  the command, which the log entry carries.\<close>

definition exec_lpush :: "'j env \<Rightarrow> key \<Rightarrow> bytes list \<Rightarrow> bytes list \<Rightarrow> 'j LockedDb \<Rightarrow> 'j outcome option" where
  "exec_lpush e k pushes vs l =
     (if pushes = [] then
        do { (l1, cur) \<leftarrow> locked_select (rt_of e) k l;
             Some (l1,
               Inr (Integer (case cur of
                      Some ent \<Rightarrow> (case data ent of VList d _ \<Rightarrow> int (length d) | _ \<Rightarrow> 0)
                    | None \<Rightarrow> 0)), []) }
      else
        do { (l1, cur) \<leftarrow> locked_take (rt_of e) k l;
             (let finish = (\<lambda>d ex h.
                    (case lpush_loop pushes d h of (d', h') \<Rightarrow>
                       do { l2 \<leftarrow> locked_insert (rt_of e) k (ValueEntry_new (rt_of e) (VList d' h') ex) l1;
                            Some (l2, Inr (Integer (int (length d'))), [LPush k vs]) }))
              in case cur of
                   None \<Rightarrow> finish [] None 0
                 | Some ent \<Rightarrow>
                     (case data ent of
                        VList d h \<Rightarrow> finish d (expires_at ent) h
                      | _ \<Rightarrow>
                          do { l2 \<leftarrow> locked_insert (rt_of e) k ent l1; Some (l2, Inr wrongtype, []) })) })"

definition exec_lpop :: "'j env \<Rightarrow> key \<Rightarrow> 'j LockedDb \<Rightarrow> 'j outcome option" where
  "exec_lpop e k l =
     do { (l1, cur) \<leftarrow> locked_take (rt_of e) k l;
          (case cur of
             None \<Rightarrow> Some (l1, Inr Null, [])
           | Some ent \<Rightarrow>
               (case data ent of
                  VList d h \<Rightarrow>
                    (case d of
                       [] \<Rightarrow> Some (l1, Inr Null, [])
                     | item # d' \<Rightarrow>
                         do { l2 \<leftarrow>
                                (if d' \<noteq> [] then
                                   locked_insert (rt_of e) k
                                     (ValueEntry_new (rt_of e) (VList d' (h - heap_size item)) (expires_at ent)) l1
                                 else locked_delete (rt_of e) k l1);
                              Some (l2, Inr (Bulk (element_bytes e item)), [LPop k]) })
                | _ \<Rightarrow>
                    do { l2 \<leftarrow> locked_insert (rt_of e) k ent l1; Some (l2, Inr wrongtype, []) })) }"

text \<open>The locked phase of \<^verbatim>\<open>BLPOP\<close> ends in one of four ways: a value was popped, the key is absent and
  the client has to wait, the entry is an empty list, or it is of another type.\<close>

datatype blpop_phase = Popped bytes | Absent | EmptyList | WrongType

definition exec_blpop :: "'j env \<Rightarrow> key \<Rightarrow> 'j LockedDb \<Rightarrow> ('j LockedDb \<times> blpop_phase) option" where
  "exec_blpop e k l =
     do { (l1, cur) \<leftarrow> locked_take (rt_of e) k l;
          (case cur of
             None \<Rightarrow> Some (l1, Absent)
           | Some ent \<Rightarrow>
               (case data ent of
                  VList d h \<Rightarrow>
                    (case d of
                       [] \<Rightarrow>
                         do { l2 \<leftarrow> locked_insert (rt_of e) k
                                     (ValueEntry_new (rt_of e) (VList d h) (expires_at ent)) l1;
                              Some (l2, EmptyList) }
                     | item # d' \<Rightarrow>
                         do { l2 \<leftarrow>
                                (if d' \<noteq> [] then
                                   locked_insert (rt_of e) k
                                     (ValueEntry_new (rt_of e) (VList d' (h - heap_size item)) (expires_at ent)) l1
                                 else locked_delete (rt_of e) k l1);
                              Some (l2, Popped (element_bytes e item)) })
                | _ \<Rightarrow> do { l2 \<leftarrow> locked_insert (rt_of e) k ent l1; Some (l2, WrongType) })) }"

section \<open>Sorted sets\<close>

definition exec_zadd :: "'j env \<Rightarrow> key \<Rightarrow> f64 \<Rightarrow> bytes \<Rightarrow> 'j LockedDb \<Rightarrow> 'j outcome option" where
  "exec_zadd e k sc m l =
     do { (l1, cur) \<leftarrow> locked_take (rt_of e) k l;
          (case cur of
             None \<Rightarrow>
               do { (z, _) \<leftarrow> zset_insert (level_draws e) sc m ZSet_new;
                    l2 \<leftarrow> locked_insert (rt_of e) k
                           (ValueEntry_new (rt_of e) (VZSet z (zset_heap_memory_size (rt_of e) z)) None) l1;
                    Some (l2, Inr (Integer 1), [ZAdd k sc m]) }
           | Some ent \<Rightarrow>
               (case data ent of
                  VZSet z _ \<Rightarrow>
                    do { (z', new) \<leftarrow> zset_insert (level_draws e) sc m z;
                         l2 \<leftarrow> locked_insert (rt_of e) k
                                (ValueEntry_new (rt_of e) (VZSet z' (zset_heap_memory_size (rt_of e) z'))
                                  (expires_at ent)) l1;
                         Some (l2, Inr (Integer (if new then 1 else 0)), [ZAdd k sc m]) }
                | _ \<Rightarrow>
                    do { l2 \<leftarrow> locked_insert (rt_of e) k ent l1; Some (l2, wrongtype_err, []) })) }"

definition exec_zscore :: "'j env \<Rightarrow> key \<Rightarrow> bytes \<Rightarrow> 'j LockedDb \<Rightarrow> 'j outcome option" where
  "exec_zscore e k m l =
     do { (l1, cur) \<leftarrow> locked_select (rt_of e) k l;
          Some (l1,
            (case cur of
               None \<Rightarrow> Inr Null
             | Some ent \<Rightarrow>
                 (case data ent of
                    VZSet z _ \<Rightarrow>
                      (case zset_score m z of
                         Some sc \<Rightarrow> Inr (Bulk (f64_to_string (ext_of e) sc))
                       | None \<Rightarrow> Inr Null)
                  | _ \<Rightarrow> wrongtype_err)), []) }"

definition exec_zrank :: "'j env \<Rightarrow> key \<Rightarrow> bytes \<Rightarrow> 'j LockedDb \<Rightarrow> 'j outcome option" where
  "exec_zrank e k m l =
     do { (l1, cur) \<leftarrow> locked_select (rt_of e) k l;
          reply \<leftarrow>
            (case cur of
               None \<Rightarrow> Some (Inr Null)
             | Some ent \<Rightarrow>
                 (case data ent of
                    VZSet z _ \<Rightarrow>
                      do { r \<leftarrow> zset_rank m z;
                           Some (Inr (case r of Some n \<Rightarrow> Integer (sint n) | None \<Rightarrow> Null)) }
                  | _ \<Rightarrow> Some wrongtype_err));
          Some (l1, reply, []) }"

definition exec_zrange :: "'j env \<Rightarrow> key \<Rightarrow> int \<Rightarrow> int \<Rightarrow> 'j LockedDb \<Rightarrow> 'j outcome option" where
  "exec_zrange e k start stop l =
     do { (l1, cur) \<leftarrow> locked_select (rt_of e) k l;
          reply \<leftarrow>
            (case cur of
               None \<Rightarrow> Some (Inr (Array []))
             | Some ent \<Rightarrow>
                 (case data ent of
                    VZSet z _ \<Rightarrow>
                      do { xs \<leftarrow> zset_range start stop z; Some (Inr (Array (map (\<lambda>x. Bulk (fst x)) xs))) }
                  | _ \<Rightarrow> Some wrongtype_err));
          Some (l1, reply, []) }"

definition exec_zrem :: "'j env \<Rightarrow> key \<Rightarrow> bytes \<Rightarrow> 'j LockedDb \<Rightarrow> 'j outcome option" where
  "exec_zrem e k m l =
     do { (l1, cur) \<leftarrow> locked_take (rt_of e) k l;
          (case cur of
             None \<Rightarrow> Some (l1, Inr (Integer 0), [])
           | Some ent \<Rightarrow>
               (case data ent of
                  VZSet z _ \<Rightarrow>
                    do { (z', removed) \<leftarrow> zset_delete m z;
                         l2 \<leftarrow>
                           (if removed \<and> zset_len z' = 0 then Some l1
                            else
                              locked_insert (rt_of e) k
                                (ValueEntry_new (rt_of e) (VZSet z' (zset_heap_memory_size (rt_of e) z'))
                                  (expires_at ent)) l1);
                         Some (l2, Inr (Integer (if removed then 1 else 0)), if removed then [ZRem k m] else []) }
                | _ \<Rightarrow>
                    do { l2 \<leftarrow> locked_insert (rt_of e) k ent l1; Some (l2, wrongtype_err, []) })) }"

section \<open>JSON\<close>

definition root_path :: "string \<Rightarrow> bool" where
  "root_path p \<longleftrightarrow> p = ''/'' \<or> p = ''''"

definition json_len :: "'j env \<Rightarrow> 'j \<Rightarrow> usize" where
  "json_len e j = (case json_to_string e j of Some s \<Rightarrow> of_nat (length s) | None \<Rightarrow> 0)"

definition exec_json_set :: "'j env \<Rightarrow> key \<Rightarrow> string \<Rightarrow> string \<Rightarrow> 'j LockedDb \<Rightarrow> 'j outcome option" where
  "exec_json_set e k path value l =
     (case json_from_str e value of
        None \<Rightarrow> Some (l, Inl (ProtocolError (Msg ''Invalid JSON value'')), [])
      | Some new_json \<Rightarrow>
          do { (l1, cur) \<leftarrow> locked_take (rt_of e) k l;
               (case cur of
                  Some ent \<Rightarrow>
                    (case data ent of
                       VJson root _ \<Rightarrow>
                         (case (if root_path path then Some new_json else json_pointer_set e path new_json root) of
                            None \<Rightarrow>
                              do { l2 \<leftarrow> locked_insert (rt_of e) k (ent\<lparr>data := VJson root 0\<rparr>) l1;
                                   Some (l2, Inl (ProtocolError (Msg ''Path does not exist'')), []) }
                          | Some root' \<Rightarrow>
                              do { l2 \<leftarrow> locked_insert (rt_of e) k
                                          (ent\<lparr>data := VJson root' (json_len e root')\<rparr>) l1;
                                   Some (l2, Inr (Simple ''OK''), [JsonSet k path value]) })
                     | _ \<Rightarrow>
                         do { l2 \<leftarrow> locked_insert (rt_of e) k ent l1; Some (l2, wrongtype_err, []) })
                | None \<Rightarrow>
                    if root_path path then
                      do { l2 \<leftarrow> locked_insert (rt_of e) k
                                  (ValueEntry_new (rt_of e) (VJson new_json (json_len e new_json)) None) l1;
                           Some (l2, Inr (Simple ''OK''), [JsonSet k path value]) }
                    else
                      Some (l1, Inl (ProtocolError (Msg ''could not set path in non-existent key'')), [])) })"

definition json_reply :: "'j env \<Rightarrow> 'j \<Rightarrow> Frame" where
  "json_reply e j = Bulk (case json_to_string e j of Some s \<Rightarrow> s | None \<Rightarrow> ''null'')"

definition exec_json_get :: "'j env \<Rightarrow> key \<Rightarrow> string \<Rightarrow> 'j LockedDb \<Rightarrow> 'j outcome option" where
  "exec_json_get e k path l =
     do { (l1, cur) \<leftarrow> locked_select (rt_of e) k l;
          Some (l1,
            (case cur of
               None \<Rightarrow> Inr Null
             | Some ent \<Rightarrow>
                 (case data ent of
                    VJson root _ \<Rightarrow>
                      if root_path path then Inr (json_reply e root)
                      else
                        (case json_pointer e path root of
                           Some target \<Rightarrow> Inr (json_reply e target)
                         | None \<Rightarrow> Inr Null)
                  | _ \<Rightarrow> wrongtype_err)), []) }"

section \<open>Single-key commands\<close>

text \<open>The locked phase of a single-key command, in a context without blocked clients.\<close>

definition exec_locked :: "'j env \<Rightarrow> Command \<Rightarrow> 'j LockedDb \<Rightarrow> 'j outcome option" where
  "exec_locked e c l =
     (case c of
        Set k v ex cond \<Rightarrow> exec_set e k v ex cond l
      | Get k \<Rightarrow> exec_get e k l
      | LPush k vs \<Rightarrow> exec_lpush e k vs vs l
      | LPop k \<Rightarrow> exec_lpop e k l
      | HSet k fvs \<Rightarrow> exec_hset e k fvs l
      | HGet k f \<Rightarrow> exec_hget e k f l
      | HDel k fs \<Rightarrow> exec_hdel e k fs l
      | JsonSet k p v \<Rightarrow> exec_json_set e k p v l
      | JsonGet k p \<Rightarrow> exec_json_get e k p l
      | ZAdd k sc m \<Rightarrow> exec_zadd e k sc m l
      | ZScore k m \<Rightarrow> exec_zscore e k m l
      | ZRank k m \<Rightarrow> exec_zrank e k m l
      | ZRange k i j \<Rightarrow> exec_zrange e k i j l
      | ZRem k m \<Rightarrow> exec_zrem e k m l
      | _ \<Rightarrow> None)"

end
