(* ===== verification/Exec_Spec.thy ===== *)
theory Exec_Spec
  imports Executors
begin

text \<open>
  What the single-key commands promise, stated on abstract values, and the proof that the
  executors of \<^verbatim>\<open>src/src/executor\<close> implement it.

  An abstract value is a byte string, a list, a finite map, a sorted list of (score, member)
  pairs or a JSON document, with its deadline. \<open>redis\<close> says for each command what becomes of the
  value of its key, what the client is told and what is logged. The relation \<open>ent_rel\<close> ties a stored
  entry to its abstract value; it contains the representation invariant of the entry: the
  recorded heap sizes of lists and hashes are exact, the keys of a hash are distinct, and the
  dictionary and the skip list of a sorted set agree.
\<close>

section \<open>Abstract values\<close>

datatype 'j aval =
    AStr bytes
  | AList "bytes list"
  | AHash "string \<rightharpoonup> bytes"
  | ASet "bytes list"
  | AZSet "(f64 \<times> bytes) list"
  | AJson 'j

type_synonym 'j aentry = "'j aval \<times> u64 option"

definition list_heap :: "Element list \<Rightarrow> usize" where
  "list_heap d = sum_list (map heap_size d)"

definition hash_heap :: "(string \<times> Element) list \<Rightarrow> usize" where
  "hash_heap m = sum_list (map (\<lambda>(f, el). of_nat (length f) + heap_size el) m)"

definition hash_view :: "'j env \<Rightarrow> (string \<times> Element) list \<Rightarrow> string \<rightharpoonup> bytes" where
  "hash_view e m = (\<lambda>f. map_option (element_bytes e) (map_of m f))"

fun val_rel :: "'j env \<Rightarrow> 'j Value \<Rightarrow> 'j aval \<Rightarrow> bool" where
  "val_rel e (VSimple el) a \<longleftrightarrow> a = AStr (element_bytes e el)"
| "val_rel e (VList d h) a \<longleftrightarrow> a = AList (map (element_bytes e) d) \<and> h = list_heap d"
| "val_rel e (VHash m h) a \<longleftrightarrow> a = AHash (hash_view e m) \<and> distinct (map fst m) \<and> h = hash_heap m"
| "val_rel e (VSet s h) a \<longleftrightarrow> a = ASet (map (element_bytes e) s)"
| "val_rel e (VZSet z sz) a \<longleftrightarrow> (\<exists>xs. a = AZSet xs \<and> zset_ok z xs)"
| "val_rel e (VJson j sz) a \<longleftrightarrow> a = AJson j"

definition ent_rel :: "'j env \<Rightarrow> 'j ValueEntry \<Rightarrow> 'j aentry \<Rightarrow> bool" where
  "ent_rel e en a \<longleftrightarrow> val_rel e (data en) (fst a) \<and> snd a = expires_at en"

fun slot_rel :: "'j env \<Rightarrow> 'j ValueEntry option \<Rightarrow> 'j aentry option \<Rightarrow> bool" where
  "slot_rel e None None \<longleftrightarrow> True"
| "slot_rel e (Some en) (Some a) \<longleftrightarrow> ent_rel e en a"
| "slot_rel e _ _ \<longleftrightarrow> False"

lemma slot_rel_None [simp]:
  "slot_rel e cur None \<longleftrightarrow> cur = None" "slot_rel e None a \<longleftrightarrow> a = None"
  by (cases cur; simp) (cases a; simp)

lemma slot_relE:
  assumes "slot_rel e cur (Some a)"
  obtains en where "cur = Some en" "ent_rel e en a"
  using assms by (cases cur) auto

lemma ent_rel_new [simp]: "ent_rel e (ValueEntry_new r d ex) (a, ex') \<longleftrightarrow> val_rel e d a \<and> ex' = ex"
  by (simp add: ent_rel_def)

section \<open>Abstract commands\<close>

definition stored_bytes :: "'j env \<Rightarrow> bytes \<Rightarrow> bytes" where
  "stored_bytes e v = (case lexical_parse_i64 e v of Some i \<Rightarrow> itoa_format (ext_of e) i | None \<Rightarrow> v)"

definition hash_assign :: "(string \<times> bytes) list \<Rightarrow> (string \<rightharpoonup> bytes) \<Rightarrow> string \<rightharpoonup> bytes" where
  "hash_assign fvs m = m ++ map_of (rev fvs)"

definition set_refused :: "SetCondition option \<Rightarrow> bool \<Rightarrow> bool" where
  "set_refused cond present \<longleftrightarrow> (cond = Some NX \<and> present) \<or> (cond = Some XX \<and> \<not> present)"

text \<open>The reply of a command to a key of another type: some executors answer with an error frame,
  others fail with a protocol error.\<close>

type_synonym 'j aresult = "'j aentry option \<times> Frame kvres \<times> Command list"

definition on_hash ::
  "'j aentry option \<Rightarrow> 'j aresult \<Rightarrow> ((string \<rightharpoonup> bytes) \<Rightarrow> u64 option \<Rightarrow> 'j aresult) \<Rightarrow> 'j aresult" where
  "on_hash cur absent f =
     (case cur of None \<Rightarrow> absent | Some (AHash m, ex) \<Rightarrow> f m ex | Some _ \<Rightarrow> (cur, Inr wrongtype, []))"

definition on_list ::
  "'j aentry option \<Rightarrow> 'j aresult \<Rightarrow> (bytes list \<Rightarrow> u64 option \<Rightarrow> 'j aresult) \<Rightarrow> 'j aresult" where
  "on_list cur absent f =
     (case cur of None \<Rightarrow> absent | Some (AList xs, ex) \<Rightarrow> f xs ex | Some _ \<Rightarrow> (cur, Inr wrongtype, []))"

definition on_zset ::
  "'j aentry option \<Rightarrow> 'j aresult \<Rightarrow> ((f64 \<times> bytes) list \<Rightarrow> u64 option \<Rightarrow> 'j aresult) \<Rightarrow> 'j aresult" where
  "on_zset cur absent f =
     (case cur of None \<Rightarrow> absent | Some (AZSet xs, ex) \<Rightarrow> f xs ex | Some _ \<Rightarrow> (cur, wrongtype_err, []))"

definition on_json ::
  "'j aentry option \<Rightarrow> 'j aresult \<Rightarrow> ('j \<Rightarrow> u64 option \<Rightarrow> 'j aresult) \<Rightarrow> 'j aresult" where
  "on_json cur absent f =
     (case cur of None \<Rightarrow> absent | Some (AJson j, ex) \<Rightarrow> f j ex | Some _ \<Rightarrow> (cur, wrongtype_err, []))"

fun redis :: "'j env \<Rightarrow> Command \<Rightarrow> 'j aentry option \<Rightarrow> 'j aresult" where
  "redis e (Set k v ex cond) cur =
     (if set_refused cond (cur \<noteq> None) then (cur, Inr Null, [])
      else (Some (AStr (stored_bytes e v), map_option (calculate_expiration_timestamp_ms (env_now e)) ex),
            Inr (Simple ''OK''), [Set k v ex cond]))"
| "redis e (Get k) cur =
     (cur, Inr (case cur of Some (AStr b, _) \<Rightarrow> Bulk b | _ \<Rightarrow> Null), [])"
| "redis e (HSet k fvs) cur =
     (let new = (\<lambda>m ex. (Some (AHash (hash_assign fvs m), ex),
                          Inr (Integer (int (card (fst ` set fvs - dom m)))), [HSet k fvs]))
      in on_hash cur (new Map.empty None) new)"
| "redis e (HGet k f) cur =
     on_hash cur (cur, Inr Null, []) (\<lambda>m _. (cur, Inr (case m f of Some b \<Rightarrow> Bulk b | None \<Rightarrow> Null), []))"
| "redis e (HDel k fs) cur =
     on_hash cur (cur, Inr (Integer 0), [])
       (\<lambda>m ex. (if dom m \<subseteq> set fs then None else Some (AHash (m |` (- set fs)), ex),
                Inr (Integer (int (card (set fs \<inter> dom m)))), [HDel k fs]))"
| "redis e (LPush k vs) cur =
     (if vs = [] then
        (cur, Inr (Integer (case cur of Some (AList xs, _) \<Rightarrow> int (length xs) | _ \<Rightarrow> 0)), [])
      else
        let new = (\<lambda>xs ex. (Some (AList (rev vs @ xs), ex), Inr (Integer (int (length vs + length xs))), [LPush k vs]))
        in on_list cur (new [] None) new)"
| "redis e (LPop k) cur =
     on_list cur (cur, Inr Null, [])
       (\<lambda>xs ex. case xs of
          [] \<Rightarrow> (None, Inr Null, [])
        | b # xs' \<Rightarrow> (if xs' = [] then None else Some (AList xs', ex), Inr (Bulk b), [LPop k]))"
| "redis e (ZAdd k sc m) cur =
     (let new = (\<lambda>xs ex. (Some (AZSet (zassign sc m xs), ex),
                          Inr (Integer (if m \<in> snd ` set xs then 0 else 1)), [ZAdd k sc m]))
      in on_zset cur (new [] None) new)"
| "redis e (ZScore k m) cur =
     on_zset cur (cur, Inr Null, [])
       (\<lambda>xs _. (cur, Inr (case map_of (map (\<lambda>x. (snd x, fst x)) xs) m of
                            Some sc \<Rightarrow> Bulk (f64_to_string (ext_of e) sc) | None \<Rightarrow> Null), []))"
| "redis e (ZRank k m) cur =
     on_zset cur (cur, Inr Null, [])
       (\<lambda>xs _. (cur, Inr (case zindex m xs of Some n \<Rightarrow> Integer (sint (of_nat n :: usize)) | None \<Rightarrow> Null), []))"
| "redis e (ZRange k i j) cur =
     on_zset cur (cur, Inr (Array []), [])
       (\<lambda>xs _. (cur, Inr (Array (map (\<lambda>x. Bulk (snd x)) (zslice i j xs))), []))"
| "redis e (ZRem k m) cur =
     on_zset cur (cur, Inr (Integer 0), [])
       (\<lambda>xs ex. if m \<in> snd ` set xs
                then (if zremove m xs = [] then None else Some (AZSet (zremove m xs), ex),
                      Inr (Integer 1), [ZRem k m])
                else (cur, Inr (Integer 0), []))"
| "redis e (JsonSet k p v) cur =
     (case json_from_str e v of
        None \<Rightarrow> (cur, Inl (ProtocolError (Msg ''Invalid JSON value'')), [])
      | Some j \<Rightarrow>
          on_json cur
            (if root_path p then (Some (AJson j, None), Inr (Simple ''OK''), [JsonSet k p v])
             else (cur, Inl (ProtocolError (Msg ''could not set path in non-existent key'')), []))
            (\<lambda>root ex.
               case (if root_path p then Some j else json_pointer_set e p j root) of
                 None \<Rightarrow> (cur, Inl (ProtocolError (Msg ''Path does not exist'')), [])
               | Some root' \<Rightarrow> (Some (AJson root', ex), Inr (Simple ''OK''), [JsonSet k p v])))"
| "redis e (JsonGet k p) cur =
     on_json cur (cur, Inr Null, [])
       (\<lambda>root _. (cur, Inr (case (if root_path p then Some root else json_pointer e p root) of
                              Some j \<Rightarrow> json_reply e j | None \<Rightarrow> Null), []))"
| "redis e _ cur = (cur, Inr Null, [])"

text \<open>The commands that one locked phase of a single key executes, and those of them that only
  look.\<close>

fun single_key :: "Command \<Rightarrow> bool" where
  "single_key (BLPop _ _) \<longleftrightarrow> False"
| "single_key c \<longleftrightarrow> get_key c \<noteq> None"

definition looks :: "Command \<Rightarrow> bool" where
  "looks c \<longleftrightarrow> (\<exists>k. lock_spec c = LockRead k)"

text \<open>What a sorted-set insertion needs: a score that is a number and room in the arena.\<close>

fun accepts :: "Command \<Rightarrow> 'j aentry option \<Rightarrow> bool" where
  "accepts (ZAdd k sc m) cur \<longleftrightarrow>
     \<not> f64_is_nan sc \<and> (case cur of Some (AZSet xs, _) \<Rightarrow> Suc (length xs) < NODE_LIMIT | _ \<Rightarrow> True)"
| "accepts _ _ \<longleftrightarrow> True"

section \<open>Loops\<close>

lemma list_heap_simps [simp]:
  "list_heap [] = 0" "list_heap (x # xs) = heap_size x + list_heap xs"
  by (simp_all add: list_heap_def)

lemma lpush_loop_spec:
  "lpush_loop vs d h = (rev (map EString vs) @ d, h + list_heap (map EString vs))"
  by (induction vs arbitrary: d h) (simp_all add: ac_simps)

lemma element_bytes_EString [simp]: "element_bytes e \<circ> EString = id"
  by (simp add: fun_eq_iff)

lemma list_heap_append [simp]: "list_heap (xs @ ys) = list_heap xs + list_heap ys"
  by (simp add: list_heap_def)

lemma list_heap_rev [simp]: "list_heap (rev xs) = list_heap xs"
  by (simp add: list_heap_def rev_map [symmetric] sum_list_rev)

lemma hash_heap_simps [simp]:
  "hash_heap [] = 0" "hash_heap ((f, el) # m) = of_nat (length f) + heap_size el + hash_heap m"
  by (simp_all add: hash_heap_def)

lemma hash_heap_update:
  "hash_heap (AList.update f el m) =
     (case map_of m f of
        Some old \<Rightarrow> hash_heap m - heap_size old + heap_size el
      | None \<Rightarrow> hash_heap m + (of_nat (length f) + heap_size el))"
  by (induction m) (auto split: option.splits)

lemma hash_heap_delete:
  "distinct (map fst m) \<Longrightarrow> map_of m f = Some old \<Longrightarrow>
   hash_heap (AList.delete f m) = hash_heap m - (of_nat (length f) + heap_size old)"
  by (induction m) (auto simp: delete_idem image_iff dest: map_of_SomeD)

lemma hash_view_update [simp]: "hash_view e (AList.update f (EString v) m) = (hash_view e m)(f \<mapsto> v)"
  by (auto simp: hash_view_def update_conv' fun_eq_iff)

lemma hash_view_delete [simp]: "hash_view e (AList.delete f m) = (hash_view e m)(f := None)"
  by (auto simp: hash_view_def delete_conv' fun_eq_iff)

lemma dom_hash_view [simp]: "dom (hash_view e m) = dom (map_of m)"
  by (auto simp: hash_view_def)

lemma hset_loop_spec:
  assumes "distinct (map fst m)" and "h = hash_heap m"
  shows "\<exists>m'. hset_loop fvs m h n = (m', hash_heap m', n + int (card (fst ` set fvs - dom (map_of m)))) \<and>
    distinct (map fst m') \<and> hash_view e m' = hash_assign fvs (hash_view e m)"
  using assms
proof (induction fvs arbitrary: m h n)
  case Nil
  then show ?case
    by (simp add: hash_assign_def)
next
  case (Cons x fvs)
  obtain f v where x: "x = (f, v)"
    by (cases x)
  let ?m = "AList.update f (EString v) m"
  have dist: "distinct (map fst ?m)"
    using Cons.prems(1) by (rule distinct_update)
  have view: "hash_assign fvs (hash_view e ?m) = hash_assign (x # fvs) (hash_view e m)"
    by (simp add: x hash_assign_def map_add_def fun_eq_iff split: option.splits)
  have count: "(if map_of m f = None then 1 else 0) + int (card (fst ` set fvs - dom (map_of ?m))) =
      int (card (fst ` set (x # fvs) - dom (map_of m)))"
  proof -
    have "fst ` set (x # fvs) - dom (map_of m) =
        (if map_of m f = None then {f} else {}) \<union> (fst ` set fvs - dom (map_of ?m))"
      by (auto simp: x update_conv')
    then show ?thesis
      by (auto simp: update_conv' card_insert_if)
  qed
  let ?n = "n + (if map_of m f = None then 1 else 0)"
  obtain m' where m': "hset_loop fvs ?m (hash_heap ?m) ?n =
      (m', hash_heap m', ?n + int (card (fst ` set fvs - dom (map_of ?m))))" "distinct (map fst m')"
    "hash_view e m' = hash_assign fvs (hash_view e ?m)"
    using Cons.IH [OF dist refl] by blast
  have "hset_loop (x # fvs) m h n = hset_loop fvs ?m (hash_heap ?m) ?n"
    using Cons.prems(2) by (cases "map_of m f") (simp_all add: x Let_def hash_heap_update)
  then show ?case
    unfolding m' view add.assoc count using m'(2,3) view by metis
qed

lemma hdel_loop_spec:
  assumes "distinct (map fst m)" and "h = hash_heap m"
  shows "\<exists>m'. hdel_loop fs m h n = (m', hash_heap m', n + int (card (set fs \<inter> dom (map_of m)))) \<and>
    distinct (map fst m') \<and> hash_view e m' = hash_view e m |` (- set fs)"
  using assms
proof (induction fs arbitrary: m h n)
  case Nil
  then show ?case
    by simp
next
  case (Cons f fs)
  show ?case
  proof (cases "map_of m f")
    case None
    have "set (f # fs) \<inter> dom (map_of m) = set fs \<inter> dom (map_of m)"
      using None by auto
    moreover have "hash_view e m |` (- set (f # fs)) = hash_view e m |` (- set fs)"
      using None by (auto simp: restrict_map_def fun_eq_iff hash_view_def)
    ultimately show ?thesis
      using Cons.IH [OF Cons.prems, of n] None by simp
  next
    case (Some old)
    let ?m = "AList.delete f m"
    have dist: "distinct (map fst ?m)"
      using Cons.prems(1) by (rule distinct_delete)
    have "set (f # fs) \<inter> dom (map_of m) = insert f (set fs \<inter> dom (map_of ?m))"
      using Some by (auto simp: delete_conv')
    then have "card (set (f # fs) \<inter> dom (map_of m)) = Suc (card (set fs \<inter> dom (map_of ?m)))"
      by (simp add: delete_conv')
    moreover have "hash_view e ?m |` (- set fs) = hash_view e m |` (- set (f # fs))"
      by (auto simp: restrict_map_def fun_eq_iff)
    moreover obtain m' where "hdel_loop fs ?m (hash_heap ?m) (n + 1) =
        (m', hash_heap m', n + 1 + int (card (set fs \<inter> dom (map_of ?m))))" "distinct (map fst m')"
      "hash_view e m' = hash_view e ?m |` (- set fs)"
      using Cons.IH [OF dist refl] by blast
    moreover have "hdel_loop (f # fs) m h n = hdel_loop fs ?m (hash_heap ?m) (n + 1)"
      using Cons.prems by (simp add: Some hash_heap_delete [OF Cons.prems(1) Some])
    ultimately show ?thesis
      by (intro exI [of _ m']) (simp del: hash_view_delete)
  qed
qed

section \<open>Views\<close>

text \<open>A view is usable when it is a write lock, or a read lock on a sound shard. \<open>key_live\<close>: the entry of
  the key, if any, is not past its deadline.\<close>

fun view_ok :: "'j LockedDb \<Rightarrow> bool" where
  "view_ok (ReadNormal (Readguard s)) \<longleftrightarrow> node_ok (snd s)"
| "view_ok l \<longleftrightarrow> locked_ok l"

definition key_live :: "rt \<Rightarrow> key \<Rightarrow> 'j LockedDb \<Rightarrow> bool" where
  "key_live r k l \<longleftrightarrow> pred_option (locked_vis r l) (locked_tk r l k)"

lemma locked_view_ok: "locked_ok l \<Longrightarrow> view_ok l"
  by (cases l rule: view_ok.cases) auto

lemma live_seen: "key_live r k l \<Longrightarrow> seen_of (locked_tk r l) (locked_vis r l) k = locked_tk r l k"
  by (cases "locked_tk r l k") (auto simp: key_live_def seen_of_def)

lemma read_guard_select:
  assumes "node_ok n"
  shows "\<exists>n'. direct_select r k (Readguard (g, n)) = Some (Readguard (g, n'), seen_of (db_store n) (unexpired r) k) \<and>
    node_ok n' \<and> db_store n' = db_store n \<and> approx_memory n' = approx_memory n"
proof (cases "seen_of (db_store n) (unexpired r) k")
  case None
  then show ?thesis
    using assms by (auto simp: peek_entry_def seen_of_def unexpired_def split: option.splits if_splits)
next
  case (Some v)
  then have "db_store n k = Some v" "\<not> expired r v"
    by (auto simp: seen_of_def unexpired_def split: option.splits if_splits)
  moreover obtain n' where "get_entry k (g, n) = Some ((g, n'), db_store n k)" "node_ok n'"
    "db_store n' = db_store n" "approx_memory n' = approx_memory n"
    using get_entry_spec [OF assms] by blast
  ultimately show ?thesis
    using Some by (auto simp: peek_entry_def get_entry_def bind_eq_Some_conv)
qed

abbreviation lview :: "'j env \<Rightarrow> 'j LockedDb \<Rightarrow> key \<Rightarrow> 'j ValueEntry option" where
  "lview e l k \<equiv> seen_of (locked_tk (rt_of e) l) (locked_vis (rt_of e) l) k"

lemma view_select:
  assumes "view_ok l"
  shows "\<exists>l'. locked_select (rt_of e) k l = Some (l', lview e l k) \<and> view_ok l' \<and> locked_ok l' = locked_ok l \<and>
    locked_tk (rt_of e) l' = (if locked_ok l then (locked_tk (rt_of e) l)(k := lview e l k) else locked_tk (rt_of e) l) \<and>
    locked_vis (rt_of e) l' = locked_vis (rt_of e) l \<and> locked_frame (rt_of e) l l'"
proof (cases "locked_ok l")
  case True
  then show ?thesis
    using locked.select_law [OF True, of "rt_of e" k] locked_view_ok by auto
next
  case False
  then obtain g n where l: "l = ReadNormal (Readguard (g, n))" "node_ok n"
    using assms(1) by (cases l rule: view_ok.cases) auto
  show ?thesis
    using read_guard_select [OF l(2), of "rt_of e" k g]
    by (auto simp: l(1) direct_tk_def locked_frame_def locked_acct_def direct_acct_def)
qed

text \<open>\<open>implements\<close>: a run of an executor on a locked shard does what the abstract result says, to that
  key and to no other; under a read lock nothing changes at all.\<close>

definition implements ::
  "'j env \<Rightarrow> key \<Rightarrow> 'j LockedDb \<Rightarrow> ('j LockedDb \<times> 'a) option \<Rightarrow> 'j aentry option \<times> 'a \<Rightarrow> bool" where
  "implements e k l res a \<longleftrightarrow>
     (\<exists>l'. res = Some (l', snd a) \<and> view_ok l' \<and> locked_ok l' = locked_ok l \<and>
        (if locked_ok l then slot_rel e (locked_tk (rt_of e) l' k) (fst a)
         else locked_tk (rt_of e) l' = locked_tk (rt_of e) l) \<and>
        (\<forall>x. x \<noteq> k \<longrightarrow> locked_tk (rt_of e) l' x = locked_tk (rt_of e) l x) \<and>
        locked_vis (rt_of e) l' = locked_vis (rt_of e) l \<and> locked_frame (rt_of e) l l')"

lemma implements_look:
  assumes "view_ok l" "slot_rel e (lview e l k) cur"
    and "\<And>l1. locked_select (rt_of e) k l = Some (l1, lview e l k) \<Longrightarrow> res = Some (l1, reply, log)"
  shows "implements e k l res (cur, reply, log)"
proof -
  obtain l1 where "locked_select (rt_of e) k l = Some (l1, lview e l k)" "view_ok l1" "locked_ok l1 = locked_ok l"
    "locked_tk (rt_of e) l1 = (if locked_ok l then (locked_tk (rt_of e) l)(k := lview e l k) else locked_tk (rt_of e) l)"
    "locked_vis (rt_of e) l1 = locked_vis (rt_of e) l" "locked_frame (rt_of e) l l1"
    using view_select [OF assms(1)] by blast
  then show ?thesis
    using assms(2,3) by (auto simp: implements_def)
qed

lemma implements_insert:
  assumes "locked_ok l" "ent_rel e en a"
    and "\<And>l1 l2. locked_take (rt_of e) k l = Some (l1, locked_tk (rt_of e) l k) \<Longrightarrow>
      locked_insert (rt_of e) k en l1 = Some l2 \<Longrightarrow> res = Some (l2, reply, log)"
  shows "implements e k l res (Some a, reply, log)"
  using locked.take_insert [OF assms(1), of "rt_of e" k en] assms locked_view_ok
  by (fastforce simp: implements_def)

lemma implements_remove:
  assumes "locked_ok l"
    and "\<And>l1 l2. locked_take (rt_of e) k l = Some (l1, locked_tk (rt_of e) l k) \<Longrightarrow>
      locked_delete (rt_of e) k l1 = Some l2 \<Longrightarrow> res = Some (l1, reply, log) \<or> res = Some (l2, reply, log)"
  shows "implements e k l res (None, reply, log)"
proof -
  let ?r = "rt_of e"
  obtain l1 where 1: "locked_take ?r k l = Some (l1, locked_tk ?r l k)" "locked_ok l1"
    "locked_tk ?r l1 = (locked_tk ?r l)(k := None)" "locked_vis ?r l1 = locked_vis ?r l"
    "locked_frame (rt_of e) l l1"
    using locked.take_law [OF assms(1)] by blast
  obtain l2 where 2: "locked_delete ?r k l1 = Some l2" "locked_ok l2"
    "locked_tk ?r l2 = (locked_tk ?r l1)(k := None)" "locked_vis ?r l2 = locked_vis ?r l1"
    "locked_frame (rt_of e) l1 l2"
    using locked.delete_law [OF 1(2)] by blast
  show ?thesis
    using assms(1) assms(2) [OF 1(1) 2(1)] 1 2 locked_view_ok locked_frame_simps(2) [OF 1(5) 2(5)]
    by (auto simp: implements_def)
qed

section \<open>Executors\<close>

text \<open>An entry of another type is put back as it was.\<close>

lemma ent_rel_cases:
  assumes "ent_rel e en (a, ex)"
  obtains (Str) el where "data en = VSimple el" "a = AStr (element_bytes e el)" "ex = expires_at en"
    | (List) d where "data en = VList d (list_heap d)" "a = AList (map (element_bytes e) d)" "ex = expires_at en"
    | (Hash) m where "data en = VHash m (hash_heap m)" "distinct (map fst m)" "a = AHash (hash_view e m)"
        "ex = expires_at en"
    | (Set) s h where "data en = VSet s h" "a = ASet (map (element_bytes e) s)" "ex = expires_at en"
    | (ZSet) z sz xs where "data en = VZSet z sz" "zset_ok z xs" "a = AZSet xs" "ex = expires_at en"
    | (Json) j sz where "data en = VJson j sz" "a = AJson j" "ex = expires_at en"
  using assms by (cases "data en") (auto simp: ent_rel_def)

lemma simple_entry_rel: "ent_rel e (simple_entry e v ex) (AStr (stored_bytes e v), ex)"
  by (auto simp: simple_entry_def stored_bytes_def bytes_to_i64_fast_def parse_int_from_bytes_def split: option.splits)

lemma exec_get_refines:
  assumes "view_ok l" "slot_rel e (lview e l k) cur"
  shows "implements e k l (exec_get e k l) (redis e (Get k) cur)"
proof -
  have "string_reply e (lview e l k) = (case cur of Some (AStr b, _) \<Rightarrow> Bulk b | _ \<Rightarrow> Null)"
  proof (cases cur)
    case None
    then show ?thesis
      using assms(2) by (simp add: string_reply_def)
  next
    case (Some a)
    then show ?thesis
      using assms(2) by (cases a) (auto elim!: slot_relE ent_rel_cases simp: string_reply_def)
  qed
  then show ?thesis
    by (auto simp: exec_get_def intro!: implements_look [OF assms])
qed

lemma exec_set_refines:
  assumes "locked_ok l" "slot_rel e (lview e l k) cur"
  shows "implements e k l (exec_set e k v ex cond l) (redis e (Set k v ex cond) cur)"
proof -
  let ?r = "rt_of e" and ?ex = "map_option (calculate_expiration_timestamp_ms (env_now e)) ex"
  let ?en = "simple_entry e v ?ex"
  have pres: "lview e l k \<noteq> None \<longleftrightarrow> cur \<noteq> None"
    using assms(2) by (cases cur; cases "lview e l k") auto
  obtain l1 l2 where 1: "locked_select ?r k l = Some (l1, lview e l k)"
    "locked_insert ?r k ?en l1 = Some l2" "locked_ok l2"
    "locked_tk ?r l2 = (locked_tk ?r l)(k \<mapsto> ?en)" "locked_vis ?r l2 = locked_vis ?r l" "locked_frame (rt_of e) l l2"
    using locked.select_insert [OF assms(1), of ?r k ?en] by auto
  obtain l3 where 3: "locked_insert ?r k ?en l = Some l3" "locked_ok l3"
    "locked_tk ?r l3 = (locked_tk ?r l)(k \<mapsto> ?en)" "locked_vis ?r l3 = locked_vis ?r l" "locked_frame (rt_of e) l l3"
    using locked.insert_law [OF assms(1)] by blast
  show ?thesis
  proof (cases "set_refused cond (cur \<noteq> None)")
    case True
    then show ?thesis
      using pres assms(2)
      by (auto simp: exec_set_def Let_def set_refused_def
          intro!: implements_look [OF locked_view_ok [OF assms(1)]])
  next
    case False
    then have "\<exists>l'. exec_set e k v ex cond l = Some (l', Inr (Simple ''OK''), [Set k v ex cond]) \<and> (l' = l2 \<or> l' = l3)"
      using pres 1(1,2) 3(1)
      by (cases cond) (auto simp: exec_set_def Let_def set_refused_def split: SetCondition.splits)
    then show ?thesis
      using False 1(3-) 3(2-) assms(1) locked_view_ok simple_entry_rel [of e v ?ex]
      by (auto simp: implements_def)
  qed
qed

lemma exec_hset_refines:
  assumes "locked_ok l" "slot_rel e (locked_tk (rt_of e) l k) cur"
  shows "implements e k l (exec_hset e k fvs l) (redis e (HSet k fvs) cur)"
proof (cases cur)
  case None
  obtain m' where "hset_loop fvs [] 0 0 = (m', hash_heap m', int (card (fst ` set fvs)))" "distinct (map fst m')"
    "hash_view e m' = hash_assign fvs Map.empty"
    using hset_loop_spec [of "[]" 0 fvs 0 e] by (auto simp: hash_view_def)
  then show ?thesis
    using None assms by (auto simp: exec_hset_def on_hash_def Let_def
        intro!: implements_insert [where en = "ValueEntry_new (rt_of e) (VHash m' (hash_heap m')) None"])
next
  case (Some a)
  obtain en v ex where en: "locked_tk (rt_of e) l k = Some en" "ent_rel e en (v, ex)" "a = (v, ex)"
    using assms(2) Some by (cases a) (auto elim: slot_relE)
  show ?thesis
    using en(2)
  proof (cases rule: ent_rel_cases)
    case (Hash m)
    obtain m' where "hset_loop fvs m (hash_heap m) 0 = (m', hash_heap m', int (card (fst ` set fvs - dom (map_of m))))"
      "distinct (map fst m')" "hash_view e m' = hash_assign fvs (hash_view e m)"
      using hset_loop_spec [OF Hash(2) refl, of fvs 0 e] by auto
    then show ?thesis
      using Hash Some en assms(1) by (auto simp: exec_hset_def on_hash_def Let_def
          intro!: implements_insert [where en = "ValueEntry_new (rt_of e) (VHash m' (hash_heap m')) ex"])
  qed (use en Some assms(1) in \<open>auto simp: exec_hset_def on_hash_def intro!: implements_insert [where en = en]\<close>)
qed

lemma exec_hget_refines:
  assumes "view_ok l" "slot_rel e (lview e l k) cur"
  shows "implements e k l (exec_hget e k f l) (redis e (HGet k f) cur)"
proof (cases cur)
  case None
  then show ?thesis
    using assms(2) by (auto simp: exec_hget_def on_hash_def intro!: implements_look [OF assms(1)])
next
  case (Some a)
  obtain en v ex where en: "lview e l k = Some en" "ent_rel e en (v, ex)" "a = (v, ex)"
    using assms(2) Some by (cases a) (auto elim: slot_relE)
  show ?thesis
    using en(2) by (cases rule: ent_rel_cases)
      (use en Some in \<open>auto simp: exec_hget_def on_hash_def hash_view_def split: option.splits
          intro!: implements_look [OF assms(1)]\<close>)
qed

lemma exec_hdel_refines:
  assumes "locked_ok l" "slot_rel e (locked_tk (rt_of e) l k) cur"
  shows "implements e k l (exec_hdel e k fs l) (redis e (HDel k fs) cur)"
proof (cases cur)
  case None
  then show ?thesis
    using assms by (auto simp: exec_hdel_def on_hash_def intro!: implements_remove)
next
  case (Some a)
  obtain en v ex where en: "locked_tk (rt_of e) l k = Some en" "ent_rel e en (v, ex)" "a = (v, ex)"
    using assms(2) Some by (cases a) (auto elim: slot_relE)
  show ?thesis
    using en(2)
  proof (cases rule: ent_rel_cases)
    case (Hash m)
    obtain m' where m': "hdel_loop fs m (hash_heap m) 0 = (m', hash_heap m', int (card (set fs \<inter> dom (map_of m))))"
      "distinct (map fst m')" "hash_view e m' = hash_view e m |` (- set fs)"
      using hdel_loop_spec [OF Hash(2) refl, of fs 0 e] by auto
    have "dom (map_of m) - set fs = dom (map_of m')"
      using dom_hash_view [of e m'] m'(3) by auto
    then have empty: "dom (map_of m) \<subseteq> set fs \<longleftrightarrow> m' = []"
      by (cases m') auto
    show ?thesis
    proof (cases "m' = []")
      case True
      then show ?thesis
        using Hash Some en assms(1) m' empty by (auto simp: exec_hdel_def on_hash_def intro!: implements_remove)
    next
      case False
      then show ?thesis
        using Hash Some en assms(1) m' empty by (auto simp: exec_hdel_def on_hash_def
            intro!: implements_insert [where en = "ValueEntry_new (rt_of e) (VHash m' (hash_heap m')) ex"])
    qed
  qed (use en Some assms(1) in \<open>auto simp: exec_hdel_def on_hash_def intro!: implements_insert [where en = en]\<close>)
qed

lemma exec_lpush_log:
  "exec_lpush e k pushes vs l =
     map_option (\<lambda>(l', reply, log). (l', reply, map (\<lambda>_. LPush k vs) log)) (exec_lpush e k pushes pushes l)"
  by (auto simp: exec_lpush_def Let_def lpush_loop_spec split: Option.bind_splits option.splits Value.splits)

lemma exec_lpush_empty_refines:
  assumes "view_ok l" "slot_rel e (lview e l k) cur"
  shows "implements e k l (exec_lpush e k [] [] l) (redis e (LPush k []) cur)"
proof (cases cur)
  case None
  then show ?thesis
    using assms(2) by (auto simp: exec_lpush_def intro!: implements_look [OF assms(1)])
next
  case (Some a)
  obtain en v ex where en: "lview e l k = Some en" "ent_rel e en (v, ex)" "a = (v, ex)"
    using assms(2) Some by (cases a) (auto elim: slot_relE)
  show ?thesis
    using en(2) by (cases rule: ent_rel_cases)
      (use en Some in \<open>auto simp: exec_lpush_def intro!: implements_look [OF assms(1)]\<close>)
qed

lemma exec_lpush_refines:
  assumes "locked_ok l" "slot_rel e (locked_tk (rt_of e) l k) cur" "vs \<noteq> []"
  shows "implements e k l (exec_lpush e k vs vs l) (redis e (LPush k vs) cur)"
proof (cases cur)
  case None
  then show ?thesis
    using assms by (auto simp: exec_lpush_def on_list_def Let_def lpush_loop_spec rev_map [symmetric]
        intro!: implements_insert [where en = "ValueEntry_new (rt_of e)
          (VList (rev (map EString vs)) (list_heap (map EString vs))) None"])
next
  case (Some a)
  obtain en v ex where en: "locked_tk (rt_of e) l k = Some en" "ent_rel e en (v, ex)" "a = (v, ex)"
    using assms(2) Some by (cases a) (auto elim: slot_relE)
  show ?thesis
    using en(2)
  proof (cases rule: ent_rel_cases)
    case (List d)
    then show ?thesis
      using Some en assms(1,3)
      by (auto simp: exec_lpush_def on_list_def Let_def lpush_loop_spec rev_map [symmetric] ac_simps
          intro!: implements_insert [where en = "ValueEntry_new (rt_of e)
            (VList (rev (map EString vs) @ d) (list_heap d + list_heap (map EString vs))) ex"])
  qed (use assms(1,3) en Some in \<open>auto simp: exec_lpush_def on_list_def intro!: implements_insert [where en = en]\<close>)
qed

lemma exec_lpop_refines:
  assumes "locked_ok l" "slot_rel e (locked_tk (rt_of e) l k) cur"
  shows "implements e k l (exec_lpop e k l) (redis e (LPop k) cur)"
proof (cases cur)
  case None
  then show ?thesis
    using assms by (auto simp: exec_lpop_def on_list_def intro!: implements_remove)
next
  case (Some a)
  obtain en v ex where en: "locked_tk (rt_of e) l k = Some en" "ent_rel e en (v, ex)" "a = (v, ex)"
    using assms(2) Some by (cases a) (auto elim: slot_relE)
  show ?thesis
    using en(2)
  proof (cases rule: ent_rel_cases)
    case (List d)
    show ?thesis
    proof (cases d)
      case Nil
      then show ?thesis
        using List Some en assms(1) by (auto simp: exec_lpop_def on_list_def intro!: implements_remove)
    next
      case (Cons item d')
      show ?thesis
      proof (cases "d' = []")
        case True
        then show ?thesis
          using Cons List Some en assms(1) by (auto simp: exec_lpop_def on_list_def intro!: implements_remove)
      next
        case False
        then show ?thesis
          using Cons List Some en assms(1) by (auto simp: exec_lpop_def on_list_def
              intro!: implements_insert [where en = "ValueEntry_new (rt_of e) (VList d' (list_heap d')) ex"])
      qed
    qed
  qed (use en Some assms(1) in \<open>auto simp: exec_lpop_def on_list_def intro!: implements_insert [where en = en]\<close>)
qed

lemma exec_zadd_refines:
  assumes "locked_ok l" "slot_rel e (locked_tk (rt_of e) l k) cur" "accepts (ZAdd k sc m) cur"
  shows "implements e k l (exec_zadd e k sc m l) (redis e (ZAdd k sc m) cur)"
proof (cases cur)
  case None
  obtain z where "zset_insert (level_draws e) sc m ZSet_new = Some (z, True)" "zset_ok z (zassign sc m [])"
    using zset_insert_spec [OF zset_ok_new, of sc "level_draws e" m] assms(3) by (auto simp: NODE_LIMIT_def)
  then show ?thesis
    using None assms(1,2) by (auto simp: exec_zadd_def on_zset_def Let_def
        intro!: implements_insert [where en = "ValueEntry_new (rt_of e) (VZSet z (zset_heap_memory_size (rt_of e) z)) None"])
next
  case (Some a)
  obtain en v ex where en: "locked_tk (rt_of e) l k = Some en" "ent_rel e en (v, ex)" "a = (v, ex)"
    using assms(2) Some by (cases a) (auto elim: slot_relE)
  show ?thesis
    using en(2)
  proof (cases rule: ent_rel_cases)
    case (ZSet z sz xs)
    obtain z' where "zset_insert (level_draws e) sc m z = Some (z', m \<notin> snd ` set xs)" "zset_ok z' (zassign sc m xs)"
      using zset_insert_spec [OF ZSet(2), of sc "level_draws e" m] assms(3) Some en(3) ZSet(3) by auto
    then show ?thesis
      using ZSet Some en assms(1)
      by (cases "m \<in> snd ` set xs"; simp add: exec_zadd_def on_zset_def Let_def;
          intro implements_insert [where en = "ValueEntry_new (rt_of e) (VZSet z' (zset_heap_memory_size (rt_of e) z')) ex"];
          simp)
  qed (use en Some assms(1) in \<open>auto simp: exec_zadd_def on_zset_def intro!: implements_insert [where en = en]\<close>)
qed

lemma zset_score_spec:
  assumes "zset_ok z xs"
  shows "zset_score m z = map_of (map (\<lambda>x. (snd x, fst x)) xs) m"
proof -
  have "distinct (map fst (map (\<lambda>x. (snd x, fst x)) xs))"
    using assms by (simp add: zset_ok_def comp_def)
  then have "map_of (map (\<lambda>x. (snd x, fst x)) xs) m = Some s \<longleftrightarrow> zset_score m z = Some s" for s
    using zset_lookup [OF assms, of m s] by (subst map_of_eq_Some_iff) (auto simp: zset_score_def)
  then show ?thesis
    by (cases "zset_score m z"; cases "map_of (map (\<lambda>x. (snd x, fst x)) xs) m") auto
qed

lemma exec_zlook_refines:
  assumes "view_ok l" "slot_rel e (lview e l k) cur"
  shows "implements e k l (exec_zscore e k m l) (redis e (ZScore k m) cur)"
    and "implements e k l (exec_zrank e k m l) (redis e (ZRank k m) cur)"
    and "implements e k l (exec_zrange e k i j l) (redis e (ZRange k i j) cur)"
proof -
  note zdefs = exec_zscore_def exec_zrank_def exec_zrange_def on_zset_def
  have "implements e k l (exec_zscore e k m l) (redis e (ZScore k m) cur) \<and>
    implements e k l (exec_zrank e k m l) (redis e (ZRank k m) cur) \<and>
    implements e k l (exec_zrange e k i j l) (redis e (ZRange k i j) cur)"
  proof (cases cur)
    case None
    then show ?thesis
      using assms(2) by (auto simp: zdefs intro!: implements_look [OF assms(1)])
  next
    case (Some a)
    obtain en v ex where en: "lview e l k = Some en" "ent_rel e en (v, ex)" "a = (v, ex)"
      using assms(2) Some by (cases a) (auto elim: slot_relE)
    show ?thesis
      using en(2)
    proof (cases rule: ent_rel_cases)
      case (ZSet z sz xs)
      then show ?thesis
        using en Some zset_rank_spec [OF ZSet(2)] zset_range_spec [OF ZSet(2)] zset_score_spec [OF ZSet(2)]
        by (auto simp: zdefs comp_def split: option.splits intro!: implements_look [OF assms(1)])
    qed (use en Some in \<open>auto simp: zdefs intro!: implements_look [OF assms(1)]\<close>)
  qed
  then show "implements e k l (exec_zscore e k m l) (redis e (ZScore k m) cur)"
    and "implements e k l (exec_zrank e k m l) (redis e (ZRank k m) cur)"
    and "implements e k l (exec_zrange e k i j l) (redis e (ZRange k i j) cur)"
    by blast+
qed

lemma exec_zrem_refines:
  assumes "locked_ok l" "slot_rel e (locked_tk (rt_of e) l k) cur"
  shows "implements e k l (exec_zrem e k m l) (redis e (ZRem k m) cur)"
proof (cases cur)
  case None
  then show ?thesis
    using assms by (auto simp: exec_zrem_def on_zset_def intro!: implements_remove)
next
  case (Some a)
  obtain en v ex where en: "locked_tk (rt_of e) l k = Some en" "ent_rel e en (v, ex)" "a = (v, ex)"
    using assms(2) Some by (cases a) (auto elim: slot_relE)
  show ?thesis
    using en(2)
  proof (cases rule: ent_rel_cases)
    case (ZSet z sz xs)
    obtain z' where z': "zset_delete m z = Some (z', m \<in> snd ` set xs)" "zset_ok z' (zremove m xs)"
      using zset_delete_spec [OF ZSet(2)] by blast
    have len: "zset_len z' = 0 \<longleftrightarrow> zremove m xs = []"
      by (simp add: zset_len_ok [OF z'(2)])
    let ?en = "ValueEntry_new (rt_of e) (VZSet z' (zset_heap_memory_size (rt_of e) z')) ex"
    show ?thesis
    proof (cases "m \<in> snd ` set xs")
      case True
      then show ?thesis
        using ZSet Some en assms(1) z' len
        by (auto simp: exec_zrem_def on_zset_def intro!: implements_remove implements_insert [where en = ?en])
    next
      case False
      then show ?thesis
        using ZSet Some en assms(1) z' zremove_id [OF False]
        by (auto simp: exec_zrem_def on_zset_def intro!: implements_insert [where en = ?en])
    qed
  qed (use en Some assms(1) in \<open>auto simp: exec_zrem_def on_zset_def intro!: implements_insert [where en = en]\<close>)
qed

lemma exec_json_get_refines:
  assumes "view_ok l" "slot_rel e (lview e l k) cur"
  shows "implements e k l (exec_json_get e k p l) (redis e (JsonGet k p) cur)"
proof (cases cur)
  case None
  then show ?thesis
    using assms(2) by (auto simp: exec_json_get_def on_json_def intro!: implements_look [OF assms(1)])
next
  case (Some a)
  obtain en v ex where en: "lview e l k = Some en" "ent_rel e en (v, ex)" "a = (v, ex)"
    using assms(2) Some by (cases a) (auto elim: slot_relE)
  show ?thesis
    using en(2) by (cases rule: ent_rel_cases)
      (use en Some in \<open>auto simp: exec_json_get_def on_json_def split: option.splits
          intro!: implements_look [OF assms(1)]\<close>)
qed

lemma implements_same:
  assumes "locked_ok l" "slot_rel e (locked_tk (rt_of e) l k) cur"
  shows "implements e k l (Some (l, reply, log)) (cur, reply, log)"
  using assms locked_view_ok locked_frame_simps(1) by (auto simp: implements_def)

lemma exec_json_set_refines:
  assumes "locked_ok l" "slot_rel e (locked_tk (rt_of e) l k) cur"
  shows "implements e k l (exec_json_set e k p v l) (redis e (JsonSet k p v) cur)"
proof (cases "json_from_str e v")
  case None
  then show ?thesis
    using implements_same [OF assms] by (simp add: exec_json_set_def)
next
  case j: (Some j)
  show ?thesis
  proof (cases cur)
    case None
    then show ?thesis
      using assms j by (auto simp: exec_json_set_def on_json_def
          intro!: implements_remove implements_insert [where en = "ValueEntry_new (rt_of e) (VJson j (json_len e j)) None"])
  next
    case (Some a)
    obtain en va ex where en: "locked_tk (rt_of e) l k = Some en" "ent_rel e en (va, ex)" "a = (va, ex)"
      using assms(2) Some by (cases a) (auto elim: slot_relE)
    show ?thesis
      using en(2)
    proof (cases rule: ent_rel_cases)
      case (Json root sz)
      have put: "ent_rel e (en\<lparr>data := VJson root' n\<rparr>) (AJson root', expires_at en)" for root' n
        using Json by (simp add: ent_rel_def)
      show ?thesis
      proof (cases "if root_path p then Some j else json_pointer_set e p j root")
        case no: None
        show ?thesis
          using Json Some en assms(1) j no
          by (auto simp: exec_json_set_def on_json_def split: if_splits intro!: implements_insert [OF _ put [of root 0]])
      next
        case yes: (Some root')
        show ?thesis
          using Json Some en assms(1) j yes
          by (auto simp: exec_json_set_def on_json_def split: if_splits
              intro!: implements_insert [OF _ put [of root' "json_len e root'"]])
      qed
    qed (use en Some assms(1) j in \<open>auto simp: exec_json_set_def on_json_def intro!: implements_insert [where en = en]\<close>)
  qed
qed

section \<open>Refinement\<close>

lemma redis_looks: "looks c \<Longrightarrow> redis e c cur = (cur', reply, log) \<Longrightarrow> cur' = cur"
  by (cases c) (auto simp: looks_def on_hash_def on_zset_def on_json_def split: option.splits prod.splits aval.splits)

text \<open>What an executor is handed: a lookup shows only an entry that is not expired, \<^verbatim>\<open>take\<close> hands out
  any entry.\<close>

fun by_lookup :: "Command \<Rightarrow> bool" where
  "by_lookup (Set _ _ _ _) \<longleftrightarrow> True"
| "by_lookup (LPush _ vs) \<longleftrightarrow> vs = []"
| "by_lookup c \<longleftrightarrow> looks c"

definition handed :: "'j env \<Rightarrow> Command \<Rightarrow> 'j LockedDb \<Rightarrow> key \<Rightarrow> 'j ValueEntry option" where
  "handed e c l k = (if by_lookup c then lview e l k else locked_tk (rt_of e) l k)"

lemma handed_live: "key_live (rt_of e) k l \<Longrightarrow> handed e c l k = locked_tk (rt_of e) l k"
  by (simp add: handed_def live_seen)

lemma exec_locked_refines:
  assumes "single_key c" "get_key c = Some k" "view_ok l" "looks c \<or> locked_ok l"
    "slot_rel e (handed e c l k) cur" "accepts c cur"
  shows "implements e k l (exec_locked e c l) (redis e c cur)"
proof (cases "by_lookup c")
  case True
  then have cur: "slot_rel e (lview e l k) cur"
    using assms(5) by (simp add: handed_def)
  show ?thesis
  proof (cases "looks c")
    case True
    then show ?thesis
      using assms(1,2) exec_get_refines [OF assms(3) cur] exec_hget_refines [OF assms(3) cur]
        exec_zlook_refines [OF assms(3) cur] exec_json_get_refines [OF assms(3) cur]
      by (cases c) (auto simp: looks_def get_key_def exec_locked_def simp del: redis.simps)
  next
    case False
    then have "locked_ok l"
      using assms(4) by blast
    then show ?thesis
      using True False assms(1,2) exec_set_refines [OF _ cur] exec_lpush_empty_refines [OF assms(3) cur]
      by (cases c) (auto simp: looks_def get_key_def exec_locked_def simp del: redis.simps)
  qed
next
  case False
  then have "\<not> looks c"
    by (cases c) (auto simp: looks_def)
  then have ok: "locked_ok l" and cur: "slot_rel e (locked_tk (rt_of e) l k) cur"
    using False assms(4,5) by (simp_all add: handed_def)
  show ?thesis
    using False assms(1,2,6) exec_hset_refines [OF ok cur]
      exec_hdel_refines [OF ok cur] exec_lpush_refines [OF ok cur] exec_lpop_refines [OF ok cur]
      exec_zadd_refines [OF ok cur] exec_zrem_refines [OF ok cur] exec_json_set_refines [OF ok cur]
    by (cases c) (auto simp: looks_def get_key_def exec_locked_def simp del: redis.simps)
qed

section \<open>Sound entries\<close>

text \<open>The representation invariant of an entry alone, and of all the entries a view hands out.\<close>

fun val_ok :: "'j Value \<Rightarrow> bool" where
  "val_ok (VList d h) \<longleftrightarrow> h = list_heap d"
| "val_ok (VHash m h) \<longleftrightarrow> distinct (map fst m) \<and> h = hash_heap m"
| "val_ok (VZSet z sz) \<longleftrightarrow> (\<exists>xs. zset_ok z xs)"
| "val_ok _ \<longleftrightarrow> True"

definition vals_ok :: "(key \<rightharpoonup> 'j ValueEntry) \<Rightarrow> bool" where
  "vals_ok m \<longleftrightarrow> (\<forall>k en. m k = Some en \<longrightarrow> val_ok (data en))"

lemma val_ok_rel: "val_ok v \<longleftrightarrow> (\<exists>a. val_rel e v a)"
  by (cases v) auto

lemma vals_ok_slot:
  assumes "vals_ok m"
  shows "\<exists>cur. slot_rel e (m k) cur"
proof (cases "m k")
  case (Some en)
  then obtain a where "val_rel e (data en) a"
    using assms val_ok_rel [of "data en" e] by (auto simp: vals_ok_def)
  then show ?thesis
    using Some by (intro exI [of _ "Some (a, expires_at en)"]) (simp add: ent_rel_def)
qed (auto intro: exI [of _ None])

lemma slot_val_ok: "slot_rel e cur a \<Longrightarrow> cur = Some en \<Longrightarrow> val_ok (data en)"
  by (cases a) (auto simp: ent_rel_def val_ok_rel [of _ e])

lemma vals_ok_le: "vals_ok m \<Longrightarrow> m' \<subseteq>\<^sub>m m \<Longrightarrow> vals_ok m'"
  unfolding vals_ok_def map_le_def by (metis domI)

lemma vals_ok_simps [simp]: "vals_ok Map.empty" "vals_ok m \<Longrightarrow> vals_ok (m(k := None))"
  by (auto simp: vals_ok_def)

lemma vals_ok_upd: "vals_ok m \<Longrightarrow> val_ok (data en) \<Longrightarrow> vals_ok (m(k \<mapsto> en))"
  by (auto simp: vals_ok_def)

lemma vals_ok_seen: "vals_ok m \<Longrightarrow> vals_ok (seen_of m vis)"
  by (auto simp: vals_ok_def seen_of_def split: option.splits if_splits)

text \<open>A sorted-set command fits an entry when its score is a number and the arena has room.\<close>

fun fits :: "Command \<Rightarrow> 'j ValueEntry option \<Rightarrow> bool" where
  "fits (ZAdd k sc m) cur \<longleftrightarrow>
     \<not> f64_is_nan sc \<and>
     (case cur of
        Some en \<Rightarrow> (case data en of VZSet z _ \<Rightarrow> Suc (zset_len z) < NODE_LIMIT | _ \<Rightarrow> True)
      | None \<Rightarrow> True)"
| "fits _ _ \<longleftrightarrow> True"

lemma fits_accepts:
  assumes "fits c cur" and "slot_rel e cur a"
  shows "accepts c a"
proof (cases c)
  case (ZAdd k sc m)
  show ?thesis
  proof (cases a)
    case (Some x)
    obtain en v ex where en: "cur = Some en" "ent_rel e en (v, ex)" "x = (v, ex)"
      using assms(2) Some by (cases x) (auto elim: slot_relE)
    show ?thesis
      using en(2) by (cases rule: ent_rel_cases) (use en Some ZAdd assms(1) zset_len_ok in \<open>auto split: aval.splits\<close>)
  qed (use ZAdd assms(1) in auto)
qed auto

text \<open>\<open>keeps\<close>: a run that does not panic and keeps everything sound.\<close>

definition keeps :: "'j env \<Rightarrow> key \<Rightarrow> 'j LockedDb \<Rightarrow> ('j LockedDb \<times> 'a) option \<Rightarrow> bool" where
  "keeps e k l res \<longleftrightarrow>
     (\<exists>l' x. res = Some (l', x) \<and> view_ok l' \<and> locked_ok l' = locked_ok l \<and> locked_frame (rt_of e) l l' \<and>
        vals_ok (locked_tk (rt_of e) l') \<and>
        (\<forall>y. y \<noteq> k \<longrightarrow> locked_tk (rt_of e) l' y = locked_tk (rt_of e) l y))"

lemma implements_keeps:
  assumes "implements e k l res a" and "vals_ok (locked_tk (rt_of e) l)"
  shows "keeps e k l res"
proof -
  obtain l' where l': "res = Some (l', snd a)" "view_ok l'" "locked_ok l' = locked_ok l"
    "if locked_ok l then slot_rel e (locked_tk (rt_of e) l' k) (fst a)
     else locked_tk (rt_of e) l' = locked_tk (rt_of e) l"
    "\<forall>x. x \<noteq> k \<longrightarrow> locked_tk (rt_of e) l' x = locked_tk (rt_of e) l x" "locked_frame (rt_of e) l l'"
    using assms(1) unfolding implements_def by blast
  have "vals_ok (locked_tk (rt_of e) l')"
    unfolding vals_ok_def
  proof (intro allI impI)
    fix x en
    assume x: "locked_tk (rt_of e) l' x = Some en"
    show "val_ok (data en)"
      using x l'(4,5) assms(2) slot_val_ok [of e "locked_tk (rt_of e) l' k" "fst a" en]
      by (cases "x = k"; cases "locked_ok l") (auto simp: vals_ok_def)
  qed
  then show ?thesis
    using l' by (auto simp: keeps_def)
qed

lemma handed_slot: "vals_ok (locked_tk (rt_of e) l) \<Longrightarrow> \<exists>cur. slot_rel e (handed e c l k) cur"
  using vals_ok_slot [of "locked_tk (rt_of e) l" e k]
    vals_ok_slot [OF vals_ok_seen, of "locked_tk (rt_of e) l" e "locked_vis (rt_of e) l" k]
  by (simp add: handed_def)

lemma exec_locked_keeps:
  assumes "single_key c" "get_key c = Some k" "view_ok l" "looks c \<or> locked_ok l"
    "vals_ok (locked_tk (rt_of e) l)" "fits c (locked_tk (rt_of e) l k)"
  shows "keeps e k l (exec_locked e c l)"
proof -
  obtain cur where cur: "slot_rel e (handed e c l k) cur"
    using handed_slot [OF assms(5)] by blast
  have "fits c (handed e c l k)"
    using assms(6) by (cases c) (auto simp: handed_def looks_def)
  then show ?thesis
    using exec_locked_refines [OF assms(1-4) cur] fits_accepts [OF _ cur] implements_keeps assms(5) by blast
qed

text \<open>The pushing half of \<^verbatim>\<open>LPUSH\<close>, after some of the values went to blocked clients.\<close>

lemma exec_lpush_keeps:
  assumes "locked_ok l" "vals_ok (locked_tk (rt_of e) l)"
  shows "keeps e k l (exec_lpush e k pushes vs l)"
proof -
  have "keeps e k l (exec_lpush e k pushes pushes l)"
    using exec_locked_keeps [of "LPush k pushes" k l e] assms locked_view_ok by (auto simp: get_key_def exec_locked_def)
  then show ?thesis
    by (subst exec_lpush_log) (auto simp: keeps_def)
qed

fun blpop_spec :: "'j aentry option \<Rightarrow> 'j aentry option \<times> blpop_phase" where
  "blpop_spec None = (None, Absent)"
| "blpop_spec (Some (AList [], ex)) = (Some (AList [], ex), EmptyList)"
| "blpop_spec (Some (AList (b # xs), ex)) = (if xs = [] then None else Some (AList xs, ex), Popped b)"
| "blpop_spec (Some a) = (Some a, WrongType)"

lemma exec_blpop_refines:
  assumes "locked_ok l" "slot_rel e (locked_tk (rt_of e) l k) cur"
  shows "implements e k l (map_option (\<lambda>(l', ph). (l', Inr Null, [])) (exec_blpop e k l))
           (fst (blpop_spec cur), Inr Null, []) \<and>
    map_option snd (exec_blpop e k l) = Some (snd (blpop_spec cur))"
proof (cases cur)
  case None
  then show ?thesis
    using assms locked.take_law [OF assms(1), of "rt_of e" k]
    by (auto simp: exec_blpop_def intro!: implements_remove)
next
  case (Some a)
  obtain en v ex where en: "locked_tk (rt_of e) l k = Some en" "ent_rel e en (v, ex)" "a = (v, ex)"
    using assms(2) Some by (cases a) (auto elim: slot_relE)
  obtain l1 where l1: "locked_take (rt_of e) k l = Some (l1, Some en)" "locked_ok l1"
    using locked.take_law [OF assms(1), of "rt_of e" k] en(1) by auto
  have ins: "\<exists>l2. locked_insert (rt_of e) k x l1 = Some l2" for x
    using locked.insert_law [OF l1(2)] by blast
  have del: "\<exists>l2. locked_delete (rt_of e) k l1 = Some l2"
    using locked.delete_law [OF l1(2)] by blast
  show ?thesis
    using en(2)
  proof (cases rule: ent_rel_cases)
    case (List d)
    show ?thesis
    proof (cases d)
      case Nil
      then show ?thesis
        using List Some en assms(1) l1 ins [of "ValueEntry_new (rt_of e) (VList [] 0) ex"]
        by (auto simp: exec_blpop_def
            intro!: implements_insert [where en = "ValueEntry_new (rt_of e) (VList [] 0) ex"])
    next
      case (Cons item d')
      show ?thesis
      proof (cases "d' = []")
        case True
        then show ?thesis
          using Cons List Some en assms(1) l1 del by (auto simp: exec_blpop_def intro!: implements_remove)
      next
        case False
        then show ?thesis
          using Cons List Some en assms(1) l1 ins [of "ValueEntry_new (rt_of e) (VList d' (list_heap d')) ex"]
          by (auto simp: exec_blpop_def
              intro!: implements_insert [where en = "ValueEntry_new (rt_of e) (VList d' (list_heap d')) ex"])
      qed
    qed
  qed (use en Some assms(1) l1 ins [of en] in \<open>auto simp: exec_blpop_def intro!: implements_insert [where en = en]\<close>)
qed

lemma exec_blpop_keeps:
  assumes "locked_ok l" "vals_ok (locked_tk (rt_of e) l)"
  shows "keeps e k l (exec_blpop e k l)"
proof -
  obtain cur where "slot_rel e (locked_tk (rt_of e) l k) cur"
    using vals_ok_slot [OF assms(2)] by blast
  then have "keeps e k l (map_option (\<lambda>(l', ph). (l', Inr Null :: Frame kvres, [] :: Command list)) (exec_blpop e k l))"
    using exec_blpop_refines [OF assms(1)] implements_keeps assms(2) by blast
  then show ?thesis
    by (auto simp: keeps_def)
qed

lemma exec_mset_one_keeps:
  assumes "locked_ok l" "vals_ok (locked_tk (rt_of e) l)"
  shows "keeps e k l (map_option (\<lambda>l'. (l', ())) (exec_mset_one e k v l))"
proof -
  have ok: "val_ok (data (simple_entry e v None))"
    by (simp add: simple_entry_def split: option.splits)
  obtain l' where l': "locked_insert (rt_of e) k (simple_entry e v None) l = Some l'" "locked_ok l'"
    "locked_tk (rt_of e) l' = (locked_tk (rt_of e) l)(k \<mapsto> simple_entry e v None)" "locked_frame (rt_of e) l l'"
    using locked.insert_law [OF assms(1)] by blast
  show ?thesis
    using l' vals_ok_upd [OF assms(2) ok, of k] assms(1) locked_view_ok [OF l'(2)]
    by (simp add: keeps_def exec_mset_one_def)
qed

text \<open>The parts of the commands on several keys, and the locked phase of \<^verbatim>\<open>BLPOP\<close>.\<close>

lemma exec_blpop_implements:
  "locked_ok l \<Longrightarrow> slot_rel e (locked_tk (rt_of e) l k) cur \<Longrightarrow> implements e k l (exec_blpop e k l) (blpop_spec cur)"
  using exec_blpop_refines [of l e k cur] by (auto simp: implements_def)

lemma exec_mset_one_implements:
  assumes "locked_ok l"
  shows "implements e k l (map_option (\<lambda>l'. (l', ())) (exec_mset_one e k v l)) (Some (AStr (stored_bytes e v), None), ())"
proof -
  obtain l' where "locked_insert (rt_of e) k (simple_entry e v None) l = Some l'" "locked_ok l'"
    "locked_tk (rt_of e) l' = (locked_tk (rt_of e) l)(k \<mapsto> simple_entry e v None)" "locked_vis (rt_of e) l' = locked_vis (rt_of e) l"
    "locked_frame (rt_of e) l l'"
    using locked.insert_law [OF assms] by blast
  then show ?thesis
    using assms locked_view_ok simple_entry_rel [of e v None] by (auto simp: implements_def exec_mset_one_def)
qed

definition aget :: "'j aentry option \<Rightarrow> Frame" where
  "aget cur = (case cur of Some (AStr b, _) \<Rightarrow> Bulk b | _ \<Rightarrow> Null)"

lemma mget_one_implements:
  assumes "view_ok l" "slot_rel e (lview e l k) cur"
  shows "implements e k l (map_option (\<lambda>(l', cur). (l', string_reply e cur)) (locked_select (rt_of e) k l)) (cur, aget cur)"
  using exec_get_refines [OF assms]
  by (cases "locked_select (rt_of e) k l") (auto simp: implements_def exec_get_def aget_def)

section \<open>Properties\<close>

text \<open>A concrete environment, at clock reading 9, for the examples.\<close>

definition demo_rt :: rt where
  "demo_rt = \<lparr>cached_time_ms = 9, deque_capacity = (\<lambda>d. of_nat (length d)),
     hash_capacity = (\<lambda>m. of_nat (length m)), set_capacity = (\<lambda>s. of_nat (length s)),
     zset_dict_capacity = (\<lambda>z. of_nat (zset_len z)), zset_nodes_capacity = (\<lambda>z. of_nat (zset_len z)),
     size_of_Element = 32, size_of_RString = 24, size_of_Bytes = 32, size_of_f64 = 8,
     size_of_SNode = 72, size_of_ValueEntry = 80\<rparr>"

definition demo_env :: "unit env" where
  "demo_env = \<lparr>ext_of = demo_ext, rt_of = demo_rt, lexical_parse_i64 = (\<lambda>_. None),
     json_from_str = (\<lambda>_. Some ()), json_to_string = (\<lambda>_. Some ''null''),
     json_pointer = (\<lambda>_ _. None), json_pointer_set = (\<lambda>_ _ _. None), level_draws = [],
     fx_hash = (\<lambda>k. of_nat (length k)), num_shards = 2\<rparr>"

lemma demo_env_simps [simp]:
  "rt_of demo_env = demo_rt" "cached_time_ms demo_rt = 9" "ext_of demo_env = demo_ext"
  "json_from_str demo_env s = Some ()" "fx_hash demo_env k = of_nat (length k)"
  "lexical_parse_i64 demo_env s = None" "num_shards demo_env = 2"
  by (simp_all add: demo_env_def demo_rt_def)

text \<open>Property C8: every single-key command implements its abstract meaning. On a usable view of a
  shard (a write lock, the buffered write lock of a script, or a read lock for a command that only
  looks), with the key not past its deadline and its entry representing an abstract value, the
  executor does not panic; reply, log entries and the new value of the key are those of the
  abstract command, with exact element sizes, distinct hash keys and a sound sorted set; no
  other key changes, the shard stays sound, the memory of the other shards is untouched and, for
  a script, so are the entries of the shard under its buffer, except that expired ones may go.\<close>

theorem executors_refine_redis:
  assumes "single_key c" and "get_key c = Some k" and "view_ok l" and "looks c \<or> locked_ok l"
    and "key_live (rt_of e) k l" and "slot_rel e (locked_tk (rt_of e) l k) cur" and "accepts c cur"
    and "redis e c cur = (cur', reply, log)"
  shows "\<exists>l'. exec_locked e c l = Some (l', reply, log) \<and> view_ok l' \<and> locked_ok l' = locked_ok l \<and>
    slot_rel e (locked_tk (rt_of e) l' k) cur' \<and>
    (\<forall>x. x \<noteq> k \<longrightarrow> locked_tk (rt_of e) l' x = locked_tk (rt_of e) l x) \<and>
    locked_frame (rt_of e) l l'"
proof -
  have "implements e k l (exec_locked e c l) (redis e c cur)"
    using assms by (intro exec_locked_refines) (simp_all add: handed_live)
  moreover have "cur' = cur" if "\<not> locked_ok l"
    using that assms(4,8) redis_looks by blast
  ultimately show ?thesis
    using assms(6,8) by (auto simp: implements_def split: if_splits)
qed

theorem executors_refine_redis_witness:
  "\<forall>e :: unit env. \<exists>l'.
     exec_locked e (LPush ''k'' [''a'', ''b'']) (WriteNormal (Writeguard (0, MemoryCacheNode_new LRU))) =
       Some (l', Inr (Integer 2), [LPush ''k'' [''a'', ''b'']]) \<and>
     slot_rel e (locked_tk (rt_of e) l' ''k'') (Some (AList [''b'', ''a''], None))"
proof
  fix e :: "unit env"
  let ?l = "WriteNormal (Writeguard (0, MemoryCacheNode_new LRU)) :: unit LockedDb"
  have none: "locked_tk (rt_of e) ?l ''k'' = None"
    by (simp add: direct_tk_def MemoryCacheNode_new_def)
  have ok: "locked_ok ?l"
    by (simp add: node_ok_new)
  show "\<exists>l'. exec_locked e (LPush ''k'' [''a'', ''b'']) ?l =
       Some (l', Inr (Integer 2), [LPush ''k'' [''a'', ''b'']]) \<and>
     slot_rel e (locked_tk (rt_of e) l' ''k'') (Some (AList [''b'', ''a''], None))"
    using executors_refine_redis [of "LPush ''k'' [''a'', ''b'']" "''k''" ?l e None
        "Some (AList [''b'', ''a''], None)" "Inr (Integer 2)" "[LPush ''k'' [''a'', ''b'']]"] ok none locked_view_ok [OF ok]
    by (auto simp: get_key_def key_live_def on_list_def)
qed

text \<open>An expired key still blocks writers of another type. On a directly locked shard whose
  entry for the key is an expired string, \<^verbatim>\<open>GET\<close> answers null, but \<^verbatim>\<open>LPUSH\<close> answers WRONGTYPE, stores
  nothing and puts the expired entry back.\<close>

lemma expired_key_wrongtype:
  assumes "node_ok n" and "db_store n k = Some en" and "data en = VSimple el" and "expired (rt_of e) en"
    and "vs \<noteq> []"
  shows "(\<exists>l'. exec_get e k (ReadNormal (Readguard (g, n))) = Some (l', Inr Null, [])) \<and>
    (\<exists>l'. exec_lpush e k vs vs (WriteNormal (Writeguard (g, n))) = Some (l', Inr wrongtype, []) \<and>
      locked_tk (rt_of e) l' = db_store n)"
proof -
  let ?l = "WriteNormal (Writeguard (g, n))"
  have "locked_ok ?l" and tk: "locked_tk (rt_of e) ?l = db_store n"
    using assms(1) by (simp_all add: direct_tk_def)
  then obtain l1 l2 where "locked_take (rt_of e) k ?l = Some (l1, Some en)" "locked_insert (rt_of e) k en l1 = Some l2"
    "locked_tk (rt_of e) l2 = (db_store n)(k \<mapsto> en)"
    using locked.take_insert [of ?l "rt_of e" k en] assms(2) by auto
  then show ?thesis
    using assms(2-) by (auto simp: exec_get_def string_reply_def peek_entry_def exec_lpush_def fun_upd_idem)
qed

text \<open>The size of a JSON entry is never updated. Replacing the document of an existing JSON
  key, by one of whatever length, leaves the recorded size of the entry, and so the account of
  the shard, as it was when the key was created.\<close>

lemma json_set_keeps_stale_size:
  assumes "locked_ok l" and "locked_tk (rt_of e) l k = Some en" and "data en = VJson root sz"
    and "root_path p" and "json_from_str e v = Some j"
  shows "\<exists>l' en'. exec_json_set e k p v l = Some (l', Inr (Simple ''OK''), [JsonSet k p v]) \<and>
    locked_tk (rt_of e) l' = (locked_tk (rt_of e) l)(k \<mapsto> en') \<and>
    data en' = VJson j (json_len e j) \<and> data_size en' = data_size en"
proof -
  let ?en = "en\<lparr>data := VJson j (json_len e j)\<rparr>"
  obtain l1 l2 where "locked_take (rt_of e) k l = Some (l1, Some en)" "locked_insert (rt_of e) k ?en l1 = Some l2"
    "locked_tk (rt_of e) l2 = (locked_tk (rt_of e) l)(k \<mapsto> ?en)"
    using locked.take_insert [OF assms(1), of "rt_of e" k ?en] assms(2) by auto
  then show ?thesis
    using assms(3-) by (intro exI [of _ l2] exI [of _ ?en]) (simp add: exec_json_set_def)
qed

end
