(* ===== verification/Storage.thy ===== *)
theory Storage
  imports Exec_Spec
begin

text \<open>
  The whole store and the execution of a command against it: the sixteen databases with their
  shards (\<^verbatim>\<open>src/src/db/mod.rs\<close>, \<^verbatim>\<open>MemoryCache\<close> in \<^verbatim>\<open>src/src/db/eviction/cache_store.rs\<close>), the lock
  macros and contexts of \<^verbatim>\<open>src/src/executor/mod.rs\<close>, the multi-key and blocking commands, and the
  dispatch of \<^verbatim>\<open>src/src/core_execute.rs\<close>.

  The record \<open>world\<close> is the state the tasks share. A lock of a shard is exclusive for writers and
  the shard is only reached through it, so what happens between taking and releasing it is one
  step: \<open>with_lock\<close>. A guard refers to the shard in place; the sessions of a running script keep
  their change buffers between steps and are loaded with the current shard at each access.
  \<open>conn\<close> is the task-local \<^verbatim>\<open>CONN_STATE\<close>, absent outside a connection scope; reading it there
  panics, as does an index out of range.

  The functions here run a command from its start to its end without a break. In the code \<^verbatim>\<open>LPUSH\<close> and \<^verbatim>\<open>BLPOP\<close> give other tasks
  a chance between their parts and before their log entry is sent: these interleavings are the subject of the theory on
  blocked clients. \<^verbatim>\<open>MSET\<close> locks its keys one after the other and logs when the last lock is released; what another command can do in
  between is not modelled.
\<close>

datatype CommandContext = CtxNormal | CtxLua | CtxRecovery

record 'j world =
  store :: "'j MemoryCacheNode list list"
  global_memory :: usize
  blocking_queues :: "(key \<rightharpoonup> nat list) list"
  inbox :: "nat \<rightharpoonup> bytes"
  dropped :: "nat set"
  next_channel :: nat
  lua_sessions :: "nat \<rightharpoonup> 'j LockedDb"
  aof_sent :: "bytes list"
  replicas :: nat
  replicated :: "bytes list"

section \<open>Databases and shards\<close>

definition DB_COUNT :: nat where
  "DB_COUNT = 16"

definition MemoryCache_new :: "'j env \<Rightarrow> EvictionType \<Rightarrow> 'j MemoryCacheNode list" where
  "MemoryCache_new e ty = replicate (num_shards e) (MemoryCacheNode_new ty)"

definition Storage_new :: "'j env \<Rightarrow> EvictionType \<Rightarrow> 'j world" where
  "Storage_new e ty =
     \<lparr>store = replicate DB_COUNT (MemoryCache_new e ty), global_memory = 0,
      blocking_queues = replicate DB_COUNT Map.empty, inbox = Map.empty, dropped = {}, next_channel = 0,
      lua_sessions = Map.empty, aof_sent = [], replicas = 0, replicated = []\<rparr>"

definition get_shard_index :: "'j env \<Rightarrow> key \<Rightarrow> nat option" where
  "get_shard_index e k = (if num_shards e = 0 then None else Some (unat (fx_hash e k) mod num_shards e))"

definition find_shard :: "nat option \<Rightarrow> nat \<Rightarrow> 'j world \<Rightarrow> (nat \<times> 'j shard) option" where
  "find_shard conn i w =
     do { db \<leftarrow> conn; nodes \<leftarrow> nth_opt (store w) db; n \<leftarrow> nth_opt nodes i; Some (db, (global_memory w, n)) }"

definition put_shard :: "nat \<Rightarrow> nat \<Rightarrow> 'j shard \<Rightarrow> 'j world \<Rightarrow> 'j world" where
  "put_shard db i s w =
     w\<lparr>store := (store w)[db := (store w ! db)[i := snd s]], global_memory := fst s\<rparr>"

section \<open>Locks\<close>

datatype access = ForWrite | ForRead

definition own_lock :: "access \<Rightarrow> 'j shard \<Rightarrow> 'j LockedDb" where
  "own_lock acc s =
     (case acc of ForWrite \<Rightarrow> WriteNormal (Writeguard s) | ForRead \<Rightarrow> ReadNormal (Readguard s))"

fun set_guard :: "'j shard \<Rightarrow> 'j DirectCacheNode \<Rightarrow> 'j DirectCacheNode" where
  "set_guard s (Writeguard _) = Writeguard s"
| "set_guard s (Readguard _) = Readguard s"

fun load_shard :: "'j shard \<Rightarrow> 'j LockedDb \<Rightarrow> 'j LockedDb" where
  "load_shard s (WriteNormal d) = WriteNormal (set_guard s d)"
| "load_shard s (WriteLua x) = WriteLua (x\<lparr>lua_db := set_guard s (lua_db x)\<rparr>)"
| "load_shard s (ReadNormal d) = ReadNormal (set_guard s d)"
| "load_shard s (ReadLua x) = ReadLua (x\<lparr>lua_db := set_guard s (lua_db x)\<rparr>)"

definition undeclared_key :: "'a kvres" where
  "undeclared_key = Inl (ProtocolError (Zh ''the script accessed a key not declared in KEYS''))"

text \<open>The macros \<^verbatim>\<open>get_write_lock\<close> and \<^verbatim>\<open>get_read_lock\<close> around the body \<open>f\<close>.\<close>

definition with_lock ::
  "'j env \<Rightarrow> CommandContext \<Rightarrow> nat option \<Rightarrow> access \<Rightarrow> key \<Rightarrow>
   ('j LockedDb \<Rightarrow> ('j LockedDb \<times> 'a) option) \<Rightarrow> 'j world \<Rightarrow> ('j world \<times> 'a kvres) option" where
  "with_lock e ctx conn acc k f w =
     do { i \<leftarrow> get_shard_index e k;
          if ctx = CtxLua then
            (case lua_sessions w i of
               None \<Rightarrow> Some (w, undeclared_key)
             | Some l0 \<Rightarrow>
                 do { (db, s) \<leftarrow> find_shard conn i w;
                      (l, x) \<leftarrow> f (load_shard s l0);
                      Some ((put_shard db i (guarded (locked_direct l)) w)\<lparr>lua_sessions := (lua_sessions w)(i \<mapsto> l)\<rparr>,
                            Inr x) })
          else
            do { (db, s) \<leftarrow> find_shard conn i w;
                 (l, x) \<leftarrow> f (own_lock acc s);
                 Some (put_shard db i (guarded (locked_direct l)) w, Inr x) } }"

section \<open>The append-only log\<close>

definition broadcast_bytes_to_slaves :: "bytes \<Rightarrow> 'j world \<Rightarrow> 'j world" where
  "broadcast_bytes_to_slaves b w = (if replicas w > 0 then w\<lparr>replicated := replicated w @ [b]\<rparr> else w)"

definition send_aof :: "'j env \<Rightarrow> CommandContext \<Rightarrow> Command \<Rightarrow> 'j world \<Rightarrow> 'j world" where
  "send_aof e ctx c w =
     (if ctx = CtxNormal then
        fold (\<lambda>b w. broadcast_bytes_to_slaves b (w\<lparr>aof_sent := aof_sent w @ [b]\<rparr>))
          (encode_aof_command (ext_of e) (env_now e) c) w
      else w)"

section \<open>Commands\<close>

text \<open>A command answers, or its client waits on a channel.\<close>

datatype exec_result = Done "Frame kvres" | Blocked nat

definition finish :: "'j env \<Rightarrow> CommandContext \<Rightarrow> 'j world \<Rightarrow> (Frame kvres \<times> Command list) kvres \<Rightarrow> 'j world \<times> exec_result" where
  "finish e ctx w r =
     (case r of
        Inl er \<Rightarrow> (w, Done (Inl er))
      | Inr (reply, log) \<Rightarrow> (fold (send_aof e ctx) log w, Done reply))"

definition run_single ::
  "'j env \<Rightarrow> CommandContext \<Rightarrow> nat option \<Rightarrow> access \<Rightarrow> key \<Rightarrow> Command \<Rightarrow> 'j world \<Rightarrow> ('j world \<times> exec_result) option" where
  "run_single e ctx conn acc k c w =
     do { (w1, r) \<leftarrow> with_lock e ctx conn acc k (exec_locked e c) w; Some (finish e ctx w1 r) }"

definition exec_json_set_cmd ::
  "'j env \<Rightarrow> CommandContext \<Rightarrow> nat option \<Rightarrow> key \<Rightarrow> string \<Rightarrow> string \<Rightarrow> 'j world \<Rightarrow> ('j world \<times> exec_result) option" where
  "exec_json_set_cmd e ctx conn k p v w =
     (if json_from_str e v = None then
        Some (w, Done (Inl (ProtocolError (Msg ''Invalid JSON value''))))
      else run_single e ctx conn ForWrite k (JsonSet k p v) w)"

fun mset_loop ::
  "'j env \<Rightarrow> CommandContext \<Rightarrow> nat option \<Rightarrow> (key \<times> bytes) list \<Rightarrow> 'j world \<Rightarrow> ('j world \<times> unit kvres) option" where
  "mset_loop e ctx conn [] w = Some (w, Inr ())"
| "mset_loop e ctx conn ((k, v) # kvs) w =
     do { (w1, r) \<leftarrow> with_lock e ctx conn ForWrite k (\<lambda>l. map_option (\<lambda>l'. (l', ())) (exec_mset_one e k v l)) w;
          (case r of Inl er \<Rightarrow> Some (w1, Inl er) | Inr _ \<Rightarrow> mset_loop e ctx conn kvs w1) }"

definition exec_mset ::
  "'j env \<Rightarrow> CommandContext \<Rightarrow> nat option \<Rightarrow> (key \<times> bytes) list \<Rightarrow> 'j world \<Rightarrow> ('j world \<times> exec_result) option" where
  "exec_mset e ctx conn kvs w =
     do { (w1, r) \<leftarrow> mset_loop e ctx conn (sort_key fst kvs) w;
          Some (finish e ctx w1 (res_bind r (\<lambda>_. Inr (Inr (Simple ''OK''), [MSet kvs])))) }"

fun mget_loop ::
  "'j env \<Rightarrow> CommandContext \<Rightarrow> nat option \<Rightarrow> key list \<Rightarrow> Frame list \<Rightarrow> 'j world \<Rightarrow> ('j world \<times> Frame kvres) option" where
  "mget_loop e ctx conn [] results w = Some (w, Inr (Array results))"
| "mget_loop e ctx conn (k # ks) results w =
     do { (w1, r) \<leftarrow>
            with_lock e ctx conn ForRead k
              (\<lambda>l. map_option (\<lambda>(l', cur). (l', string_reply e cur)) (locked_select (rt_of e) k l)) w;
          (case r of Inl er \<Rightarrow> Some (w1, Inl er) | Inr fr \<Rightarrow> mget_loop e ctx conn ks (results @ [fr]) w1) }"

definition exec_mget ::
  "'j env \<Rightarrow> CommandContext \<Rightarrow> nat option \<Rightarrow> key list \<Rightarrow> 'j world \<Rightarrow> ('j world \<times> exec_result) option" where
  "exec_mget e ctx conn ks w =
     do { (w1, r) \<leftarrow> mget_loop e ctx conn ks [] w; Some (w1, Done r) }"

subsection \<open>Blocking lists\<close>

text \<open>\<^verbatim>\<open>LPUSH\<close> first offers its values to the clients blocked on the key, in the order they came;
  a client that is gone is skipped.\<close>

fun deliver_one :: "bytes \<Rightarrow> nat list \<Rightarrow> 'j world \<Rightarrow> bool \<times> nat list \<times> 'j world" where
  "deliver_one v [] w = (False, [], w)"
| "deliver_one v (tx # txs) w =
     (if tx \<in> dropped w then deliver_one v txs w
      else (True, txs, w\<lparr>inbox := (inbox w)(tx \<mapsto> v)\<rparr>))"

fun deliver :: "bytes list \<Rightarrow> nat list \<Rightarrow> 'j world \<Rightarrow> bytes list \<times> nat list \<times> 'j world" where
  "deliver [] txs w = ([], txs, w)"
| "deliver (v # vs) txs w =
     (case deliver_one v txs w of (sent, txs1, w1) \<Rightarrow>
        (case deliver vs txs1 w1 of (unsent, txs2, w2) \<Rightarrow>
           ((if sent then unsent else v # unsent), txs2, w2)))"

definition lpush_queue_phase ::
  "CommandContext \<Rightarrow> nat option \<Rightarrow> key \<Rightarrow> bytes list \<Rightarrow> 'j world \<Rightarrow> ('j world \<times> bytes list) option" where
  "lpush_queue_phase ctx conn k vs w =
     (if ctx = CtxNormal then
        do { db \<leftarrow> conn;
             q \<leftarrow> nth_opt (blocking_queues w) db;
             (case q k of
                None \<Rightarrow> Some (w, vs)
              | Some txs \<Rightarrow>
                  (case deliver vs txs w of (unsent, txs', w') \<Rightarrow>
                     Some (w'\<lparr>blocking_queues :=
                              (blocking_queues w')[db := q(k := (if txs' = [] then None else Some txs'))]\<rparr>,
                           unsent))) }
      else Some (w, vs))"

definition lpush_store_phase ::
  "'j env \<Rightarrow> CommandContext \<Rightarrow> nat option \<Rightarrow> key \<Rightarrow> bytes list \<Rightarrow> bytes list \<Rightarrow> 'j world \<Rightarrow>
   ('j world \<times> exec_result) option" where
  "lpush_store_phase e ctx conn k pushes vs w =
     do { (w1, r) \<leftarrow> with_lock e ctx conn ForWrite k (exec_lpush e k pushes vs) w; Some (finish e ctx w1 r) }"

definition exec_lpush_cmd ::
  "'j env \<Rightarrow> CommandContext \<Rightarrow> nat option \<Rightarrow> key \<Rightarrow> bytes list \<Rightarrow> 'j world \<Rightarrow> ('j world \<times> exec_result) option" where
  "exec_lpush_cmd e ctx conn k vs w =
     do { (w1, pushes) \<leftarrow> lpush_queue_phase ctx conn k vs w; lpush_store_phase e ctx conn k pushes vs w1 }"

definition blpop_reply :: "key \<Rightarrow> bytes \<Rightarrow> Frame" where
  "blpop_reply k b = Array [Bulk k, Bulk b]"

definition register_waiter :: "nat \<Rightarrow> key \<Rightarrow> 'j world \<Rightarrow> ('j world \<times> nat) option" where
  "register_waiter db k w =
     do { q \<leftarrow> nth_opt (blocking_queues w) db;
          (let ch = next_channel w;
               txs = (case q k of None \<Rightarrow> [] | Some txs \<Rightarrow> txs)
           in Some (w\<lparr>blocking_queues := (blocking_queues w)[db := q(k \<mapsto> txs @ [ch])],
                       next_channel := Suc ch\<rparr>, ch)) }"

text \<open>The part under the lock of the shard, with what is left to be logged when the lock has been released.\<close>

definition blpop_locked ::
  "'j env \<Rightarrow> CommandContext \<Rightarrow> nat option \<Rightarrow> key \<Rightarrow> 'j world \<Rightarrow> ('j world \<times> exec_result \<times> Command list) option" where
  "blpop_locked e ctx conn k w =
     do { (w1, r) \<leftarrow> with_lock e ctx conn ForWrite k (exec_blpop e k) w;
          (case r of
             Inl er \<Rightarrow> Some (w1, Done (Inl er), [])
           | Inr (Popped b) \<Rightarrow> Some (w1, Done (Inr (blpop_reply k b)), [LPop k])
           | Inr WrongType \<Rightarrow> Some (w1, Done (Inr wrongtype), [])
           | Inr EmptyList \<Rightarrow> Some (w1, Done (Inr Null), [])
           | Inr Absent \<Rightarrow>
               if ctx = CtxNormal then
                 do { db \<leftarrow> conn; (w2, ch) \<leftarrow> register_waiter db k w1; Some (w2, Blocked ch, []) }
               else Some (w1, Done (Inr Null), [])) }"

definition exec_blpop_cmd ::
  "'j env \<Rightarrow> CommandContext \<Rightarrow> nat option \<Rightarrow> key \<Rightarrow> 'j world \<Rightarrow> ('j world \<times> exec_result) option" where
  "exec_blpop_cmd e ctx conn k w =
     do { (w1, r, log) \<leftarrow> blpop_locked e ctx conn k w; Some (fold (send_aof e ctx) log w1, r) }"

text \<open>The end of the wait: the value that was sent, or null at the timeout, when the receiving end is
  dropped.\<close>

definition blpop_wake :: "'j env \<Rightarrow> CommandContext \<Rightarrow> key \<Rightarrow> nat \<Rightarrow> 'j world \<Rightarrow> 'j world \<times> Frame kvres" where
  "blpop_wake e ctx k ch w =
     (case inbox w ch of
        Some b \<Rightarrow> (send_aof e ctx (LPop k) w, Inr (blpop_reply k b))
      | None \<Rightarrow> (w\<lparr>dropped := insert ch (dropped w)\<rparr>, Inr Null))"

subsection \<open>Dispatch\<close>

text \<open>\<open>ev\<close> stands for the script engine: what a task handed to the Lua workers does to the world and
  answers.\<close>

type_synonym 'j engine =
  "nat option \<Rightarrow> string \<Rightarrow> string list \<Rightarrow> string list \<Rightarrow> 'j world \<Rightarrow> ('j world \<times> Frame kvres) option"

definition exec_ping :: "string option \<Rightarrow> 'j world \<Rightarrow> ('j world \<times> exec_result) option" where
  [simp]: "exec_ping v w = Some (w, Done (Inr (case v of Some s \<Rightarrow> Bulk s | None \<Rightarrow> Simple ''PONG'')))"

definition exec_unimplement :: "string \<Rightarrow> 'j world \<Rightarrow> ('j world \<times> exec_result) option" where
  [simp]: "exec_unimplement name w =
     Some (w, Done (Inr (Error (''ERR unknown command '' @ [CHR 0x27] @ name @ [CHR 0x27]))))"

definition exec_eval ::
  "'j engine \<Rightarrow> CommandContext \<Rightarrow> nat option \<Rightarrow> string \<Rightarrow> string list \<Rightarrow> string list \<Rightarrow> 'j world \<Rightarrow>
   ('j world \<times> exec_result) option" where
  [simp]: "exec_eval ev ctx conn script keys args w =
     (if ctx = CtxNormal then map_option (\<lambda>(w', r). (w', Done r)) (ev conn script keys args w)
      else Some (w, Done (Inl (ProtocolError (Msg ''Eval can only run in a normal client context'')))))"

definition execute ::
  "'j env \<Rightarrow> 'j engine \<Rightarrow> CommandContext \<Rightarrow> nat option \<Rightarrow> Command \<Rightarrow> 'j world \<Rightarrow> ('j world \<times> exec_result) option" where
  "execute e ev ctx conn c w =
     (case c of
        Ping v \<Rightarrow> exec_ping v w
      | Unimplemented name _ \<Rightarrow> exec_unimplement name w
      | Eval script keys args \<Rightarrow> exec_eval ev ctx conn script keys args w
      | LPush k vs \<Rightarrow> exec_lpush_cmd e ctx conn k vs w
      | BLPop k _ \<Rightarrow> exec_blpop_cmd e ctx conn k w
      | MSet kvs \<Rightarrow> exec_mset e ctx conn kvs w
      | MGet ks \<Rightarrow> exec_mget e ctx conn ks w
      | Multi \<Rightarrow> Some (w, Done (Inr Null))
      | Exec \<Rightarrow> Some (w, Done (Inr Null))
      | MultiGroup _ \<Rightarrow> Some (w, Done (Inr Null))
      | JsonSet k p v \<Rightarrow> exec_json_set_cmd e ctx conn k p v w
      | _ \<Rightarrow>
          (case lock_spec c of
             LockWrite k \<Rightarrow> run_single e ctx conn ForWrite k c w
           | LockRead k \<Rightarrow> run_single e ctx conn ForRead k c w
           | LockNone \<Rightarrow> None))"

definition execute_command_normal ::
  "'j env \<Rightarrow> 'j engine \<Rightarrow> nat option \<Rightarrow> Command \<Rightarrow> 'j world \<Rightarrow> ('j world \<times> exec_result) option" where
  "execute_command_normal e ev conn c w = execute e ev CtxNormal conn c w"

definition execute_command ::
  "'j env \<Rightarrow> 'j engine \<Rightarrow> nat option \<Rightarrow> Command \<Rightarrow> 'j world \<Rightarrow> ('j world \<times> exec_result) option" where
  "execute_command e ev conn c w = execute e ev CtxRecovery conn c w"

section \<open>Invariant\<close>

definition total_memory :: "'j MemoryCacheNode list list \<Rightarrow> usize" where
  "total_memory st = sum_list (map (\<lambda>nodes. sum_list (map approx_memory nodes)) st)"

definition shard_ok :: "'j MemoryCacheNode \<Rightarrow> bool" where
  "shard_ok n \<longleftrightarrow> node_ok n \<and> vals_ok (db_store n)"

text \<open>A session of a script: a buffered write lock whose buffered entries are sound.\<close>

definition session_ok :: "'j LockedDb \<Rightarrow> bool" where
  "session_ok l \<longleftrightarrow>
     (case l of
        WriteLua x \<Rightarrow> (\<exists>s. lua_db x = Writeguard s) \<and> finite (dom (differ_map x)) \<and>
          (\<forall>k en. differ_map x k = Some (Update en) \<longrightarrow> val_ok (data en))
      | _ \<Rightarrow> False)"

definition world_ok :: "'j env \<Rightarrow> 'j world \<Rightarrow> bool" where
  "world_ok e w \<longleftrightarrow>
     0 < num_shards e \<and> length (store w) = DB_COUNT \<and> length (blocking_queues w) = DB_COUNT \<and>
     (\<forall>nodes \<in> set (store w). length nodes = num_shards e \<and> (\<forall>n \<in> set nodes. shard_ok n)) \<and>
     global_memory w = total_memory (store w) \<and>
     (\<forall>l \<in> ran (lua_sessions w). session_ok l)"

lemma sum_list_update_word:
  fixes f :: "'a \<Rightarrow> 'b :: ab_group_add"
  assumes "i < length xs"
  shows "sum_list (map f (xs[i := y])) = sum_list (map f xs) + (f y - f (xs ! i))"
  using assms
proof (induction xs arbitrary: i)
  case (Cons x xs)
  then show ?case
    by (cases i) (simp_all add: algebra_simps)
qed simp

lemma total_memory_update:
  assumes "db < length st" and "i < length (st ! db)"
  shows "total_memory (st[db := (st ! db)[i := n]]) = total_memory st + (approx_memory n - approx_memory (st ! db ! i))"
  using assms by (simp add: total_memory_def sum_list_update_word)

lemma get_shard_index_bound: "0 < num_shards e \<Longrightarrow> \<exists>i. get_shard_index e k = Some i \<and> i < num_shards e"
  by (simp add: get_shard_index_def)

lemma shard_ok_new: "shard_ok (MemoryCacheNode_new ty)"
  by (simp add: shard_ok_def node_ok_new) (simp add: MemoryCacheNode_new_def)

lemma world_ok_new: "0 < num_shards e \<Longrightarrow> world_ok e (Storage_new e ty)"
proof -
  have "approx_memory (MemoryCacheNode_new ty :: 'a MemoryCacheNode) = 0"
    by (simp add: MemoryCacheNode_new_def)
  then have "total_memory (replicate DB_COUNT (MemoryCache_new e ty)) = 0"
    by (simp add: total_memory_def MemoryCache_new_def sum_list_replicate)
  then show "0 < num_shards e \<Longrightarrow> world_ok e (Storage_new e ty)"
    by (auto simp: world_ok_def Storage_new_def MemoryCache_new_def shard_ok_new)
qed

lemma world_ok_shard:
  assumes "world_ok e w" "db < DB_COUNT" "i < num_shards e"
  shows "find_shard (Some db) i w = Some (db, (global_memory w, store w ! db ! i))"
    and "shard_ok (store w ! db ! i)"
proof -
  have "store w ! db \<in> set (store w)"
    using assms by (simp add: world_ok_def)
  then have "length (store w ! db) = num_shards e" "\<forall>n \<in> set (store w ! db). shard_ok n"
    using assms(1) by (auto simp: world_ok_def)
  then show "find_shard (Some db) i w = Some (db, (global_memory w, store w ! db ! i))"
    and "shard_ok (store w ! db ! i)"
    using assms by (auto simp: find_shard_def world_ok_def)
qed

text \<open>A new shard in the place of an old one, with the global counter moved by the difference.\<close>

lemma world_ok_put:
  assumes "world_ok e w" "db < DB_COUNT" "i < num_shards e" "shard_ok n"
    and "g - approx_memory n = global_memory w - approx_memory (store w ! db ! i)"
  shows "world_ok e (put_shard db i (g, n) w)"
proof -
  have db: "db < length (store w)"
    using assms by (simp add: world_ok_def)
  then have "store w ! db \<in> set (store w)"
    by simp
  then have nodes: "length (store w ! db) = num_shards e" "\<forall>n \<in> set (store w ! db). shard_ok n"
    using assms(1) by (auto simp: world_ok_def)
  have "g = global_memory w + (approx_memory n - approx_memory (store w ! db ! i))"
    using arg_cong [OF assms(5), of "\<lambda>x. x + approx_memory n"] by simp
  then have "g = total_memory ((store w)[db := (store w ! db)[i := n]])"
    using assms(1,3) total_memory_update [OF db, of i n] nodes(1) by (simp add: world_ok_def)
  moreover have "\<forall>m \<in> set ((store w ! db)[i := n]). shard_ok m"
    using nodes(2) assms(4) by (auto dest!: set_update_subset_insert [THEN subsetD])
  moreover have "\<forall>ns \<in> set ((store w)[db := (store w ! db)[i := n]]).
      ns = (store w ! db)[i := n] \<or> ns \<in> set (store w)"
    by (auto dest!: set_update_subset_insert [THEN subsetD])
  ultimately show ?thesis
    using assms(1) nodes(1) unfolding world_ok_def put_shard_def by fastforce
qed

text \<open>Room in the arenas of the sorted sets, far beyond any machine's memory.\<close>

fun val_room :: "'j Value \<Rightarrow> bool" where
  "val_room (VZSet z _) \<longleftrightarrow> Suc (zset_len z) < NODE_LIMIT"
| "val_room _ \<longleftrightarrow> True"

definition vals_room :: "(key \<rightharpoonup> 'j ValueEntry) \<Rightarrow> bool" where
  "vals_room m \<longleftrightarrow> (\<forall>k en. m k = Some en \<longrightarrow> val_room (data en))"

definition session_room :: "'j LockedDb \<Rightarrow> bool" where
  "session_room l \<longleftrightarrow>
     (case l of WriteLua x \<Rightarrow> (\<forall>k en. differ_map x k = Some (Update en) \<longrightarrow> val_room (data en)) | _ \<Rightarrow> True)"

definition world_room :: "'j world \<Rightarrow> bool" where
  "world_room w \<longleftrightarrow>
     (\<forall>nodes \<in> set (store w). \<forall>n \<in> set nodes. vals_room (db_store n)) \<and>
     (\<forall>l \<in> ran (lua_sessions w). session_room l)"

fun numeric :: "Command \<Rightarrow> bool" where
  "numeric (ZAdd k sc m) \<longleftrightarrow> \<not> f64_is_nan sc"
| "numeric _ \<longleftrightarrow> True"

lemma room_fits: "vals_room m \<Longrightarrow> numeric c \<Longrightarrow> fits c (m k)"
  by (cases c) (auto simp: vals_room_def split: option.splits Value.splits, metis val_room.simps(1))

text \<open>Everything of the world but the shards, the counter and the sessions.\<close>

definition same_rest :: "'j world \<Rightarrow> 'j world \<Rightarrow> bool" where
  "same_rest w w' \<longleftrightarrow>
     w' = w\<lparr>store := store w', global_memory := global_memory w', lua_sessions := lua_sessions w'\<rparr>"

lemma guarded_ok:
  assumes "view_ok l" and "mode_of l \<noteq> Write_Lua"
  shows "node_ok (snd (guarded (locked_direct l)))" and "locked_tk r l = db_store (snd (guarded (locked_direct l)))"
  using assms by (cases l rule: view_ok.cases; auto elim!: direct_okE simp: direct_tk_def)+

lemma locked_acct_guarded: "locked_acct l = fst (guarded (locked_direct l)) - approx_memory (snd (guarded (locked_direct l)))"
  by (simp add: locked_acct_def direct_acct_def)

lemma own_lock_view:
  assumes "shard_ok n"
  shows "view_ok (own_lock acc (g, n))" "acc = ForWrite \<Longrightarrow> locked_ok (own_lock acc (g, n))"
    "locked_tk r (own_lock acc (g, n)) = db_store n" "mode_of (own_lock acc (g, n)) \<noteq> Write_Lua"
    "guarded (locked_direct (own_lock acc (g, n))) = (g, n)"
  using assms by (cases acc; simp add: own_lock_def shard_ok_def direct_tk_def)+

lemma own_lock_keeps:
  assumes w: "world_ok e w" "db < DB_COUNT" "i < num_shards e"
    and k: "keeps e k (own_lock acc (global_memory w, store w ! db ! i)) res"
  shows "\<exists>l x. res = Some (l, x) \<and> world_ok e (put_shard db i (guarded (locked_direct l)) w)"
proof -
  let ?l = "own_lock acc (global_memory w, store w ! db ! i)"
  note own = own_lock_view [OF world_ok_shard(2) [OF w]]
  obtain l x where l: "res = Some (l, x)" "view_ok l" "locked_frame (rt_of e) ?l l" "vals_ok (locked_tk (rt_of e) l)"
    using k by (auto simp: keeps_def)
  have mode: "mode_of l \<noteq> Write_Lua" and acct: "locked_acct l = locked_acct ?l"
    using l(3) own(4) by (simp_all add: locked_frame_def)
  have "shard_ok (snd (guarded (locked_direct l)))"
    using guarded_ok [OF l(2) mode] l(4) by (simp add: shard_ok_def)
  moreover have "fst (guarded (locked_direct l)) - approx_memory (snd (guarded (locked_direct l))) =
      global_memory w - approx_memory (store w ! db ! i)"
    using acct own(5) by (simp add: locked_acct_guarded)
  ultimately have "world_ok e (put_shard db i (fst (guarded (locked_direct l)), snd (guarded (locked_direct l))) w)"
    by (rule world_ok_put [OF w])
  then show ?thesis
    using l(1) by simp
qed

lemma load_session:
  assumes "session_ok l0" and "shard_ok n"
  shows "locked_ok (load_shard (g, n) l0)" "mode_of (load_shard (g, n) l0) = Write_Lua"
    "vals_ok (locked_tk r (load_shard (g, n) l0))"
    "session_room l0 \<Longrightarrow> vals_room (db_store n) \<Longrightarrow> vals_room (locked_tk r (load_shard (g, n) l0))"
    "guarded (locked_direct (load_shard (g, n) l0)) = (g, n)"
proof -
  obtain x s where x: "l0 = WriteLua x" "lua_db x = Writeguard s"
    "\<forall>k en. differ_map x k = Some (Update en) \<longrightarrow> val_ok (data en)" "finite (dom (differ_map x))"
    using assms(1) by (cases l0) (auto simp: session_ok_def)
  have load: "load_shard (g, n) l0 = WriteLua (x\<lparr>lua_db := Writeguard (g, n)\<rparr>)"
    by (simp add: x)
  show "locked_ok (load_shard (g, n) l0)" "mode_of (load_shard (g, n) l0) = Write_Lua"
    "guarded (locked_direct (load_shard (g, n) l0)) = (g, n)"
    using assms(2) x(4) by (simp_all add: load lua_ok_def shard_ok_def)
  show "vals_ok (locked_tk r (load_shard (g, n) l0))"
    using assms(2) x(3)
    by (auto simp: load vals_ok_def lua_tk_def direct_tk_def seen_of_def shard_ok_def
        split: option.splits ChangeOp.splits if_splits)
  show "vals_room (locked_tk r (load_shard (g, n) l0))" if "session_room l0" "vals_room (db_store n)"
    using that
    by (auto simp: load x session_room_def vals_room_def lua_tk_def direct_tk_def seen_of_def
        split: option.splits ChangeOp.splits if_splits)
qed

lemma world_ok_session: "world_ok e w \<Longrightarrow> session_ok l \<Longrightarrow> world_ok e (w\<lparr>lua_sessions := (lua_sessions w)(i \<mapsto> l)\<rparr>)"
  by (auto simp: world_ok_def ran_def)

lemma session_keeps:
  assumes w: "world_ok e w" "db < DB_COUNT" "i < num_shards e" and s: "lua_sessions w i = Some l0"
    and k: "keeps e k (load_shard (global_memory w, store w ! db ! i) l0) res"
  shows "\<exists>l x. res = Some (l, x) \<and>
    world_ok e ((put_shard db i (guarded (locked_direct l)) w)\<lparr>lua_sessions := (lua_sessions w)(i \<mapsto> l)\<rparr>)"
proof -
  let ?n = "store w ! db ! i"
  let ?l = "load_shard (global_memory w, ?n) l0"
  have "session_ok l0"
    using w(1) s by (auto simp: world_ok_def ran_def)
  note load = load_session [OF this world_ok_shard(2) [OF w]]
  obtain l x where l: "res = Some (l, x)" "locked_ok l" "locked_frame (rt_of e) ?l l" "vals_ok (locked_tk (rt_of e) l)"
    using k load(1) by (auto simp: keeps_def)
  then obtain y g n where y: "l = WriteLua y" "lua_db y = Writeguard (g, n)" "node_ok n" "finite (dom (differ_map y))"
    using load(2) by (cases l) (auto simp: locked_frame_def lua_ok_def elim!: direct_okE)
  have "db_store n \<subseteq>\<^sub>m db_store ?n"
    using l(3) load(2,5) y by (simp add: locked_frame_def direct_tk_def)
  then have "vals_ok (db_store n)"
    using world_ok_shard(2) [OF w] vals_ok_le by (auto simp: shard_ok_def)
  then have "shard_ok n"
    using y(3) by (simp add: shard_ok_def)
  moreover have "g - approx_memory n = global_memory w - approx_memory ?n"
    using l(3) load(5) y by (simp add: locked_frame_def locked_acct_guarded)
  ultimately have put: "world_ok e (put_shard db i (g, n) w)"
    by (rule world_ok_put [OF w])
  have "session_ok l"
  proof -
    have "val_ok (data en)" if "differ_map y a = Some (Update en)" for a en
    proof -
      have "locked_tk (rt_of e) l a = Some en"
        by (simp add: y(1) lua_tk_def that)
      then show ?thesis
        using l(4) unfolding vals_ok_def by blast
    qed
    then show ?thesis
      by (auto simp: session_ok_def y)
  qed
  then have "world_ok e ((put_shard db i (g, n) w)\<lparr>lua_sessions := (lua_sessions w)(i \<mapsto> l)\<rparr>)"
    using world_ok_session [OF put, of l i] by (simp add: put_shard_def)
  then show ?thesis
    using l(1) y by simp
qed

lemma world_room_shard:
  assumes "world_ok e w" "world_room w" "db < DB_COUNT" "i < num_shards e"
  shows "vals_room (db_store (store w ! db ! i))"
proof -
  have mem: "store w ! db \<in> set (store w)"
    using assms by (simp add: world_ok_def)
  then have "store w ! db ! i \<in> set (store w ! db)"
    using assms(1,4) by (simp add: world_ok_def)
  then show ?thesis
    using assms(2) mem unfolding world_room_def by blast
qed

text \<open>The lock macros around a body that keeps its view sound keep the world sound.\<close>

lemma with_lock_keeps:
  assumes w: "world_ok e w" "db < DB_COUNT"
    and body: "\<And>l. view_ok l \<Longrightarrow> acc = ForWrite \<or> ctx = CtxLua \<Longrightarrow> locked_ok l \<Longrightarrow> vals_ok (locked_tk (rt_of e) l) \<Longrightarrow>
        (world_room w \<Longrightarrow> vals_room (locked_tk (rt_of e) l)) \<Longrightarrow> keeps e k l (f l)"
    and look: "\<And>l. view_ok l \<Longrightarrow> acc = ForRead \<Longrightarrow> vals_ok (locked_tk (rt_of e) l) \<Longrightarrow>
        (world_room w \<Longrightarrow> vals_room (locked_tk (rt_of e) l)) \<Longrightarrow> keeps e k l (f l)"
  shows "\<exists>w' r. with_lock e ctx (Some db) acc k f w = Some (w', r) \<and> world_ok e w' \<and> same_rest w w' \<and>
    (ctx \<noteq> CtxLua \<longrightarrow> lua_sessions w' = lua_sessions w)"
proof -
  obtain i where i: "get_shard_index e k = Some i" "i < num_shards e"
    using get_shard_index_bound w(1) unfolding world_ok_def by blast
  note sh = world_ok_shard [OF w i(2)]
  have room: "world_room w \<Longrightarrow> vals_room (db_store (store w ! db ! i))"
    by (rule world_room_shard [OF w(1) _ w(2) i(2)])
  show ?thesis
  proof (cases "ctx = CtxLua")
    case False
    let ?l = "own_lock acc (global_memory w, store w ! db ! i)"
    note own = own_lock_view [OF sh(2)]
    have "keeps e k ?l (f ?l)"
    proof (cases acc)
      case ForWrite
      then show ?thesis
        using body [of ?l] own sh(2) room by (simp add: shard_ok_def)
    next
      case ForRead
      then show ?thesis
        using look [of ?l] own sh(2) room by (simp add: shard_ok_def)
    qed
    then show ?thesis
      using own_lock_keeps [OF w i(2)] False i(1) sh(1)
      by (fastforce simp: with_lock_def same_rest_def put_shard_def)
  next
    case True
    show ?thesis
    proof (cases "lua_sessions w i")
      case None
      then show ?thesis
        using True i(1) w(1) by (simp add: with_lock_def same_rest_def)
    next
      case (Some l0)
      let ?l = "load_shard (global_memory w, store w ! db ! i) l0"
      have "session_ok l0" "world_room w \<Longrightarrow> session_room l0"
        using w(1) Some by (auto simp: world_ok_def world_room_def ran_def)
      then have "keeps e k ?l (f ?l)"
        using load_session [OF _ sh(2)] room True by (intro body locked_view_ok) auto
      then show ?thesis
        using session_keeps [OF w i(2) Some] True i(1) sh(1) Some
        by (fastforce simp: with_lock_def same_rest_def put_shard_def)
    qed
  qed
qed

lemma world_ok_rest:
  "world_ok e (w\<lparr>aof_sent := x\<rparr>) = world_ok e w" "world_ok e (w\<lparr>replicated := x\<rparr>) = world_ok e w"
  "world_ok e (w\<lparr>inbox := y\<rparr>) = world_ok e w" "world_ok e (w\<lparr>dropped := z\<rparr>) = world_ok e w"
  "world_ok e (w\<lparr>next_channel := n\<rparr>) = world_ok e w" "world_ok e (w\<lparr>replicas := n\<rparr>) = world_ok e w"
  "length q = length (blocking_queues w) \<Longrightarrow> world_ok e (w\<lparr>blocking_queues := q\<rparr>) = world_ok e w"
  by (simp_all add: world_ok_def)

lemma world_ok_send_aof [simp]: "world_ok e (send_aof e' ctx c w) = world_ok e w"
proof -
  have "world_ok e (fold (\<lambda>b w. broadcast_bytes_to_slaves b (w\<lparr>aof_sent := aof_sent w @ [b]\<rparr>)) bs w) = world_ok e w" for bs
    by (induction bs arbitrary: w) (simp_all add: broadcast_bytes_to_slaves_def world_ok_rest)
  then show ?thesis
    by (simp add: send_aof_def)
qed

lemma world_ok_finish [simp]: "world_ok e (fst (finish e' ctx w r)) = world_ok e w"
proof -
  have "world_ok e (fold (send_aof e' ctx) log w) = world_ok e w" for log
    by (induction log arbitrary: w) simp_all
  then show ?thesis
    by (auto simp: finish_def split: sum.splits)
qed

lemma run_single_keeps:
  assumes "world_ok e w" "world_room w" "db < DB_COUNT" "single_key c" "get_key c = Some k"
    "acc = ForWrite \<or> looks c" "numeric c"
  shows "\<exists>w' r. run_single e ctx (Some db) acc k c w = Some (w', r) \<and> world_ok e w'"
proof -
  have "\<exists>w' r. with_lock e ctx (Some db) acc k (exec_locked e c) w = Some (w', r) \<and> world_ok e w' \<and> same_rest w w' \<and>
      (ctx \<noteq> CtxLua \<longrightarrow> lua_sessions w' = lua_sessions w)"
    using assms room_fits by (intro with_lock_keeps exec_locked_keeps) auto
  then obtain w' r where "with_lock e ctx (Some db) acc k (exec_locked e c) w = Some (w', r)" "world_ok e w'"
    by blast
  then show ?thesis
    using world_ok_finish [of e e ctx w' r] by (cases "finish e ctx w' r") (auto simp: run_single_def)
qed

lemma mset_loop_keeps:
  assumes "world_ok e w" "db < DB_COUNT"
  shows "\<exists>w' r. mset_loop e ctx (Some db) kvs w = Some (w', r) \<and> world_ok e w'"
  using assms(1)
proof (induction kvs arbitrary: w)
  case (Cons x kvs)
  obtain k v where x: "x = (k, v)"
    by (cases x)
  have "\<exists>w' r. with_lock e ctx (Some db) ForWrite k (\<lambda>l. map_option (\<lambda>l'. (l', ())) (exec_mset_one e k v l)) w =
      Some (w', r) \<and> world_ok e w' \<and> same_rest w w' \<and> (ctx \<noteq> CtxLua \<longrightarrow> lua_sessions w' = lua_sessions w)"
    using Cons.prems assms(2) by (intro with_lock_keeps exec_mset_one_keeps) auto
  then obtain w1 r where "with_lock e ctx (Some db) ForWrite k
      (\<lambda>l. map_option (\<lambda>l'. (l', ())) (exec_mset_one e k v l)) w = Some (w1, r)" "world_ok e w1"
    by blast
  then show ?case
    using Cons.IH [of w1] by (cases r) (simp_all add: x)
qed auto

lemma select_keeps:
  assumes "view_ok l" "vals_ok (locked_tk (rt_of e) l)"
  shows "keeps e k l (map_option (\<lambda>(l', cur). (l', g cur)) (locked_select (rt_of e) k l))"
proof -
  have "vals_ok ((locked_tk (rt_of e) l)(k := lview e l k))"
    using vals_ok_le [OF assms(2) seen_upd_le] .
  then show ?thesis
    using view_select [OF assms(1), of e k] assms(2) by (auto simp: keeps_def)
qed

lemma mget_loop_keeps:
  assumes "world_ok e w" "db < DB_COUNT"
  shows "\<exists>w' r. mget_loop e ctx (Some db) ks acc w = Some (w', r) \<and> world_ok e w'"
  using assms(1)
proof (induction ks arbitrary: w acc)
  case (Cons k ks)
  have "\<exists>w' r. with_lock e ctx (Some db) ForRead k
      (\<lambda>l. map_option (\<lambda>(l', cur). (l', string_reply e cur)) (locked_select (rt_of e) k l)) w =
      Some (w', r) \<and> world_ok e w' \<and> same_rest w w' \<and> (ctx \<noteq> CtxLua \<longrightarrow> lua_sessions w' = lua_sessions w)"
    using Cons.prems assms(2) by (intro with_lock_keeps select_keeps) auto
  then obtain w1 r where "with_lock e ctx (Some db) ForRead k
      (\<lambda>l. map_option (\<lambda>(l', cur). (l', string_reply e cur)) (locked_select (rt_of e) k l)) w = Some (w1, r)"
    "world_ok e w1"
    by blast
  then show ?case
    using Cons.IH [of w1] by (cases r) simp_all
qed auto

lemma deliver_one_keeps: "deliver_one v txs w = (b, txs', w') \<Longrightarrow> \<exists>f. w' = w\<lparr>inbox := f\<rparr>"
proof (induction v txs w rule: deliver_one.induct)
  case (1 v w)
  then show ?case
    by (auto intro!: exI [of _ "inbox w"])
qed (auto split: if_splits)

lemma deliver_keeps: "deliver vs txs w = (un, txs', w') \<Longrightarrow> \<exists>f. w' = w\<lparr>inbox := f\<rparr>"
proof (induction vs arbitrary: txs w un)
  case Nil
  then show ?case
    by (auto intro!: exI [of _ "inbox w"])
next
  case (Cons v vs)
  obtain b txs1 w1 where one: "deliver_one v txs w = (b, txs1, w1)"
    by (cases "deliver_one v txs w")
  obtain un2 txs2 w2 where rest: "deliver vs txs1 w1 = (un2, txs2, w2)"
    by (cases "deliver vs txs1 w1")
  obtain f where "w1 = w\<lparr>inbox := f\<rparr>"
    using deliver_one_keeps [OF one] by blast
  moreover have "w2 = w'" "txs2 = txs'"
    using Cons.prems one rest by auto
  ultimately show ?case
    using Cons.IH [OF rest [unfolded \<open>w2 = w'\<close> \<open>txs2 = txs'\<close>]] by auto
qed

lemma lpush_queue_keeps:
  assumes "world_ok e w" "db < DB_COUNT"
  shows "\<exists>w' pushes. lpush_queue_phase ctx (Some db) k vs w = Some (w', pushes) \<and> world_ok e w'"
proof (cases "ctx = CtxNormal")
  case True
  have db: "db < length (blocking_queues w)"
    using assms by (simp add: world_ok_def)
  show ?thesis
  proof (cases "(blocking_queues w ! db) k")
    case (Some txs)
    obtain un txs' w' where dv: "deliver vs txs w = (un, txs', w')"
      by (cases "deliver vs txs w")
    then obtain f where "w' = w\<lparr>inbox := f\<rparr>"
      using deliver_keeps by blast
    then show ?thesis
      using True Some db dv assms(1) by (simp add: lpush_queue_phase_def world_ok_rest)
  qed (use True db assms(1) in \<open>simp add: lpush_queue_phase_def\<close>)
qed (use assms(1) in \<open>simp add: lpush_queue_phase_def\<close>)

lemma lpush_store_keeps:
  assumes "world_ok e w" "db < DB_COUNT"
  shows "\<exists>w' r. lpush_store_phase e ctx (Some db) k pushes vs w = Some (w', r) \<and> world_ok e w'"
proof -
  have "\<exists>w' r. with_lock e ctx (Some db) ForWrite k (exec_lpush e k pushes vs) w = Some (w', r) \<and> world_ok e w' \<and>
      same_rest w w' \<and> (ctx \<noteq> CtxLua \<longrightarrow> lua_sessions w' = lua_sessions w)"
    using assms by (intro with_lock_keeps exec_lpush_keeps) auto
  then obtain w' r where "with_lock e ctx (Some db) ForWrite k (exec_lpush e k pushes vs) w = Some (w', r)"
    "world_ok e w'"
    by blast
  then show ?thesis
    using world_ok_finish [of e e ctx w' r] by (cases "finish e ctx w' r") (auto simp: lpush_store_phase_def)
qed

lemma register_keeps:
  assumes "world_ok e w" "db < DB_COUNT"
  shows "\<exists>w' ch. register_waiter db k w = Some (w', ch) \<and> world_ok e w'"
  using assms by (auto simp: register_waiter_def Let_def world_ok_def)

lemma exec_blpop_cmd_keeps:
  assumes "world_ok e w" "db < DB_COUNT"
  shows "\<exists>w' r. exec_blpop_cmd e ctx (Some db) k w = Some (w', r) \<and> world_ok e w'"
proof -
  have "\<exists>w' r. with_lock e ctx (Some db) ForWrite k (exec_blpop e k) w = Some (w', r) \<and> world_ok e w' \<and>
      same_rest w w' \<and> (ctx \<noteq> CtxLua \<longrightarrow> lua_sessions w' = lua_sessions w)"
    using assms by (intro with_lock_keeps exec_blpop_keeps) auto
  then obtain w1 r where r: "with_lock e ctx (Some db) ForWrite k (exec_blpop e k) w = Some (w1, r)" "world_ok e w1"
    by blast
  show ?thesis
  proof (cases r)
    case (Inr ph)
    then show ?thesis
      using r register_keeps [OF r(2) assms(2), of k] by (cases ph) (auto simp: exec_blpop_cmd_def blpop_locked_def)
  qed (use r in \<open>simp add: exec_blpop_cmd_def blpop_locked_def\<close>)
qed

definition engine_keeps :: "'j env \<Rightarrow> 'j engine \<Rightarrow> bool" where
  "engine_keeps e ev \<longleftrightarrow>
     (\<forall>db script keys args w. db < DB_COUNT \<longrightarrow> world_ok e w \<longrightarrow>
        (\<exists>w' r. ev (Some db) script keys args w = Some (w', r) \<and> world_ok e w'))"

lemma execute_keeps:
  assumes "world_ok e w" "world_room w" "db < DB_COUNT" "numeric c" "engine_keeps e ev"
  shows "\<exists>w' r. execute e ev ctx (Some db) c w = Some (w', r) \<and> world_ok e w'"
proof (cases "single_key c \<and> (\<forall>k vs. c \<noteq> LPush k vs)")
  case True
  show ?thesis
    using True run_single_keeps [OF assms(1-3), of c _ _ ctx] assms(1,4)
    by (cases c) (auto simp: execute_def get_key_def looks_def exec_json_set_cmd_def)
next
  case False
  show ?thesis
  proof (cases c)
    case (LPush k vs)
    obtain w1 pushes where "lpush_queue_phase ctx (Some db) k vs w = Some (w1, pushes)" "world_ok e w1"
      using lpush_queue_keeps [OF assms(1,3)] by blast
    then show ?thesis
      using lpush_store_keeps [of e w1 db ctx k pushes vs] assms(3) LPush by (simp add: execute_def exec_lpush_cmd_def)
  next
    case (MSet kvs)
    obtain w1 r where "mset_loop e ctx (Some db) (sort_key fst kvs) w = Some (w1, r)" "world_ok e w1"
      using mset_loop_keeps [OF assms(1,3)] by blast
    then show ?thesis
      using world_ok_finish [of e e ctx w1 "res_bind r (\<lambda>_. Inr (Inr (Simple ''OK''), [MSet kvs]))"] MSet
      by (cases "finish e ctx w1 (res_bind r (\<lambda>_. Inr (Inr (Simple ''OK''), [MSet kvs])))")
        (simp add: execute_def exec_mset_def)
  next
    case (MGet ks)
    obtain w1 r where "mget_loop e ctx (Some db) ks [] w = Some (w1, r)" "world_ok e w1"
      using mget_loop_keeps [OF assms(1,3)] by blast
    then show ?thesis
      using MGet by (simp add: execute_def exec_mget_def)
  next
    case (Eval script keys args)
    then show ?thesis
      using assms(1,3,5) by (fastforce simp: execute_def engine_keeps_def)
  qed (use False assms(1) exec_blpop_cmd_keeps [OF assms(1,3)] in \<open>simp_all add: execute_def get_key_def\<close>)
qed

section \<open>Refinement of the whole store\<close>

text \<open>What the store holds for a key of a database.\<close>

definition peek :: "'j env \<Rightarrow> nat \<Rightarrow> key \<Rightarrow> 'j world \<Rightarrow> 'j ValueEntry option" where
  "peek e db k w = (case get_shard_index e k of None \<Rightarrow> None | Some i \<Rightarrow> db_store (store w ! db ! i) k)"

lemma peek_put:
  assumes "db < length (store w)" "i < length (store w ! db)" "get_shard_index e k = Some i"
    and "\<forall>x. x \<noteq> k \<longrightarrow> db_store n x = db_store (store w ! db ! i) x"
  shows "peek e db k (put_shard db i (g, n) w) = db_store n k"
    and "(d, k') \<noteq> (db, k) \<Longrightarrow> peek e d k' (put_shard db i (g, n) w) = peek e d k' w"
  using assms by (auto simp: peek_def put_shard_def nth_list_update split: option.splits)

lemma world_ok_lengths:
  "world_ok e w \<Longrightarrow> db < DB_COUNT \<Longrightarrow> db < length (store w) \<and> length (store w ! db) = num_shards e"
  by (auto simp: world_ok_def)

definition log_bytes :: "'j env \<Rightarrow> CommandContext \<Rightarrow> Command list \<Rightarrow> bytes list" where
  "log_bytes e ctx log =
     (if ctx = CtxNormal then concat (map (encode_aof_command (ext_of e) (env_now e)) log) else [])"

text \<open>What \<open>send_aof\<close> leaves alone.\<close>

definition same_store :: "'j world \<Rightarrow> 'j world \<Rightarrow> bool" where
  "same_store w w' \<longleftrightarrow> w' = w\<lparr>aof_sent := aof_sent w', replicated := replicated w'\<rparr>"

lemma same_storeD:
  assumes "same_store w w'"
  shows "store w' = store w" "global_memory w' = global_memory w" "blocking_queues w' = blocking_queues w"
    "inbox w' = inbox w" "dropped w' = dropped w" "next_channel w' = next_channel w"
    "lua_sessions w' = lua_sessions w" "replicas w' = replicas w" "peek e db k w' = peek e db k w"
proof -
  have eq: "w' = w\<lparr>aof_sent := aof_sent w', replicated := replicated w'\<rparr>"
    using assms by (simp add: same_store_def)
  show "store w' = store w" "global_memory w' = global_memory w" "blocking_queues w' = blocking_queues w"
    "inbox w' = inbox w" "dropped w' = dropped w" "next_channel w' = next_channel w"
    "lua_sessions w' = lua_sessions w" "replicas w' = replicas w" "peek e db k w' = peek e db k w"
    by (subst eq, simp add: peek_def split: option.split)+
qed

lemma same_store_refl [simp]: "same_store w w"
  by (simp add: same_store_def)

lemma same_store_trans: "same_store w w1 \<Longrightarrow> same_store w1 w2 \<Longrightarrow> same_store w w2"
proof -
  assume "same_store w w1" "same_store w1 w2"
  then obtain a r a' r' where "w1 = w\<lparr>aof_sent := a, replicated := r\<rparr>" "w2 = w1\<lparr>aof_sent := a', replicated := r'\<rparr>"
    unfolding same_store_def by blast
  then show "same_store w w2"
    by (simp add: same_store_def)
qed

lemma send_aof_effect:
  "same_store w (send_aof e ctx c w) \<and> aof_sent (send_aof e ctx c w) = aof_sent w @ log_bytes e ctx [c]"
proof -
  let ?step = "\<lambda>b w. broadcast_bytes_to_slaves b (w\<lparr>aof_sent := aof_sent w @ [b]\<rparr>)"
  have step: "same_store w (?step b w) \<and> aof_sent (?step b w) = aof_sent w @ [b]" for b and w :: "'a world"
    by (simp add: broadcast_bytes_to_slaves_def same_store_def)
  have "same_store w (fold ?step bs w) \<and> aof_sent (fold ?step bs w) = aof_sent w @ bs" for bs
  proof (induction bs arbitrary: w)
    case (Cons b bs)
    then show ?case
      using step [of w b] same_store_trans by fastforce
  qed simp
  then show ?thesis
    by (cases "ctx = CtxNormal") (simp_all add: send_aof_def log_bytes_def)
qed

lemma fold_send_aof:
  "same_store w (fold (send_aof e ctx) log w) \<and> aof_sent (fold (send_aof e ctx) log w) = aof_sent w @ log_bytes e ctx log"
proof (induction log arbitrary: w)
  case (Cons c log)
  then show ?case
    using send_aof_effect [of w e ctx c] same_store_trans by (fastforce simp: log_bytes_def)
qed (simp add: log_bytes_def)

lemma same_restD:
  assumes "same_rest w w'"
  shows "blocking_queues w' = blocking_queues w" "inbox w' = inbox w" "next_channel w' = next_channel w"
    "dropped w' = dropped w" "aof_sent w' = aof_sent w" "replicas w' = replicas w"
proof -
  have eq: "w' = w\<lparr>store := store w', global_memory := global_memory w', lua_sessions := lua_sessions w'\<rparr>"
    using assms by (simp add: same_rest_def)
  show "blocking_queues w' = blocking_queues w" "inbox w' = inbox w" "next_channel w' = next_channel w"
    "dropped w' = dropped w" "aof_sent w' = aof_sent w" "replicas w' = replicas w"
    by (subst eq, simp)+
qed

text \<open>The effect of one command, on the key and around it.\<close>

definition effect ::
  "'j env \<Rightarrow> CommandContext \<Rightarrow> nat \<Rightarrow> key \<Rightarrow> 'j world \<Rightarrow> ('j world \<times> exec_result) option \<Rightarrow> 'j aresult \<Rightarrow> bool" where
  "effect e ctx db k w res a \<longleftrightarrow>
     (case a of (cur', reply, log) \<Rightarrow>
        \<exists>w'. res = Some (w', Done reply) \<and> world_ok e w' \<and> slot_rel e (peek e db k w') cur' \<and>
          (\<forall>d k'. (d, k') \<noteq> (db, k) \<longrightarrow> peek e d k' w' = peek e d k' w) \<and>
          aof_sent w' = aof_sent w @ log_bytes e ctx log \<and>
          blocking_queues w' = blocking_queues w \<and> inbox w' = inbox w)"

lemma with_lock_run:
  assumes w: "world_ok e w" "db < DB_COUNT" and ctx: "ctx \<noteq> CtxLua"
    and live: "pred_option (unexpired (rt_of e)) (peek e db k w)"
    and cur: "slot_rel e (peek e db k w) cur"
    and acc: "acc = ForRead \<Longrightarrow> fst a = cur"
    and run: "\<And>l. view_ok l \<Longrightarrow> (acc = ForWrite \<Longrightarrow> locked_ok l) \<Longrightarrow> key_live (rt_of e) k l \<Longrightarrow>
        slot_rel e (locked_tk (rt_of e) l k) cur \<Longrightarrow> vals_ok (locked_tk (rt_of e) l) \<Longrightarrow> implements e k l (f l) a"
  shows "\<exists>w'. with_lock e ctx (Some db) acc k f w = Some (w', Inr (snd a)) \<and> world_ok e w' \<and> same_rest w w' \<and>
    slot_rel e (peek e db k w') (fst a) \<and> (\<forall>d k'. (d, k') \<noteq> (db, k) \<longrightarrow> peek e d k' w' = peek e d k' w)"
proof -
  obtain i where i: "get_shard_index e k = Some i" "i < num_shards e"
    using get_shard_index_bound w(1) unfolding world_ok_def by blast
  note sh = world_ok_shard [OF w i(2)]
  let ?n = "store w ! db ! i"
  let ?l = "own_lock acc (global_memory w, ?n)"
  note own = own_lock_view [OF sh(2)]
  have pk: "peek e db k w = db_store ?n k"
    by (simp add: peek_def i(1))
  have ok: "acc = ForWrite \<longleftrightarrow> locked_ok ?l"
    using own(2) by (cases acc) (auto simp: own_lock_def)
  have "key_live (rt_of e) k ?l"
    using live pk by (cases acc) (simp_all add: key_live_def own_lock_def direct_tk_def)
  then have imp: "implements e k ?l (f ?l) a"
    using run [of ?l] own cur pk sh(2) by (simp add: shard_ok_def)
  obtain cur' r where a: "a = (cur', r)"
    by (cases a)
  obtain l where l: "f ?l = Some (l, r)" "view_ok l" "locked_frame (rt_of e) ?l l"
    "if locked_ok ?l then slot_rel e (locked_tk (rt_of e) l k) cur' else locked_tk (rt_of e) l = locked_tk (rt_of e) ?l"
    "\<forall>x. x \<noteq> k \<longrightarrow> locked_tk (rt_of e) l x = locked_tk (rt_of e) ?l x"
    using imp by (auto simp: implements_def a)
  obtain g n where gn: "guarded (locked_direct l) = (g, n)"
    by (cases "guarded (locked_direct l)")
  have tk: "locked_tk (rt_of e) l = db_store n"
    using guarded_ok(2) [OF l(2)] l(3) own(4) gn by (simp add: locked_frame_def)
  let ?w1 = "put_shard db i (g, n) w"
  have others: "\<forall>x. x \<noteq> k \<longrightarrow> db_store n x = db_store ?n x"
    using l(5) tk own(3) by simp
  have slot: "slot_rel e (db_store n k) cur'"
    using l(4) tk own(3) acc cur pk ok a by (cases acc) auto
  have "keeps e k ?l (f ?l)"
    using implements_keeps [OF imp] own(3) sh(2) by (simp add: shard_ok_def)
  then have wok: "world_ok e ?w1"
    using own_lock_keeps [OF w i(2)] l(1) gn by fastforce
  have len: "db < length (store w)" "i < length (store w ! db)"
    using world_ok_lengths [OF w] i(2) by auto
  note peeks = peek_put [OF len i(1) others]
  show ?thesis
    using ctx i(1) sh(1) l(1) gn slot peeks wok by (auto simp: a with_lock_def put_shard_def same_rest_def)
qed

lemma with_lock_effect:
  assumes w: "world_ok e w" "db < DB_COUNT" and ctx: "ctx \<noteq> CtxLua"
    and live: "pred_option (unexpired (rt_of e)) (peek e db k w)"
    and cur: "slot_rel e (peek e db k w) cur"
    and acc: "acc = ForRead \<Longrightarrow> fst a = cur"
    and run: "\<And>l. view_ok l \<Longrightarrow> (acc = ForWrite \<Longrightarrow> locked_ok l) \<Longrightarrow> key_live (rt_of e) k l \<Longrightarrow>
        slot_rel e (locked_tk (rt_of e) l k) cur \<Longrightarrow> vals_ok (locked_tk (rt_of e) l) \<Longrightarrow> implements e k l (f l) a"
  shows "effect e ctx db k w
    (do { (w1, r) \<leftarrow> with_lock e ctx (Some db) acc k f w; Some (finish e ctx w1 r) }) a"
proof -
  obtain cur' reply log where a: "a = (cur', reply, log)"
    by (cases a)
  obtain w1 where w1: "with_lock e ctx (Some db) acc k f w = Some (w1, Inr (reply, log))" "world_ok e w1" "same_rest w w1"
    "slot_rel e (peek e db k w1) cur'" "\<forall>d k'. (d, k') \<noteq> (db, k) \<longrightarrow> peek e d k' w1 = peek e d k' w"
    using with_lock_run [where acc = acc and f = f and a = a, OF w ctx live cur acc run] unfolding a by auto
  let ?w2 = "fold (send_aof e ctx) log w1"
  note rest = same_restD [OF w1(3)]
  have fold: "same_store w1 ?w2" "aof_sent ?w2 = aof_sent w @ log_bytes e ctx log"
    using fold_send_aof [of w1 e ctx log] rest(5) by simp_all
  have "world_ok e ?w2"
    using w1(2) world_ok_finish [of e e ctx w1 "Inr (reply, log)"] by (simp add: finish_def)
  then show ?thesis
    using w1(1,4,5) rest fold same_storeD [OF fold(1)] by (auto simp: effect_def a finish_def)
qed

lemma execute_effect:
  assumes w: "world_ok e w" "db < DB_COUNT" and ctx: "ctx \<noteq> CtxLua"
    and c: "single_key c" "get_key c = Some k"
    and live: "pred_option (unexpired (rt_of e)) (peek e db k w)"
    and cur: "slot_rel e (peek e db k w) cur" and acc: "accepts c cur"
    and free: "(blocking_queues w ! db) k = None"
  shows "effect e ctx db k w (execute e ev ctx (Some db) c w) (redis e c cur)"
proof -
  have run: "effect e ctx db k w (run_single e ctx (Some db) acc k c w) (redis e c cur)"
    if "acc = ForWrite \<or> looks c" for acc
    unfolding run_single_def
  proof (rule with_lock_effect [OF w ctx live cur])
    show "fst (redis e c cur) = cur" if "acc = ForRead"
      using that \<open>acc = ForWrite \<or> looks c\<close> redis_looks by (metis access.distinct(1) prod.collapse)
    show "implements e k l (exec_locked e c l) (redis e c cur)"
      if "view_ok l" "acc = ForWrite \<Longrightarrow> locked_ok l" "key_live (rt_of e) k l" "slot_rel e (locked_tk (rt_of e) l k) cur" for l
      using that \<open>acc = ForWrite \<or> looks c\<close> c acc by (intro exec_locked_refines) (auto simp: handed_live)
  qed
  show ?thesis
  proof (cases c)
    case (LPush k' vs)
    have "lpush_queue_phase ctx (Some db) k vs w = Some (w, vs)"
      using free w by (auto simp: lpush_queue_phase_def world_ok_def)
    moreover have "exec_lpush e k vs vs = exec_locked e (LPush k vs)"
      by (simp add: exec_locked_def fun_eq_iff)
    ultimately show ?thesis
      using run [of ForWrite] LPush c(2)
      by (simp add: execute_def exec_lpush_cmd_def lpush_store_phase_def run_single_def get_key_def del: redis.simps)
  next
    case (JsonSet k' p v)
    then show ?thesis
      using run [of ForWrite] c(2) w cur
      by (cases "json_from_str e v")
        (auto simp: execute_def exec_json_set_cmd_def get_key_def effect_def log_bytes_def)
  qed (use run [of ForWrite] run [of ForRead] c in \<open>auto simp: execute_def get_key_def looks_def simp del: redis.simps\<close>)
qed

section \<open>Multi-key commands\<close>

lemma with_lock_write_normal:
  assumes w: "world_ok e w" "db < DB_COUNT" and ctx: "ctx \<noteq> CtxLua"
  shows "\<exists>w'. with_lock e ctx (Some db) ForWrite k (\<lambda>l. map_option (\<lambda>l'. (l', ())) (exec_mset_one e k v l)) w =
      Some (w', Inr ()) \<and> world_ok e w' \<and> peek e db k w' = Some (simple_entry e v None) \<and>
      (\<forall>d k'. (d, k') \<noteq> (db, k) \<longrightarrow> peek e d k' w' = peek e d k' w) \<and> aof_sent w' = aof_sent w \<and>
      blocking_queues w' = blocking_queues w"
proof -
  obtain i where i: "get_shard_index e k = Some i" "i < num_shards e"
    using get_shard_index_bound w(1) unfolding world_ok_def by blast
  note sh = world_ok_shard [OF w i(2)]
  let ?n = "store w ! db ! i" and ?en = "simple_entry e v None"
  obtain n where n: "insert_entry k ?en (global_memory w, ?n) =
      Some (global_memory w + (approx_memory n - approx_memory ?n), n)"
    "node_ok n" "db_store n = (db_store ?n)(k \<mapsto> ?en)"
    using insert_entry_spec sh(2) unfolding shard_ok_def by blast
  have "val_ok (data ?en)"
    by (simp add: simple_entry_def split: option.splits)
  then have "shard_ok n"
    using n sh(2) vals_ok_upd by (auto simp: shard_ok_def)
  moreover have "(global_memory w + (approx_memory n - approx_memory ?n)) - approx_memory n =
      global_memory w - approx_memory ?n"
    by simp
  ultimately have ok: "world_ok e (put_shard db i (global_memory w + (approx_memory n - approx_memory ?n), n) w)"
    by (rule world_ok_put [OF w i(2)])
  have len: "db < length (store w)" "i < length (store w ! db)"
    using world_ok_lengths [OF w] i(2) by auto
  have "\<forall>x. x \<noteq> k \<longrightarrow> db_store n x = db_store ?n x"
    by (simp add: n(3))
  note peeks = peek_put [OF len i(1) this]
  show ?thesis
    using ctx i(1) sh(1) n ok peeks by (auto simp: with_lock_def own_lock_def exec_mset_one_def put_shard_def)
qed

lemma mset_loop_effect:
  assumes "world_ok e w" "db < DB_COUNT" "ctx \<noteq> CtxLua"
  shows "\<exists>w'. mset_loop e ctx (Some db) kvs w = Some (w', Inr ()) \<and> world_ok e w' \<and> aof_sent w' = aof_sent w \<and>
    blocking_queues w' = blocking_queues w \<and>
    (\<forall>d k. peek e d k w' =
       (if d = db then case map_of (rev kvs) k of Some v \<Rightarrow> Some (simple_entry e v None) | None \<Rightarrow> peek e d k w
        else peek e d k w))"
  using assms(1)
proof (induction kvs arbitrary: w)
  case (Cons x kvs)
  obtain k v where x: "x = (k, v)"
    by (cases x)
  obtain w1 where w1: "with_lock e ctx (Some db) ForWrite k (\<lambda>l. map_option (\<lambda>l'. (l', ())) (exec_mset_one e k v l)) w =
      Some (w1, Inr ())" "world_ok e w1" "peek e db k w1 = Some (simple_entry e v None)"
    "\<forall>d k'. (d, k') \<noteq> (db, k) \<longrightarrow> peek e d k' w1 = peek e d k' w" "aof_sent w1 = aof_sent w"
    "blocking_queues w1 = blocking_queues w"
    using with_lock_write_normal [OF Cons.prems assms(2,3)] by blast
  obtain w2 where w2: "mset_loop e ctx (Some db) kvs w1 = Some (w2, Inr ())" "world_ok e w2" "aof_sent w2 = aof_sent w1"
    "blocking_queues w2 = blocking_queues w1"
    "\<forall>d k. peek e d k w2 =
       (if d = db then case map_of (rev kvs) k of Some v \<Rightarrow> Some (simple_entry e v None) | None \<Rightarrow> peek e d k w1
        else peek e d k w1)"
    using Cons.IH [OF w1(2)] by blast
  have "peek e d k' w2 =
       (if d = db then case map_of (rev (x # kvs)) k' of Some v \<Rightarrow> Some (simple_entry e v None) | None \<Rightarrow> peek e d k' w
        else peek e d k' w)" for d k'
    using w1(3,4) w2(5) by (cases "(d, k') = (db, k)") (auto simp: x map_add_def split: option.splits)
  then show ?case
    using w1 w2 by (auto simp: x)
qed auto

text \<open>A stable sort keeps, for every key, which of its values comes last.\<close>

lemma map_of_sort_key:
  fixes kvs :: "('a :: linorder \<times> 'b) list"
  shows "map_of (rev (sort_key fst kvs)) k = map_of (rev kvs) k"
proof -
  have "map_of (rev xs) k = map_of (rev (filter (\<lambda>x. fst x = k) xs)) k" for xs :: "('a \<times> 'b) list"
    by (induction xs) (auto simp: map_add_def split: option.splits)
  moreover have "filter (\<lambda>x. fst x = k) (sort_key fst kvs) = filter (\<lambda>x. fst x = k) kvs"
    by (rule sort_key_stable)
  ultimately show ?thesis
    by metis
qed

lemma with_lock_read_normal:
  assumes w: "world_ok e w" "db < DB_COUNT" and ctx: "ctx \<noteq> CtxLua"
  shows "\<exists>w'. with_lock e ctx (Some db) ForRead k
      (\<lambda>l. map_option (\<lambda>(l', cur). (l', g cur)) (locked_select (rt_of e) k l)) w =
      Some (w', Inr (g (seen_of (\<lambda>k. peek e db k w) (unexpired (rt_of e)) k))) \<and> world_ok e w' \<and>
      (\<forall>d k'. peek e d k' w' = peek e d k' w)"
proof -
  obtain i where i: "get_shard_index e k = Some i" "i < num_shards e"
    using get_shard_index_bound w(1) unfolding world_ok_def by blast
  note sh = world_ok_shard [OF w i(2)]
  let ?n = "store w ! db ! i"
  obtain n where n: "direct_select (rt_of e) k (Readguard (global_memory w, ?n)) =
      Some (Readguard (global_memory w, n), seen_of (db_store ?n) (unexpired (rt_of e)) k)"
    "node_ok n" "db_store n = db_store ?n" "approx_memory n = approx_memory ?n"
    using read_guard_select sh(2) unfolding shard_ok_def by blast
  have seen: "seen_of (\<lambda>k. peek e db k w) (unexpired (rt_of e)) k = seen_of (db_store ?n) (unexpired (rt_of e)) k"
    by (simp add: seen_of_def peek_def i(1))
  have "shard_ok n"
    using n sh(2) by (simp add: shard_ok_def)
  then have ok: "world_ok e (put_shard db i (global_memory w, n) w)"
    by (rule world_ok_put [OF w i(2)]) (simp add: n(4))
  have len: "db < length (store w)" "i < length (store w ! db)"
    using world_ok_lengths [OF w] i(2) by auto
  have "\<forall>x. x \<noteq> k \<longrightarrow> db_store n x = db_store ?n x"
    by (simp add: n(3))
  note peeks = peek_put [OF len i(1) this]
  have "peek e d k' (put_shard db i (global_memory w, n) w) = peek e d k' w" for d k'
    using peeks n(3) by (cases "(d, k') = (db, k)") (auto simp: peek_def i(1))
  then show ?thesis
    using ctx i(1) sh(1) n(1) ok seen by (auto simp: with_lock_def own_lock_def)
qed

lemma mget_loop_effect:
  assumes "world_ok e w" "db < DB_COUNT" "ctx \<noteq> CtxLua"
  shows "\<exists>w'. mget_loop e ctx (Some db) ks acc w =
      Some (w', Inr (Array (acc @ map (\<lambda>k. string_reply e (seen_of (\<lambda>k. peek e db k w) (unexpired (rt_of e)) k)) ks))) \<and>
    world_ok e w' \<and> (\<forall>d k. peek e d k w' = peek e d k w)"
  using assms(1)
proof (induction ks arbitrary: w acc)
  case (Cons k ks)
  obtain w1 where w1: "with_lock e ctx (Some db) ForRead k
      (\<lambda>l. map_option (\<lambda>(l', cur). (l', string_reply e cur)) (locked_select (rt_of e) k l)) w =
      Some (w1, Inr (string_reply e (seen_of (\<lambda>k. peek e db k w) (unexpired (rt_of e)) k)))" "world_ok e w1"
    "\<forall>d k'. peek e d k' w1 = peek e d k' w"
    using with_lock_read_normal [OF Cons.prems assms(2,3)] by blast
  then show ?case
    using Cons.IH [OF w1(2), of "acc @ [string_reply e (seen_of (\<lambda>k. peek e db k w) (unexpired (rt_of e)) k)]"] by simp
qed auto

section \<open>Properties\<close>

lemma mset_effect:
  assumes "world_ok e w" and "db < DB_COUNT" and "ctx \<noteq> CtxLua"
  shows "\<exists>w'. execute e ev ctx (Some db) (MSet kvs) w = Some (w', Done (Inr (Simple ''OK''))) \<and> world_ok e w' \<and>
    (\<forall>d k. peek e d k w' =
       (if d = db then case map_of (rev kvs) k of Some v \<Rightarrow> Some (simple_entry e v None) | None \<Rightarrow> peek e d k w
        else peek e d k w)) \<and>
    aof_sent w' = aof_sent w @ log_bytes e ctx [MSet kvs] \<and>
    blocking_queues w' = blocking_queues w"
proof -
  obtain w1 where w1: "mset_loop e ctx (Some db) (sort_key fst kvs) w = Some (w1, Inr ())" "world_ok e w1"
    "aof_sent w1 = aof_sent w" "blocking_queues w1 = blocking_queues w"
    "\<forall>d k. peek e d k w1 =
       (if d = db then case map_of (rev (sort_key fst kvs)) k of Some v \<Rightarrow> Some (simple_entry e v None) | None \<Rightarrow> peek e d k w
        else peek e d k w)"
    using mset_loop_effect [OF assms, of "sort_key fst kvs"] by blast
  show ?thesis
    using w1 send_aof_effect [of w1 e ctx "MSet kvs"] same_storeD(3) [of w1 "send_aof e ctx (MSet kvs) w1"] same_storeD(9) [of w1 "send_aof e ctx (MSet kvs) w1" e]
    by (simp add: execute_def exec_mset_def finish_def map_of_sort_key)
qed

text \<open>Property C6: the accounting of the whole store. Starting from a sound world, in any context, every
  command that is not a script and whose score is a number runs without a panic (every database
  and shard index is in range) and leaves a sound world: the global memory counter is the sum of
  the accounts of all shards of all databases, the account of each shard is the sum of the
  recorded sizes of its entries, each eviction policy tracks exactly the keys of its shard, and
  every stored value satisfies its representation invariant.\<close>

theorem execute_keeps_world:
  assumes "world_ok e w" and "world_room w" and "db < DB_COUNT" and "numeric c"
    and "\<forall>s ks as. c \<noteq> Eval s ks as"
  shows "\<exists>w' r. execute e ev ctx (Some db) c w = Some (w', r) \<and> world_ok e w' \<and>
    global_memory w' = total_memory (store w') \<and>
    (\<forall>nodes \<in> set (store w'). \<forall>n \<in> set nodes. approx_memory n = stored_size (db_store n) \<and>
       strategy_keys (evicition n) = dom (db_store n) \<and> vals_ok (db_store n))"
proof -
  have "execute e ev ctx (Some db) c w = execute e (\<lambda>_ _ _ _ w. Some (w, Inr Null)) ctx (Some db) c w"
    using assms(5) by (cases c) (simp_all add: execute_def)
  then obtain w' r where "execute e ev ctx (Some db) c w = Some (w', r)" and ok: "world_ok e w'"
    using execute_keeps [OF assms(1-4), of "\<lambda>_ _ _ _ w. Some (w, Inr Null)" ctx] by (auto simp: engine_keeps_def)
  moreover have "global_memory w' = total_memory (store w')"
    and "\<forall>nodes \<in> set (store w'). \<forall>n \<in> set nodes. approx_memory n = stored_size (db_store n) \<and>
       strategy_keys (evicition n) = dom (db_store n) \<and> vals_ok (db_store n)"
    using ok unfolding world_ok_def shard_ok_def node_ok_def by blast+
  ultimately show ?thesis
    by blast
qed

lemma demo_world_ok: "world_ok demo_env (Storage_new demo_env LRU)"
  by (simp add: world_ok_new)

lemma peek_new [simp]: "db < DB_COUNT \<Longrightarrow> peek demo_env db k (Storage_new demo_env ty) = None"
proof -
  have "unat (of_nat (length k) :: u64) mod 2 < 2"
    by simp
  then show "db < DB_COUNT \<Longrightarrow> peek demo_env db k (Storage_new demo_env ty) = None"
    by (simp add: peek_def get_shard_index_def Storage_new_def MemoryCache_new_def MemoryCacheNode_new_def)
qed

theorem execute_keeps_world_witness:
  "\<exists>w' r. execute demo_env (\<lambda>_ _ _ _ _. None) CtxNormal (Some 3) (MSet [(''b'', ''1''), (''aa'', ''2'')])
     (Storage_new demo_env LRU) = Some (w', r) \<and> global_memory w' = total_memory (store w')"
proof -
  have "world_room (Storage_new demo_env LRU)"
    by (simp add: world_room_def Storage_new_def MemoryCache_new_def MemoryCacheNode_new_def vals_room_def)
  then show ?thesis
    using execute_keeps_world [OF demo_world_ok, of 3 "MSet [(''b'', ''1''), (''aa'', ''2'')]"]
    by (fastforce simp: DB_COUNT_def)
qed

text \<open>Property C3: a command executed by a client or during recovery implements its abstract meaning on
  the whole store. For every single-key command whose key is not expired and on which nobody is
  blocked, the reply is that of the abstract command, the value of the key becomes the abstract
  one, no other key of any database changes, the log receives exactly the entries of the
  abstract command (none during recovery), and the world stays sound.\<close>

theorem execute_refines_redis:
  assumes "world_ok e w" and "db < DB_COUNT" and "ctx \<noteq> CtxLua" and "single_key c" and "get_key c = Some k"
    and "pred_option (unexpired (rt_of e)) (peek e db k w)" and "slot_rel e (peek e db k w) cur"
    and "accepts c cur" and "(blocking_queues w ! db) k = None" and "redis e c cur = (cur', reply, log)"
  shows "\<exists>w'. execute e ev ctx (Some db) c w = Some (w', Done reply) \<and> world_ok e w' \<and>
    slot_rel e (peek e db k w') cur' \<and>
    (\<forall>d x. (d, x) \<noteq> (db, k) \<longrightarrow> peek e d x w' = peek e d x w) \<and>
    aof_sent w' = aof_sent w @ log_bytes e ctx log"
  using execute_effect [OF assms(1-9), of ev] unfolding assms(10) effect_def by auto

theorem execute_refines_redis_witness:
  "\<exists>w'. execute demo_env (\<lambda>_ _ _ _ _. None) CtxNormal (Some 0) (LPush ''k'' [''a'', ''b'']) (Storage_new demo_env LRU) =
     Some (w', Done (Inr (Integer 2))) \<and>
     slot_rel demo_env (peek demo_env 0 ''k'' w') (Some (AList [''b'', ''a''], None)) \<and>
     aof_sent w' = [encode_lpush ''k'' [''a'', ''b'']]"
proof -
  let ?c = "LPush ''k'' [''a'', ''b'']" and ?w = "Storage_new demo_env LRU"
  have c: "redis demo_env ?c None = (Some (AList [''b'', ''a''], None), Inr (Integer 2), [?c])"
    by (simp add: on_list_def)
  have w: "(blocking_queues ?w ! 0) ''k'' = None" "aof_sent ?w = []" "peek demo_env 0 ''k'' ?w = None"
    by (simp_all add: Storage_new_def DB_COUNT_def) (simp add: peek_new [unfolded Storage_new_def DB_COUNT_def])
  have "\<exists>w'. execute demo_env (\<lambda>_ _ _ _ _. None) CtxNormal (Some 0) ?c ?w = Some (w', Done (Inr (Integer 2))) \<and>
      world_ok demo_env w' \<and> slot_rel demo_env (peek demo_env 0 ''k'' w') (Some (AList [''b'', ''a''], None)) \<and>
      (\<forall>d x. (d, x) \<noteq> (0, ''k'') \<longrightarrow> peek demo_env d x w' = peek demo_env d x ?w) \<and>
      aof_sent w' = aof_sent ?w @ log_bytes demo_env CtxNormal [?c]"
    by (rule execute_refines_redis [OF demo_world_ok _ _ _ _ _ _ _ _ c]) (simp_all add: w DB_COUNT_def get_key_def)
  then show ?thesis
    using w(2) by (auto simp: log_bytes_def)
qed

text \<open>Property C27: \<^verbatim>\<open>MSET\<close> assigns every key the last value given for it, although the pairs are sorted
  by key before they are written, and changes nothing else.\<close>

theorem mset_last_value_wins:
  assumes "world_ok e w" and "db < DB_COUNT" and "ctx \<noteq> CtxLua"
  shows "\<exists>w'. execute e ev ctx (Some db) (MSet kvs) w = Some (w', Done (Inr (Simple ''OK''))) \<and> world_ok e w' \<and>
    (\<forall>d k. peek e d k w' =
       (if d = db then case map_of (rev kvs) k of Some v \<Rightarrow> Some (simple_entry e v None) | None \<Rightarrow> peek e d k w
        else peek e d k w)) \<and>
    aof_sent w' = aof_sent w @ log_bytes e ctx [MSet kvs]"
  using mset_effect [OF assms, of ev kvs] by blast

theorem mset_last_value_wins_witness:
  "\<exists>w'. execute demo_env (\<lambda>_ _ _ _ _. None) CtxRecovery (Some 0) (MSet [(''b'', ''1''), (''a'', ''2''), (''b'', ''3'')])
     (Storage_new demo_env LFU) = Some (w', Done (Inr (Simple ''OK''))) \<and>
     peek demo_env 0 ''b'' w' = Some (simple_entry demo_env ''3'' None)"
  using mset_last_value_wins [of demo_env "Storage_new demo_env LFU" 0 CtxRecovery "\<lambda>_ _ _ _ _. None"
      "[(''b'', ''1''), (''a'', ''2''), (''b'', ''3'')]"]
  by (auto simp: world_ok_new DB_COUNT_def)

text \<open>\<^verbatim>\<open>MGET\<close> is equivalent to a \<^verbatim>\<open>GET\<close> for each key: the i-th frame of its answer is what
  \<^verbatim>\<open>GET\<close> of the i-th key answers in the same world, and it changes no stored value.\<close>

lemma mget_equals_gets:
  assumes "world_ok e w" and "db < DB_COUNT" and "ctx \<noteq> CtxLua"
  shows "\<exists>w' frs. execute e ev ctx (Some db) (MGet ks) w = Some (w', Done (Inr (Array frs))) \<and>
    length frs = length ks \<and> (\<forall>d k. peek e d k w' = peek e d k w) \<and>
    (\<forall>i < length ks. \<exists>wi. execute e ev ctx (Some db) (Get (ks ! i)) w = Some (wi, Done (Inr (frs ! i))))"
proof -
  let ?reply = "\<lambda>k. string_reply e (seen_of (\<lambda>k. peek e db k w) (unexpired (rt_of e)) k)"
  obtain w' where w': "mget_loop e ctx (Some db) ks [] w = Some (w', Inr (Array (map ?reply ks)))"
    "\<forall>d k. peek e d k w' = peek e d k w"
    using mget_loop_effect [OF assms, of ks "[]"] by auto
  have "\<exists>wi. execute e ev ctx (Some db) (Get k) w = Some (wi, Done (Inr (?reply k)))" for k
  proof -
    have eq: "exec_locked e (Get k) =
        (\<lambda>l. map_option (\<lambda>(l', cur). (l', (Inr (string_reply e cur), []))) (locked_select (rt_of e) k l))"
      by (auto simp: exec_locked_def exec_get_def fun_eq_iff split: Option.bind_splits)
    show ?thesis
      using with_lock_read_normal [OF assms, of k "\<lambda>cur. (Inr (string_reply e cur) :: Frame kvres, [] :: Command list)"]
      by (auto simp: execute_def run_single_def eq finish_def)
  qed
  then show ?thesis
    using w' by (intro exI [of _ w'] exI [of _ "map ?reply ks"]) (simp add: execute_def exec_mget_def)
qed

text \<open>A read answers the entry that is there, if it is not past its deadline.\<close>

lemma get_effect:
  assumes "world_ok e w" "db < DB_COUNT"
  shows "\<exists>w'. execute_command_normal e ev (Some db) (Get k) w =
    Some (w', Done (Inr (string_reply e (seen_of (\<lambda>k. peek e db k w) (unexpired (rt_of e)) k))))"
proof -
  let ?g = "\<lambda>cur. (Inr (string_reply e cur) :: Frame kvres, [] :: Command list)"
  have "exec_locked e (Get k) = (\<lambda>l. map_option (\<lambda>(l', cur). (l', ?g cur)) (locked_select (rt_of e) k l))"
    by (auto simp: exec_locked_def exec_get_def fun_eq_iff bind_eq_None_conv intro!: option.expand split: bind_splits)
  then show ?thesis
    using with_lock_read_normal [OF assms, of CtxNormal k ?g]
    by (auto simp: execute_command_normal_def execute_def run_single_def finish_def)
qed

text \<open>Property C31: which accepted deadlines lie in the past. Take a \<^verbatim>\<open>SET\<close> with a deadline that the command parser has accepted, execute it on
  a key that is not expired and on which nobody is blocked, and read the key at the same moment. (The arithmetic is that of a release build.) A relative deadline in
  milliseconds never makes the key unreadable, as the parser bounds it by 2^63 and so is the clock. One in seconds does not if the sum fits 64
  bits; but when it overflows, for less than 2^64 milliseconds, the key is gone as soon as it is set. An absolute deadline, in either unit, hides the
  key exactly if it is before the present: the product with 1000 saturates.\<close>

theorem accepted_deadlines:
  assumes "world_ok e w" and "db < DB_COUNT" and "try_from (ext_of e) f = Inr (Set k v (Some x) None)"
    and "pred_option (unexpired (rt_of e)) (peek e db k w)" and "slot_rel e (peek e db k w) cur" and "(blocking_queues w ! db) k = None"
  shows "\<exists>w1 w2 reply. execute_command_normal e ev (Some db) (Set k v (Some x) None) w = Some (w1, Done (Inr (Simple ''OK''))) \<and>
    execute_command_normal e ev (Some db) (Get k) w1 = Some (w2, Done (Inr reply)) \<and>
    (case x of
       Exp_PX ms \<Rightarrow> unat (env_now e) < 2 ^ 63 \<longrightarrow> reply = Bulk (stored_bytes e v)
     | Exp_EX s \<Rightarrow>
         (unat (env_now e) + unat s * 1000 < 2 ^ 64 \<longrightarrow> reply = Bulk (stored_bytes e v)) \<and>
         (2 ^ 64 \<le> unat (env_now e) + unat s * 1000 \<and> unat s * 1000 < 2 ^ 64 \<longrightarrow> reply = Null)
     | Exp_EXAT s \<Rightarrow> reply = (if unat s * 1000 < unat (env_now e) then Null else Bulk (stored_bytes e v))
     | Exp_PXAT ms \<Rightarrow> reply = (if unat ms < unat (env_now e) then Null else Bulk (stored_bytes e v)))"
proof -
  let ?d = "calculate_expiration_timestamp_ms (env_now e) x" and ?v = "Bulk (stored_bytes e v)" and ?n = "unat (env_now e)"
  have range: "expiration_in_range x"
    using try_from_ok [OF assms(3)] by simp
  have "effect e CtxNormal db k w (execute e ev CtxNormal (Some db) (Set k v (Some x) None) w) (redis e (Set k v (Some x) None) cur)"
    by (intro execute_effect assms) (simp_all add: get_key_def)
  then obtain w1 en where w1: "execute_command_normal e ev (Some db) (Set k v (Some x) None) w = Some (w1, Done (Inr (Simple ''OK'')))"
    "world_ok e w1" "peek e db k w1 = Some en" "ent_rel e en (AStr (stored_bytes e v), Some ?d)"
    by (auto simp: effect_def set_refused_def execute_command_normal_def elim!: slot_relE)
  have "expires_at en = Some ?d"
    using w1(4) by (simp add: ent_rel_def)
  then have en: "unexpired (rt_of e) en \<longleftrightarrow> ?n \<le> unat ?d" "string_reply e (Some en) = ?v"
    using w1(4) by (auto simp: ent_rel_def unexpired_def expired_def word_less_nat_alt not_less string_reply_def elim!: val_rel.elims)
  obtain w2 where w2: "execute_command_normal e ev (Some db) (Get k) w1 = Some (w2, Done (Inr (if ?n \<le> unat ?d then ?v else Null)))"
    using get_effect [OF w1(2) assms(2), of ev k] w1(3) en by (auto simp: seen_of_def string_reply_def)
  have px: "?n \<le> unat ?d" if "x = Exp_PX ms" "?n < 2 ^ 63" for ms
    using that range by (simp add: expiration_in_range_def unat_word_ariths)
  have now: "?n < 2 ^ 64"
    using unsigned_less [of "env_now e"] by simp
  have ex: "unat (env_now e + s * 1000) = (?n + unat s * 1000) mod 2 ^ 64" for s
    by (simp add: unat_word_ariths mod_simps)
  have wrap: "(?n + unat s * 1000) mod 2 ^ 64 < ?n" if "2 ^ 64 \<le> ?n + unat s * 1000" "unat s * 1000 < 2 ^ 64" for s :: u64
    using that now by (subst le_mod_geq) auto
  let ?r = "if ?n \<le> unat ?d then ?v else Null"
  have "case x of
       Exp_PX ms \<Rightarrow> unat (env_now e) < 2 ^ 63 \<longrightarrow> ?r = ?v
     | Exp_EX s \<Rightarrow>
         (unat (env_now e) + unat s * 1000 < 2 ^ 64 \<longrightarrow> ?r = ?v) \<and>
         (2 ^ 64 \<le> unat (env_now e) + unat s * 1000 \<and> unat s * 1000 < 2 ^ 64 \<longrightarrow> ?r = Null)
     | Exp_EXAT s \<Rightarrow> ?r = (if unat s * 1000 < unat (env_now e) then Null else ?v)
     | Exp_PXAT ms \<Rightarrow> ?r = (if unat ms < unat (env_now e) then Null else ?v)"
  proof (cases x)
    case (Exp_EX s)
    then show ?thesis
      using ex [of s] wrap [of s] by (auto simp del: unat_add_lem)
  qed (use px now in \<open>auto simp: unat_saturating_mul simp del: unat_add_lem\<close>)
  then show ?thesis
    using w1(1) w2 by blast
qed

theorem accepted_deadlines_witness:
  "\<exists>e w1 w2. env_now e = 1000 \<and>
     try_from (ext_of e) (Array [Bulk ''SET'', Bulk ''k'', Bulk ''v'', Bulk ''EX'', Bulk ''18446744073709551'']) =
       Inr (Set ''k'' ''v'' (Some (Exp_EX 18446744073709551)) None) \<and>
     execute_command_normal e (\<lambda>_ _ _ _ _. None) (Some 0) (Set ''k'' ''v'' (Some (Exp_EX 18446744073709551)) None)
       (Storage_new e LRU :: unit world) = Some (w1, Done (Inr (Simple ''OK''))) \<and>
     execute_command_normal e (\<lambda>_ _ _ _ _. None) (Some 0) (Get ''k'') w1 = Some (w2, Done (Inr Null))"
proof -
  let ?e = "demo_env\<lparr>rt_of := demo_rt\<lparr>cached_time_ms := 1000\<rparr>\<rparr>" and ?ev = "\<lambda>_ _ _ _ _. None"
  let ?w = "Storage_new ?e LRU :: unit world"
  have "show_int 18446744073709551 = ''18446744073709551''"
    by (simp add: show_int_def show_nat.simps)
  then have "parse_i64 ''18446744073709551'' = Some 18446744073709551"
    using parse_signed_show_int [of 64 18446744073709551] by simp
  moreover have "eq_ignore_ascii_case ''EX'' ''EX''" "\<not> eq_ignore_ascii_case ''EX'' ''PX''"
    by code_simp+
  moreover have "utf8_valid ''k''" "utf8_valid ''18446744073709551''"
    by (simp_all add: ascii_utf8_valid nat_of_char_def)
  ultimately have parsed: "try_from (ext_of ?e) (Array [Bulk ''SET'', Bulk ''k'', Bulk ''v'', Bulk ''EX'', Bulk ''18446744073709551'']) =
      Inr (Set ''k'' ''v'' (Some (Exp_EX 18446744073709551)) None)"
    using demo_ext_ok by (simp add: try_from_command dispatch_def command_names_def parse_set_def extract_bulk_integer_def)
  have "world_ok ?e ?w"
    by (rule world_ok_new) simp
  moreover have "peek ?e 0 ''k'' ?w = None" "(blocking_queues ?w ! 0) ''k'' = None"
    by (simp_all add: peek_def get_shard_index_def Storage_new_def MemoryCache_new_def MemoryCacheNode_new_def DB_COUNT_def)
  ultimately show ?thesis
    using accepted_deadlines [OF _ _ parsed, of ?w 0 None ?ev] parsed
    by (intro exI [of _ ?e]) (auto simp: DB_COUNT_def)
qed

end
