(* ===== verification/Blocking.thy ===== *)
theory Blocking
  imports Storage
begin

text \<open>
  Blocked clients (\<^verbatim>\<open>src/src/executor/list.rs\<close>): the hand-over of pushed values to the clients that
  wait in \<^verbatim>\<open>BLPOP\<close>, its order, what interleavings of the two halves of \<^verbatim>\<open>LPUSH\<close> with a \<^verbatim>\<open>BLPOP\<close> can do,
  and what reaches the log.

  The step relation \<open>bstep\<close> interleaves the atomic parts: the start of a \<^verbatim>\<open>BLPOP\<close> under the lock of
  the shard, the queue half and the storing half of an \<^verbatim>\<open>LPUSH\<close>, the end of a wait (a value, or a timeout and then the
  drop of the receiver), and the log entry of each of them, which is sent when no lock is held any more. The functions of the theory
  of the store run the parts of one command without a break.
\<close>

section \<open>Hand-over\<close>

lemma deliver_one_spec:
  "deliver_one v txs w =
     (case filter (\<lambda>tx. tx \<notin> dropped w) txs of
        [] \<Rightarrow> (False, [], w)
      | tx # _ \<Rightarrow> (True, tl (dropWhile (\<lambda>tx. tx \<in> dropped w) txs), w\<lparr>inbox := (inbox w)(tx \<mapsto> v)\<rparr>))"
  by (induction txs) (auto split: list.splits)

lemma alive_after_one:
  "filter (\<lambda>tx. tx \<notin> D) txs = tx # rest \<Longrightarrow> filter (\<lambda>tx. tx \<notin> D) (tl (dropWhile (\<lambda>tx. tx \<in> D) txs)) = rest"
  by (induction txs) (auto split: if_splits)

text \<open>The living clients are served first come, first served; what is left over is pushed.\<close>

definition alive :: "'j world \<Rightarrow> nat list \<Rightarrow> nat list" where
  "alive w txs = filter (\<lambda>tx. tx \<notin> dropped w) txs"

lemma alive_inbox [simp]: "alive (w\<lparr>inbox := f\<rparr>) txs = alive w txs"
  by (simp add: alive_def)

lemma inbox_upd: "inbox (w\<lparr>inbox := f\<rparr>) = f" "w\<lparr>inbox := f\<rparr>\<lparr>inbox := g\<rparr> = w\<lparr>inbox := g\<rparr>"
  by simp_all

lemma deliver_nobody: "deliver vs [] w = (vs, [], w)"
  by (induction vs) auto

lemma deliver_spec:
  assumes "distinct txs" and "deliver vs txs w = (unsent, txs', w')"
  shows "unsent = drop (length (alive w txs)) vs \<and> alive w txs' = drop (length vs) (alive w txs) \<and>
    set txs' \<subseteq> set txs \<and> distinct txs' \<and> w' = w\<lparr>inbox := inbox w ++ map_of (zip (alive w txs) vs)\<rparr>"
  using assms
proof (induction vs arbitrary: txs unsent w)
  case Nil
  then show ?case
    by simp
next
  case (Cons v vs)
  show ?case
  proof (cases "alive w txs")
    case Nil
    then have "deliver_one v txs w = (False, [], w)"
      by (simp add: deliver_one_spec alive_def)
    then show ?thesis
      using Cons.prems Nil deliver_nobody [of vs w] by (auto simp: alive_def)
  next
    case alive: (Cons tx rest)
    let ?txs1 = "tl (dropWhile (\<lambda>tx. tx \<in> dropped w) txs)"
    let ?w1 = "w\<lparr>inbox := (inbox w)(tx \<mapsto> v)\<rparr>"
    have one: "deliver_one v txs w = (True, ?txs1, ?w1)"
      using alive by (simp add: deliver_one_spec alive_def)
    have alive1: "alive w ?txs1 = rest"
      using alive_after_one [of "dropped w" txs tx rest] alive by (simp add: alive_def)
    have "?txs1 = drop (Suc (length (takeWhile (\<lambda>tx. tx \<in> dropped w) txs))) txs"
      by (simp add: dropWhile_eq_drop tl_drop drop_Suc)
    then have sub: "set ?txs1 \<subseteq> set txs" and dist: "distinct ?txs1"
      using Cons.prems(1) set_drop_subset by (metis, metis distinct_drop)
    have tx: "tx \<notin> set rest"
      using distinct_filter [OF Cons.prems(1), of "\<lambda>tx. tx \<notin> dropped w"] alive by (simp add: alive_def)
    have rest: "deliver vs ?txs1 ?w1 = (unsent, txs', w')"
      using Cons.prems(2) one by (cases "deliver vs ?txs1 ?w1") auto
    have box: "(inbox w)(tx \<mapsto> v) ++ map_of (zip rest vs) = inbox w ++ map_of (zip (tx # rest) (v # vs))"
      using tx by (auto simp: map_add_def fun_eq_iff split: option.splits dest!: map_of_SomeD set_zip_leftD)
    have IH: "unsent = drop (length rest) vs" "alive w txs' = drop (length vs) rest" "set txs' \<subseteq> set ?txs1"
      "distinct txs'" "w' = w\<lparr>inbox := (inbox w)(tx \<mapsto> v) ++ map_of (zip rest vs)\<rparr>"
      using Cons.IH [OF dist rest] unfolding alive_inbox alive1 inbox_upd by blast+
    have boxed: "w' = w\<lparr>inbox := inbox w ++ map_of (zip (alive w txs) (v # vs))\<rparr>"
      using IH(5) unfolding alive box .
    have lens: "unsent = drop (length (alive w txs)) (v # vs)" "alive w txs' = drop (length (v # vs)) (alive w txs)"
      using IH(1,2) alive by simp_all
    show ?thesis
      by (intro conjI lens subset_trans [OF IH(3) sub] IH(4) boxed)
  qed
qed

section \<open>Interleavings\<close>

text \<open>\<open>pending\<close> are pushes that have served the queue and not yet stored the rest; \<open>leaving\<close> are clients whose wait has timed out but whose
  receiver is not dropped yet; \<open>unlogged\<close> are the commands whose log entry is still to be sent.\<close>

record 'j bstate =
  bw :: "'j world"
  pending :: "(nat \<times> key \<times> bytes list \<times> bytes list) list"
  waiting :: "nat \<rightharpoonup> nat \<times> key"
  leaving :: "nat set"
  unlogged :: "Command list"

definition to_log :: "(Frame kvres \<times> Command list) kvres \<Rightarrow> Command list" where
  "to_log r = (case r of Inl _ \<Rightarrow> [] | Inr (_, log) \<Rightarrow> log)"

inductive bstep :: "'j env \<Rightarrow> 'j bstate \<Rightarrow> 'j bstate \<Rightarrow> bool" for e where
  blpop_blocks:
    "blpop_locked e CtxNormal (Some db) k (bw s) = Some (w', Blocked ch, log) \<Longrightarrow>
     bstep e s (s\<lparr>bw := w', waiting := (waiting s)(ch \<mapsto> (db, k)), unlogged := unlogged s @ log\<rparr>)"
| blpop_returns:
    "blpop_locked e CtxNormal (Some db) k (bw s) = Some (w', Done r, log) \<Longrightarrow>
     bstep e s (s\<lparr>bw := w', unlogged := unlogged s @ log\<rparr>)"
| push_queue:
    "lpush_queue_phase CtxNormal (Some db) k vs (bw s) = Some (w', pushes) \<Longrightarrow>
     bstep e s (s\<lparr>bw := w', pending := pending s @ [(db, k, pushes, vs)]\<rparr>)"
| push_store:
    "pending s = xs @ (db, k, pushes, vs) # ys \<Longrightarrow>
     with_lock e CtxNormal (Some db) ForWrite k (exec_lpush e k pushes vs) (bw s) = Some (w', r) \<Longrightarrow>
     bstep e s (s\<lparr>bw := w', pending := xs @ ys, unlogged := unlogged s @ to_log r\<rparr>)"
| wake:
    "waiting s ch = Some (db, k) \<Longrightarrow> inbox (bw s) ch = Some b \<Longrightarrow>
     bstep e s (s\<lparr>waiting := (waiting s)(ch := None), unlogged := unlogged s @ [LPop k]\<rparr>)"
| time_out:
    "waiting s ch = Some (db, k) \<Longrightarrow> inbox (bw s) ch = None \<Longrightarrow>
     bstep e s (s\<lparr>waiting := (waiting s)(ch := None), leaving := insert ch (leaving s)\<rparr>)"
| leave:
    "ch \<in> leaving s \<Longrightarrow>
     bstep e s (s\<lparr>bw := (bw s)\<lparr>dropped := insert ch (dropped (bw s))\<rparr>, leaving := leaving s - {ch}\<rparr>)"
| log_sent:
    "unlogged s = xs @ c # ys \<Longrightarrow> bstep e s (s\<lparr>bw := send_aof e CtxNormal c (bw s), unlogged := xs @ ys\<rparr>)"

inductive_cases bstepE: "bstep e s s'"

text \<open>The channels in the queues: fresh, in one place only, and not yet sent a value.\<close>

definition queued :: "'j world \<Rightarrow> nat \<Rightarrow> key \<Rightarrow> nat list" where
  "queued w db k = (case (blocking_queues w ! db) k of None \<Rightarrow> [] | Some txs \<Rightarrow> txs)"

definition waits :: "'j world \<Rightarrow> nat \<Rightarrow> nat \<Rightarrow> key \<Rightarrow> bool" where
  "waits w ch db k \<longleftrightarrow> db < length (blocking_queues w) \<and> ch \<in> set (queued w db k)"

definition queues_ok :: "'j world \<Rightarrow> bool" where
  "queues_ok w \<longleftrightarrow>
     (\<forall>ch \<in> dom (inbox w). ch < next_channel w) \<and>
     (\<forall>db k. db < length (blocking_queues w) \<longrightarrow> distinct (queued w db k)) \<and>
     (\<forall>ch db k. waits w ch db k \<longrightarrow> ch < next_channel w \<and> inbox w ch = None) \<and>
     (\<forall>ch db k db' k'. waits w ch db k \<longrightarrow> waits w ch db' k' \<longrightarrow> (db', k') = (db, k))"

lemma queues_okD:
  assumes "queues_ok w"
  shows "inbox w ch \<noteq> None \<Longrightarrow> ch < next_channel w"
    and "db < length (blocking_queues w) \<Longrightarrow> distinct (queued w db k)"
    and "waits w ch db k \<Longrightarrow> ch < next_channel w" and "waits w ch db k \<Longrightarrow> inbox w ch = None"
    and "waits w ch db k \<Longrightarrow> waits w ch db' k' \<Longrightarrow> (db', k') = (db, k)"
  using assms unfolding queues_ok_def by (blast, blast, blast, blast, blast)

lemma queues_okI:
  assumes "\<And>ch. inbox w ch \<noteq> None \<Longrightarrow> ch < next_channel w"
    and "\<And>db k. db < length (blocking_queues w) \<Longrightarrow> distinct (queued w db k)"
    and "\<And>ch db k. waits w ch db k \<Longrightarrow> ch < next_channel w" and "\<And>ch db k. waits w ch db k \<Longrightarrow> inbox w ch = None"
    and "\<And>ch db k db' k'. waits w ch db k \<Longrightarrow> waits w ch db' k' \<Longrightarrow> (db', k') = (db, k)"
  shows "queues_ok w"
  using assms unfolding queues_ok_def by blast

lemma queues_ok_same:
  assumes "queues_ok w" "blocking_queues w' = blocking_queues w" "inbox w' = inbox w" "next_channel w' = next_channel w"
  shows "queues_ok w'"
  using assms unfolding queues_ok_def queued_def waits_def by (simp only:)

lemma with_lock_rest: "with_lock e ctx conn acc k f w = Some (w', r) \<Longrightarrow> same_rest w w'"
  by (auto simp: with_lock_def same_rest_def put_shard_def bind_eq_Some_conv split: if_splits option.splits)

lemma queued_upd:
  assumes "db < length (blocking_queues w)"
  shows "queued (w\<lparr>blocking_queues := (blocking_queues w)[db := (blocking_queues w ! db)(k := v)]\<rparr>) db' k' =
    (if (db', k') = (db, k) then (case v of None \<Rightarrow> [] | Some txs \<Rightarrow> txs) else queued w db' k')"
  using assms by (auto simp: queued_def nth_list_update)

lemma queues_ok_register:
  assumes "queues_ok w" "register_waiter db k w = Some (w', ch)"
  shows "queues_ok w'" "inbox w' = inbox w" "ch = next_channel w"
proof -
  have db: "db < length (blocking_queues w)"
    using assms(2) by (auto simp: register_waiter_def nth_opt_eq_Some_iff bind_eq_Some_conv)
  let ?w1 = "w\<lparr>blocking_queues := (blocking_queues w)[db := (blocking_queues w ! db)(k \<mapsto> queued w db k @ [next_channel w])]\<rparr>"
  have w': "w' = ?w1\<lparr>next_channel := Suc (next_channel w)\<rparr>" and ch: "ch = next_channel w"
    using assms(2) db by (auto simp: register_waiter_def queued_def Let_def)
  then show "inbox w' = inbox w" "ch = next_channel w"
    by simp_all
  have q: "queued w' d x = (if (d, x) = (db, k) then queued w db k @ [next_channel w] else queued w d x)" for d x
    using queued_upd [OF db, of k "Some (queued w db k @ [next_channel w])" d x] by (simp add: w' queued_def)
  have len: "length (blocking_queues w') = length (blocking_queues w)" "inbox w' = inbox w"
    "next_channel w' = Suc (next_channel w)"
    by (simp_all add: w')
  have wt: "waits w' x d y \<longleftrightarrow> waits w x d y \<or> x = next_channel w \<and> (d, y) = (db, k)" for x d y
    using db by (auto simp: waits_def len q)
  have fresh: "\<not> waits w (next_channel w) d y" for d y
    using queues_okD(3) [OF assms(1)] by blast
  show "queues_ok w'"
  proof (rule queues_okI)
    show "distinct (queued w' d x)" if "d < length (blocking_queues w')" for d x
      using that queues_okD(2) [OF assms(1)] fresh [of d x] by (auto simp: q len waits_def)
    show "(d', y') = (d, y)" if "waits w' x d y" "waits w' x d' y'" for x d y d' y'
      using that queues_okD(5) [OF assms(1)] fresh unfolding wt by blast
    show "inbox w' x = None" if "waits w' x d y" for x d y
      using that queues_okD(1,4) [OF assms(1)] unfolding wt len by blast
    show "x < next_channel w'" if "waits w' x d y" for x d y
      using that queues_okD(3) [OF assms(1)] unfolding wt len by (auto intro: less_SucI)
    show "x < next_channel w'" if "inbox w' x \<noteq> None" for x
      using that queues_okD(1) [OF assms(1)] unfolding len by (auto intro: less_SucI)
  qed
qed

lemma queues_ok_deliver:
  assumes ok: "queues_ok w" and run: "lpush_queue_phase CtxNormal (Some db) k vs w = Some (w', pushes)"
  shows "queues_ok w'" "inbox w \<subseteq>\<^sub>m inbox w'"
proof -
  have db: "db < length (blocking_queues w)"
    using run by (auto simp: lpush_queue_phase_def nth_opt_eq_Some_iff bind_eq_Some_conv)
  have "queues_ok w' \<and> inbox w \<subseteq>\<^sub>m inbox w'"
  proof (cases "(blocking_queues w ! db) k")
    case None
    then show ?thesis
      using run db ok by (simp add: lpush_queue_phase_def)
  next
    case (Some txs)
    then have q: "queued w db k = txs"
      by (simp add: queued_def)
    obtain un txs' w1 where dv: "deliver vs txs w = (un, txs', w1)"
      by (cases "deliver vs txs w")
    note spec = deliver_spec [OF queues_okD(2) [OF ok db, of k, unfolded q] dv]
    let ?box = "inbox w ++ map_of (zip (alive w txs) vs)"
    let ?v = "if txs' = [] then None else Some txs'"
    have w': "w' = w\<lparr>inbox := ?box, blocking_queues := (blocking_queues w)[db := (blocking_queues w ! db)(k := ?v)]\<rparr>"
      using run db Some dv spec by (simp add: lpush_queue_phase_def)
    have q': "queued w' d x = (if (d, x) = (db, k) then txs' else queued w d x)" for d x
      using queued_upd [OF db, of k ?v d x] by (simp add: w' queued_def)
    have len: "length (blocking_queues w') = length (blocking_queues w)" "next_channel w' = next_channel w"
      by (simp_all add: w')
    have box: "ch \<in> set (take (length vs) (alive w txs))" if some: "map_of (zip (alive w txs) vs) ch \<noteq> None" for ch
    proof -
      obtain v where "map_of (zip (alive w txs) vs) ch = Some v"
        using some by blast
      then obtain i where "i < length (alive w txs)" "i < length vs" "ch = alive w txs ! i"
        by (auto dest!: map_of_SomeD simp: in_set_zip)
      then show ?thesis
        by (auto simp: in_set_conv_nth intro!: exI [of _ i])
    qed
    have wt: "waits w x d y" if "waits w' x d y" for x d y
      using that spec q by (auto simp: waits_def q' len split: if_splits)
    have sent: "waits w x db k" if "map_of (zip (alive w txs) vs) x \<noteq> None" for x
      using box [OF that] db q by (auto simp: waits_def alive_def dest: in_set_takeD)
    have none: "map_of (zip (alive w txs) vs) x = None" if x: "waits w' x d y" for x d y
    proof (rule ccontr)
      assume some: "map_of (zip (alive w txs) vs) x \<noteq> None"
      then have "(d, y) = (db, k)"
        using queues_okD(5) [OF ok sent wt] x by blast
      then have "x \<in> set txs'"
        using x q' by (simp add: waits_def)
      moreover have taken: "x \<in> set (take (length vs) (alive w txs))" "x \<notin> dropped w"
        using box [OF some] by (auto simp: alive_def dest: in_set_takeD)
      ultimately have "x \<in> set (alive w txs')"
        by (simp add: alive_def)
      then have "x \<in> set (drop (length vs) (alive w txs))"
        using spec by simp
      moreover have "distinct (alive w txs)"
        using queues_okD(2) [OF ok db, of k] q by (simp add: alive_def)
      ultimately show False
        using taken(1) set_take_disj_set_drop_if_distinct [of "alive w txs" "length vs" "length vs"] by blast
    qed
    have "queues_ok w'"
    proof (rule queues_okI)
      show "distinct (queued w' d x)" if "d < length (blocking_queues w')" for d x
        using that queues_okD(2) [OF ok] spec by (simp add: q' len)
      show "(d', y') = (d, y)" if "waits w' x d y" "waits w' x d' y'" for x d y d' y'
        using that wt queues_okD(5) [OF ok] by blast
      show "inbox w' x = None" if "waits w' x d y" for x d y
        using queues_okD(4) [OF ok wt [OF that]] none [OF that] by (simp add: w')
      show "x < next_channel w'" if "waits w' x d y" for x d y
        using queues_okD(3) [OF ok wt [OF that]] by (simp add: len)
      show "x < next_channel w'" if "inbox w' x \<noteq> None" for x
        using that queues_okD(1,3) [OF ok] sent [of x] by (auto simp: w' map_add_def split: option.splits)
    qed
    moreover have "inbox w \<subseteq>\<^sub>m inbox w'"
      using sent queues_okD(4) [OF ok] by (fastforce simp: w' map_le_def map_add_def split: option.splits)
    ultimately show ?thesis
      by blast
  qed
  then show "queues_ok w'" "inbox w \<subseteq>\<^sub>m inbox w'"
    by blast+
qed

lemma bstep_queues:
  assumes "bstep e s s'" "queues_ok (bw s)"
  shows "queues_ok (bw s') \<and> inbox (bw s) \<subseteq>\<^sub>m inbox (bw s')"
  using assms(1)
proof cases
  case (blpop_blocks db k w' ch log)
  obtain w1 x where w1: "with_lock e CtxNormal (Some db) ForWrite k (exec_blpop e k) (bw s) = Some (w1, x)"
    using blpop_blocks(2) by (auto simp: blpop_locked_def bind_eq_Some_conv)
  have reg: "register_waiter db k w1 = Some (w', ch)"
    using blpop_blocks(2) w1
    by (auto simp: blpop_locked_def bind_eq_Some_conv split: sum.splits blpop_phase.splits)
  note rest = same_restD [OF with_lock_rest [OF w1]]
  have "queues_ok w1"
    by (rule queues_ok_same [OF assms(2) rest(1-3)])
  then show ?thesis
    using queues_ok_register [OF _ reg] rest(2) blpop_blocks(1) by simp
next
  case (blpop_returns db k w' r log)
  obtain w1 x where w1: "with_lock e CtxNormal (Some db) ForWrite k (exec_blpop e k) (bw s) = Some (w1, x)"
    using blpop_returns(2) by (auto simp: blpop_locked_def bind_eq_Some_conv)
  moreover have "w' = w1"
    using blpop_returns(2) w1
    by (auto simp: blpop_locked_def bind_eq_Some_conv split: sum.splits blpop_phase.splits)
  ultimately have "with_lock e CtxNormal (Some db) ForWrite k (exec_blpop e k) (bw s) = Some (w', x)"
    by simp
  note rest = same_restD [OF with_lock_rest [OF this]]
  show ?thesis
    using queues_ok_same [OF assms(2) rest(1-3)] rest(2) blpop_returns(1) by simp
next
  case (push_queue db k vs w' pushes)
  then show ?thesis
    using queues_ok_deliver [OF assms(2)] by simp
next
  case (push_store xs db k pushes vs ys w' r)
  note rest = same_restD [OF with_lock_rest [OF push_store(3)]]
  show ?thesis
    using queues_ok_same [OF assms(2) rest(1-3)] rest(2) push_store(1) by simp
next
  case (log_sent xs c ys)
  note st = same_storeD [OF conjunct1 [OF send_aof_effect [of "bw s" e CtxNormal c]]]
  show ?thesis
    using queues_ok_same [OF assms(2) st(3,4,6)] st(4) log_sent(1) by simp
next
  case (leave ch)
  then show ?thesis
    using queues_ok_same [OF assms(2), of "(bw s)\<lparr>dropped := insert ch (dropped (bw s))\<rparr>"] by simp
qed (use assms(2) in simp_all)

interpretation blocking_run: step_invariant "bstep e" "\<lambda>s. queues_ok (bw s) \<and> box \<subseteq>\<^sub>m inbox (bw s)" for e box
  by unfold_locales (auto dest: bstep_queues intro: map_le_trans)

definition bstart :: "'j env \<Rightarrow> EvictionType \<Rightarrow> 'j bstate" where
  "bstart e ty = \<lparr>bw = Storage_new e ty, pending = [], waiting = Map.empty, leaving = {}, unlogged = []\<rparr>"

lemma queues_ok_new: "queues_ok (Storage_new e ty)"
  by (rule queues_okI) (auto simp: Storage_new_def waits_def queued_def)

section \<open>Locks on an absent key\<close>

lemma peek_store: "store w' = store w \<Longrightarrow> peek e d x w' = peek e d x w"
  by (simp add: peek_def split: option.split)

lemma blpop_absent:
  assumes "world_ok e w" "db < DB_COUNT" "peek e db k w = None"
  shows "\<exists>w1. with_lock e CtxNormal (Some db) ForWrite k (exec_blpop e k) w = Some (w1, Inr Absent) \<and> world_ok e w1 \<and>
    same_rest w w1 \<and> (\<forall>d x. peek e d x w1 = peek e d x w)"
proof -
  obtain i where i: "get_shard_index e k = Some i" "i < num_shards e"
    using get_shard_index_bound assms(1) unfolding world_ok_def by blast
  note sh = world_ok_shard [OF assms(1,2) i(2)]
  let ?n = "store w ! db ! i"
  have none: "db_store ?n k = None"
    using assms(3) by (simp add: peek_def i(1))
  then have "remove_entry k (global_memory w, ?n) = Some ((global_memory w, ?n), None)"
    by (simp add: remove_entry_def)
  then have run: "with_lock e CtxNormal (Some db) ForWrite k (exec_blpop e k) w =
      Some (put_shard db i (global_memory w, ?n) w, Inr Absent)"
    using i(1) sh(1) by (simp add: with_lock_def own_lock_def exec_blpop_def)
  have same: "put_shard db i (global_memory w, ?n) w = w"
    by (simp add: put_shard_def)
  then show ?thesis
    using run assms(1) by (simp add: same_rest_def)
qed

lemma blpop_registers:
  assumes "world_ok e w" "db < DB_COUNT" "peek e db k w = None" "(blocking_queues w ! db) k = None"
  shows "\<exists>w'. blpop_locked e CtxNormal (Some db) k w = Some (w', Blocked (next_channel w), []) \<and> world_ok e w' \<and>
    (\<forall>d x. peek e d x w' = peek e d x w) \<and> (blocking_queues w' ! db) k = Some [next_channel w] \<and>
    inbox w' = inbox w \<and> dropped w' = dropped w \<and> aof_sent w' = aof_sent w"
proof -
  obtain w1 where w1: "with_lock e CtxNormal (Some db) ForWrite k (exec_blpop e k) w = Some (w1, Inr Absent)"
    "world_ok e w1" "same_rest w w1" "\<forall>d x. peek e d x w1 = peek e d x w"
    using blpop_absent [OF assms(1-3)] by blast
  note rest = same_restD [OF w1(3)]
  have db: "db < length (blocking_queues w)"
    using assms(1,2) by (simp add: world_ok_def)
  let ?w' = "w1\<lparr>blocking_queues := (blocking_queues w1)[db := (blocking_queues w1 ! db)(k \<mapsto> [next_channel w1])],
      next_channel := Suc (next_channel w1)\<rparr>"
  have reg: "register_waiter db k w1 = Some (?w', next_channel w1)"
    using db assms(4) by (simp add: register_waiter_def rest Let_def)
  have "world_ok e ?w'"
    using w1(2) by (simp add: world_ok_def)
  moreover have "peek e d x ?w' = peek e d x w" for d x
    using w1(4) peek_store [of ?w' w1] by simp
  ultimately show ?thesis
    using w1(1) reg rest db by (simp add: blpop_locked_def)
qed

lemma lpush_implements:
  assumes "view_ok l" "locked_ok l" "key_live (rt_of e) k l" "slot_rel e (locked_tk (rt_of e) l k) cur"
    and "redis e (LPush k pushes) cur = (cur', reply, log)"
  shows "implements e k l (exec_lpush e k pushes vs l) (cur', reply, map (\<lambda>_. LPush k vs) log)"
proof -
  have "implements e k l (exec_locked e (LPush k pushes) l) (redis e (LPush k pushes) cur)"
    using assms(1-4) by (intro exec_locked_refines) (auto simp: get_key_def handed_live)
  then have "implements e k l (exec_lpush e k pushes pushes l) (cur', reply, log)"
    by (simp add: assms(5) exec_locked_def del: redis.simps)
  then show ?thesis
    by (subst exec_lpush_log) (auto simp: implements_def)
qed

lemma lpush_store_run:
  assumes "world_ok e w" "db < DB_COUNT" "ctx \<noteq> CtxLua"
    and "pred_option (unexpired (rt_of e)) (peek e db k w)" "slot_rel e (peek e db k w) cur"
    and "redis e (LPush k pushes) cur = (cur', reply, log)"
  shows "\<exists>w'. with_lock e ctx (Some db) ForWrite k (exec_lpush e k pushes vs) w = Some (w', Inr (reply, map (\<lambda>_. LPush k vs) log)) \<and>
    world_ok e w' \<and> same_rest w w' \<and> slot_rel e (peek e db k w') cur'"
proof -
  have "\<exists>w'. with_lock e ctx (Some db) ForWrite k (exec_lpush e k pushes vs) w =
      Some (w', Inr (snd (cur', reply, map (\<lambda>_. LPush k vs) log))) \<and> world_ok e w' \<and> same_rest w w' \<and>
      slot_rel e (peek e db k w') (fst (cur', reply, map (\<lambda>_. LPush k vs) log)) \<and>
      (\<forall>d k'. (d, k') \<noteq> (db, k) \<longrightarrow> peek e d k' w' = peek e d k' w)"
    by (rule with_lock_run [OF assms(1-5)]) (simp_all add: lpush_implements [OF _ _ _ _ assms(6)])
  then show ?thesis
    by auto
qed

lemma lpush_store_effect:
  assumes "world_ok e w" "db < DB_COUNT" "ctx \<noteq> CtxLua"
    and "pred_option (unexpired (rt_of e)) (peek e db k w)" "slot_rel e (peek e db k w) cur"
    and "redis e (LPush k pushes) cur = (cur', reply, log)"
  shows "effect e ctx db k w (lpush_store_phase e ctx (Some db) k pushes vs w) (cur', reply, map (\<lambda>_. LPush k vs) log)"
  unfolding lpush_store_phase_def
  by (rule with_lock_effect [OF assms(1-5)]) (simp_all add: lpush_implements [OF _ _ _ _ assms(6)])

section \<open>Properties\<close>

text \<open>Property C15: blocked clients are served in order and promptly. When the values of an \<^verbatim>\<open>LPUSH\<close> meet
  clients blocked on the key, the i-th living client in the order of arrival is sent the i-th
  value, and its wait then ends with that value; the values beyond the number of living clients,
  and only those, are left to be pushed onto the list.\<close>

theorem lpush_serves_blocked_in_order:
  assumes "queues_ok w" and "db < length (blocking_queues w)" and "i < length vs"
    and "i < length (alive w (queued w db k))" and "lpush_queue_phase CtxNormal (Some db) k vs w = Some (w', pushes)"
  shows "inbox w' (alive w (queued w db k) ! i) = Some (vs ! i) \<and>
    snd (blpop_wake e CtxNormal k (alive w (queued w db k) ! i) w') = Inr (blpop_reply k (vs ! i)) \<and>
    pushes = drop (length (alive w (queued w db k))) vs"
proof -
  let ?al = "alive w (queued w db k)"
  obtain txs where txs: "(blocking_queues w ! db) k = Some txs" "queued w db k = txs"
    using assms(4) by (cases "(blocking_queues w ! db) k") (auto simp: queued_def alive_def)
  obtain un txs' w1 where dv: "deliver vs txs w = (un, txs', w1)"
    by (cases "deliver vs txs w")
  have dist: "distinct txs"
    using queues_okD(2) [OF assms(1,2), of k] txs(2) by simp
  note spec = deliver_spec [OF dist dv]
  have "inbox w' = inbox w ++ map_of (zip ?al vs)" "pushes = drop (length ?al) vs"
    using assms(2,5) txs dv spec by (auto simp: lpush_queue_phase_def)
  moreover have "map_of (zip ?al vs) (?al ! i) = Some (vs ! i)"
  proof -
    have "distinct ?al"
      using dist txs(2) by (simp add: alive_def)
    then have "distinct (map fst (zip ?al vs))"
      by (simp add: map_fst_zip_take)
    moreover have "(?al ! i, vs ! i) \<in> set (zip ?al vs)"
      using assms(3,4) by (auto simp: in_set_zip)
    ultimately show ?thesis
      by simp
  qed
  ultimately show ?thesis
    by (simp add: blpop_wake_def map_add_def)
qed

text \<open>One blocked client on channel 0 of database 0.\<close>

definition demo_blocked :: "unit world" where
  "demo_blocked = (Storage_new demo_env LRU)
     \<lparr>blocking_queues := (replicate DB_COUNT Map.empty)[0 := [''k'' \<mapsto> [0]]], next_channel := 1\<rparr>"

lemma demo_blocked_ok:
  "queues_ok demo_blocked" "queued demo_blocked 0 ''k'' = [0]" "alive demo_blocked [0] = [0]"
  "length (blocking_queues demo_blocked) = 16" "inbox demo_blocked = Map.empty" "dropped demo_blocked = {}"
proof -
  have q: "queued demo_blocked db k = (if (db, k) = (0, ''k'') then [0] else [])" if "db < 16" for db k
    using that by (auto simp: queued_def demo_blocked_def DB_COUNT_def nth_list_update)
  show len: "length (blocking_queues demo_blocked) = 16" "inbox demo_blocked = Map.empty" "dropped demo_blocked = {}"
    by (simp_all add: demo_blocked_def DB_COUNT_def Storage_new_def)
  show "queued demo_blocked 0 ''k'' = [0]"
    by (simp add: q)
  show "alive demo_blocked [0] = [0]"
    by (simp add: alive_def len)
  have wt: "waits demo_blocked ch db k \<longleftrightarrow> ch = 0 \<and> db = 0 \<and> k = ''k''" for ch db k
    by (auto simp: waits_def len q split: if_splits)
  show "queues_ok demo_blocked"
    by (rule queues_okI) (auto simp: wt len q, auto simp: demo_blocked_def)
qed

theorem lpush_serves_blocked_in_order_witness:
  "\<exists>w'. lpush_queue_phase CtxNormal (Some 0) ''k'' [''a'', ''b''] demo_blocked = Some (w', [''b'']) \<and>
     inbox w' 0 = Some ''a'' \<and> snd (blpop_wake demo_env CtxNormal ''k'' 0 w') = Inr (blpop_reply ''k'' ''a'')"
proof -
  have "(blocking_queues demo_blocked ! 0) ''k'' = Some [0]"
    by (simp add: demo_blocked_def DB_COUNT_def)
  then obtain w' pushes where run: "lpush_queue_phase CtxNormal (Some 0) ''k'' [''a'', ''b''] demo_blocked = Some (w', pushes)"
    by (cases "deliver [''a'', ''b''] [0] demo_blocked") (simp add: lpush_queue_phase_def demo_blocked_ok(4))
  have "0 < length (blocking_queues demo_blocked)" "0 < length [''a'', ''b'']"
    "0 < length (alive demo_blocked (queued demo_blocked 0 ''k''))"
    by (simp_all add: demo_blocked_ok)
  from lpush_serves_blocked_in_order [OF demo_blocked_ok(1) this run, of demo_env] run show ?thesis
    by (simp add: demo_blocked_ok)
qed

text \<open>Property C14: no blocked client is sent two values. In every interleaving of \<^verbatim>\<open>BLPOP\<close>s, the halves of
  \<^verbatim>\<open>LPUSH\<close>es and the ends of waits, a channel stands in at most one queue, only while it has not been
  sent a value, and a value once sent is never replaced.\<close>

theorem blocked_client_served_once:
  assumes "runs (bstep e) (bstart e ty) s" and "bstep e s s'"
  shows "inbox (bw s) \<subseteq>\<^sub>m inbox (bw s') \<and>
    (\<forall>ch db k db' k'. waits (bw s') ch db k \<and> waits (bw s') ch db' k' \<longrightarrow> (db', k') = (db, k)) \<and>
    (\<forall>ch db k. waits (bw s') ch db k \<longrightarrow> inbox (bw s') ch = None)"
proof -
  have "queues_ok (bw s)"
    using blocking_run.runs_keep [OF assms(1), of Map.empty] queues_ok_new [of e ty] by (simp add: bstart_def)
  then have "queues_ok (bw s')" "inbox (bw s) \<subseteq>\<^sub>m inbox (bw s')"
    using bstep_queues [OF assms(2)] by blast+
  then show ?thesis
    using queues_okD(4,5) by blast
qed

theorem blocked_client_served_once_witness:
  "\<exists>s s'. runs (bstep demo_env) (bstart demo_env LRU) s \<and> bstep demo_env s s' \<and>
     inbox (bw s) \<subseteq>\<^sub>m inbox (bw s') \<and> (\<forall>ch db k. waits (bw s') ch db k \<longrightarrow> inbox (bw s') ch = None)"
proof -
  let ?s = "bstart demo_env LRU"
  have "lpush_queue_phase CtxNormal (Some 0) ''k'' [''a''] (bw ?s) = Some (bw ?s, [''a''])"
    by (simp add: bstart_def lpush_queue_phase_def Storage_new_def DB_COUNT_def)
  then have step: "bstep demo_env ?s (?s\<lparr>bw := bw ?s, pending := pending ?s @ [(0, ''k'', [''a''], [''a''])]\<rparr>)"
    by (rule push_queue)
  show ?thesis
    using blocked_client_served_once [OF run_refl step] run_refl [of "bstep demo_env" ?s] step by blast
qed

text \<open>The first steps of the examples: a push to a store on which nobody waits.\<close>

lemma fresh_store:
  assumes "0 < num_shards e" "db < DB_COUNT"
  shows "world_ok e (Storage_new e ty)" "peek e db k (Storage_new e ty) = None" "(blocking_queues (Storage_new e ty) ! db) k = None"
    "inbox (Storage_new e ty) = Map.empty"
proof -
  show "world_ok e (Storage_new e ty)"
    by (rule world_ok_new [OF assms(1)])
  show "(blocking_queues (Storage_new e ty) ! db) k = None" "inbox (Storage_new e ty) = Map.empty"
    using assms(2) by (simp_all add: Storage_new_def)
  show "peek e db k (Storage_new e ty) = None"
    using assms by (simp add: peek_def get_shard_index_def Storage_new_def MemoryCache_new_def MemoryCacheNode_new_def)
qed

lemma fresh_push:
  assumes "db < DB_COUNT"
  shows "bstep e ((bstart e ty)\<lparr>pending := ps\<rparr>) ((bstart e ty)\<lparr>pending := ps @ [(db, k, vs, vs)]\<rparr>)"
proof -
  let ?s = "(bstart e ty)\<lparr>pending := ps\<rparr>"
  have "lpush_queue_phase CtxNormal (Some db) k vs (bw ?s) = Some (bw ?s, vs)"
    using assms by (simp add: bstart_def lpush_queue_phase_def Storage_new_def)
  from push_queue [OF this, of e] show ?thesis
    by (simp add: bstart_def)
qed

text \<open>The log entry of a push is sent after the lock of the shard is released: two pushes to a key can be logged in the other order than
  they were stored, and then the log computes another list than the one in the store.\<close>

lemma pushes_logged_out_of_order:
  assumes "0 < num_shards e" "db < DB_COUNT"
  shows "\<exists>s. runs (bstep e) (bstart e ty) s \<and> pending s = [] \<and> unlogged s = [] \<and>
    slot_rel e (peek e db k (bw s)) (Some (AList [b, a], None)) \<and>
    aof_sent (bw s) = [encode_lpush k [b], encode_lpush k [a]] \<and>
    fst (redis e (LPush k [a]) (fst (redis e (LPush k [b]) None))) = Some (AList [a, b], None)"
proof -
  let ?w = "Storage_new e ty" and ?a = "LPush k [a]" and ?b = "LPush k [b]" and ?p = "\<lambda>v. (db, k, [v], [v])"
  let ?R = "runs (bstep e) (bstart e ty)"
  note go = run_step [where step = "bstep e"] and new = fresh_store [OF assms]
  have "?R ((bstart e ty)\<lparr>pending := [?p a]\<rparr>)"
    using go [OF run_refl fresh_push [OF assms(2), where e = e and ty = ty and ps = "[]" and k = k and vs = "[a]"]] by (simp add: bstart_def)
  from go [OF this fresh_push [OF assms(2), where k = k and vs = "[b]"]]
  have s: "?R ((bstart e ty)\<lparr>pending := [?p a, ?p b]\<rparr>)"
    by simp
  have ra: "redis e ?a None = (Some (AList [a], None), Inr (Integer 1), [?a])"
    by (simp add: on_list_def)
  have rb: "redis e ?b (Some (AList [a], None)) = (Some (AList [b, a], None), Inr (Integer 2), [?b])"
    by (simp add: on_list_def)
  obtain w1 where w1: "with_lock e CtxNormal (Some db) ForWrite k (exec_lpush e k [a] [a]) ?w = Some (w1, Inr (Inr (Integer 1), [?a]))"
    "world_ok e w1" "same_rest ?w w1" "slot_rel e (peek e db k w1) (Some (AList [a], None))"
    using lpush_store_run [OF new(1) assms(2) _ _ _ ra, of CtxNormal ty "[a]"] new(2) [of k ty] by auto
  then have live: "pred_option (unexpired (rt_of e)) (peek e db k w1)"
    by (auto simp: ent_rel_def unexpired_def elim!: slot_relE)
  obtain w2 where w2: "with_lock e CtxNormal (Some db) ForWrite k (exec_lpush e k [b] [b]) w1 = Some (w2, Inr (Inr (Integer 2), [?b]))"
    "same_rest w1 w2" "slot_rel e (peek e db k w2) (Some (AList [b, a], None))"
    using lpush_store_run [OF w1(2) assms(2) _ live w1(4) rb, of CtxNormal "[b]"] by auto
  have "?R ((bstart e ty)\<lparr>bw := w1, pending := [?p b], unlogged := [?a]\<rparr>)"
    using go [OF s push_store [of "(bstart e ty)\<lparr>pending := [?p a, ?p b]\<rparr>" "[]" db k "[a]" "[a]" "[?p b]" e]] w1(1)
    by (simp add: bstart_def to_log_def)
  from go [OF this push_store [where xs = "[]" and ys = "[]" and db = db and k = k and pushes = "[b]" and vs = "[b]" and w' = w2]]
  have "?R ((bstart e ty)\<lparr>bw := w2, pending := [], unlogged := [?a, ?b]\<rparr>)"
    using w2(1) by (simp add: to_log_def)
  from go [OF this log_sent [where xs = "[?a]" and ys = "[]" and c = ?b]]
  have "?R ((bstart e ty)\<lparr>bw := send_aof e CtxNormal ?b w2, pending := [], unlogged := [?a]\<rparr>)"
    by (simp add: bstart_def)
  from go [OF this log_sent [where xs = "[]" and ys = "[]" and c = ?a]]
  have fin: "?R ((bstart e ty)\<lparr>bw := fold (send_aof e CtxNormal) [?b, ?a] w2, pending := [], unlogged := []\<rparr>)"
    by (simp add: bstart_def)
  note log = fold_send_aof [of w2 e CtxNormal "[?b, ?a]"]
  have "aof_sent w2 = []"
    using same_restD(5) [OF w1(3)] same_restD(5) [OF w2(2)] by (simp add: Storage_new_def)
  then show ?thesis
    using fin w2(3) log same_storeD(9) [OF conjunct1 [OF log], of e db k]
    by (intro exI [of _ "(bstart e ty)\<lparr>bw := fold (send_aof e CtxNormal) [?b, ?a] w2, pending := [], unlogged := []\<rparr>"])
      (simp add: log_bytes_def on_list_def)
qed

text \<open>A value can be lost: when a wait times out, the receiver is dropped a moment later, and a push in between still sends to it. The
  client answers null, the push counts the value as delivered, and it is neither in the store nor in the log.\<close>

lemma timed_out_client_swallows_value:
  assumes "0 < num_shards e" "db < DB_COUNT"
  shows "\<exists>s ch. runs (bstep e) (bstart e ty) s \<and> pending s = [] \<and> unlogged s = [] \<and> waiting s = Map.empty \<and> leaving s = {} \<and>
    inbox (bw s) ch = Some v \<and> peek e db k (bw s) = None \<and> aof_sent (bw s) = []"
proof -
  let ?w = "Storage_new e ty" and ?R = "runs (bstep e) (bstart e ty)"
  let ?ch = "next_channel ?w"
  note go = run_step [where step = "bstep e"] and new = fresh_store [OF assms]
  obtain w1 where w1: "blpop_locked e CtxNormal (Some db) k ?w = Some (w1, Blocked ?ch, [])" "world_ok e w1"
    "peek e db k w1 = None" "(blocking_queues w1 ! db) k = Some [?ch]" "inbox w1 = Map.empty" "dropped w1 = dropped ?w" "aof_sent w1 = aof_sent ?w"
    using blpop_registers [OF new(1) assms(2) new(2,3), of k ty] new(2) [of k ty] new(4) [of ty] by auto
  have "?R ((bstart e ty)\<lparr>bw := w1, waiting := [?ch \<mapsto> (db, k)]\<rparr>)"
    using go [OF run_refl blpop_blocks [of e db k "bstart e ty"]] w1(1) by (simp add: bstart_def)
  from go [OF this time_out [where ch = ?ch and db = db and k = k]]
  have s: "?R ((bstart e ty)\<lparr>bw := w1, leaving := {?ch}\<rparr>)"
    using w1(5) by (simp add: bstart_def)
  let ?w2 = "w1\<lparr>inbox := (inbox w1)(?ch \<mapsto> v), blocking_queues := (blocking_queues w1)[db := (blocking_queues w1 ! db)(k := None)]\<rparr>"
  have "lpush_queue_phase CtxNormal (Some db) k [v] w1 = Some (?w2, [])"
    using w1(2,4,6) assms(2) by (simp add: lpush_queue_phase_def world_ok_def Storage_new_def)
  with go [OF s push_queue [where db = db and k = k and vs = "[v]" and pushes = "[]" and w' = ?w2]]
  have s2: "?R ((bstart e ty)\<lparr>bw := ?w2, leaving := {?ch}, pending := [(db, k, [], [v])]\<rparr>)"
    by (simp add: bstart_def)
  have w2: "world_ok e ?w2" "peek e db k ?w2 = None"
    using w1(2,3) peek_store [of ?w2 w1 e db k] by (simp_all add: world_ok_def)
  have "redis e (LPush k []) None = (None, Inr (Integer 0), [])"
    by simp
  then obtain w3 where w3: "with_lock e CtxNormal (Some db) ForWrite k (exec_lpush e k [] [v]) ?w2 = Some (w3, Inr (Inr (Integer 0), []))"
    "same_rest ?w2 w3" "peek e db k w3 = None"
    using lpush_store_run [OF w2(1) assms(2), of CtxNormal k None "[]" None "Inr (Integer 0)" "[]" "[v]"] w2(2) by auto
  from go [OF s2 push_store [where xs = "[]" and ys = "[]" and db = db and k = k and pushes = "[]" and vs = "[v]" and w' = w3]]
  have "?R ((bstart e ty)\<lparr>bw := w3, leaving := {?ch}\<rparr>)"
    using w3(1) by (simp add: bstart_def to_log_def)
  from go [OF this leave [where ch = ?ch]]
  have fin: "?R ((bstart e ty)\<lparr>bw := w3\<lparr>dropped := insert ?ch (dropped w3)\<rparr>\<rparr>)"
    by (simp add: bstart_def)
  note rest = same_restD [OF w3(2)]
  have "peek e db k (w3\<lparr>dropped := insert ?ch (dropped w3)\<rparr>) = None"
    using w3(3) peek_store [of "w3\<lparr>dropped := insert ?ch (dropped w3)\<rparr>" w3 e db k] by simp
  then show ?thesis
    using fin rest w1(7) by (intro exI [of _ "(bstart e ty)\<lparr>bw := w3\<lparr>dropped := insert ?ch (dropped w3)\<rparr>\<rparr>"] exI [of _ ?ch])
      (simp add: bstart_def Storage_new_def)
qed

text \<open>Property C36: a wake-up can be lost. There is an interleaving in which an \<^verbatim>\<open>LPUSH\<close> looks for blocked
  clients, a \<^verbatim>\<open>BLPOP\<close> finds the key absent and blocks, and the \<^verbatim>\<open>LPUSH\<close> then stores its values: no
  operation is left to run, the list holds the values, and the client still waits with nothing
  sent to it.\<close>

theorem lpush_blpop_lost_wakeup:
  assumes "0 < num_shards e" and "db < DB_COUNT" and "vs \<noteq> []"
  shows "\<exists>s ch. runs (bstep e) (bstart e ty) s \<and> pending s = [] \<and> unlogged s = [] \<and> waiting s ch = Some (db, k) \<and>
    waits (bw s) ch db k \<and> inbox (bw s) ch = None \<and>
    slot_rel e (peek e db k (bw s)) (Some (AList (rev vs), None))"
proof -
  let ?w = "Storage_new e ty"
  let ?s1 = "(bstart e ty)\<lparr>pending := [(db, k, vs, vs)]\<rparr>"
  note go = run_step [where step = "bstep e"]
  have s1: "runs (bstep e) (bstart e ty) ?s1"
    using go [OF run_refl fresh_push [OF assms(2), where e = e and ty = ty and ps = "[]" and k = k and vs = vs]] by (simp add: bstart_def)
  note new = fresh_store [OF assms(1,2)]
  obtain w1 where w1: "blpop_locked e CtxNormal (Some db) k ?w = Some (w1, Blocked (next_channel ?w), [])" "world_ok e w1"
    "peek e db k w1 = None" "(blocking_queues w1 ! db) k = Some [next_channel ?w]" "inbox w1 = Map.empty"
    using blpop_registers [OF new(1) assms(2) new(2,3), of k ty] new(2) [of k ty] new(4) [of ty] by auto
  let ?s2 = "?s1\<lparr>bw := w1, waiting := [next_channel ?w \<mapsto> (db, k)]\<rparr>"
  have s2: "runs (bstep e) (bstart e ty) ?s2"
    using go [OF s1 blpop_blocks [of e db k ?s1]] w1(1) by (simp add: bstart_def)
  have rd: "redis e (LPush k vs) None = (Some (AList (rev vs), None), Inr (Integer (int (length vs))), [LPush k vs])"
    using assms(3) by (simp add: on_list_def)
  obtain w2 where w2: "with_lock e CtxNormal (Some db) ForWrite k (exec_lpush e k vs vs) w1 =
      Some (w2, Inr (Inr (Integer (int (length vs))), [LPush k vs]))"
    "same_rest w1 w2" "slot_rel e (peek e db k w2) (Some (AList (rev vs), None))"
    using lpush_store_run [OF w1(2) assms(2) _ _ _ rd, of CtxNormal vs] w1(3) by auto
  let ?w3 = "send_aof e CtxNormal (LPush k vs) w2"
  have "runs (bstep e) (bstart e ty) (?s2\<lparr>bw := w2, pending := [], unlogged := [LPush k vs]\<rparr>)"
    using go [OF s2 push_store [of ?s2 "[]" db k vs vs "[]" e]] w2(1) by (simp add: bstart_def to_log_def)
  from go [OF this log_sent [where xs = "[]" and ys = "[]" and c = "LPush k vs"]]
  have s3: "runs (bstep e) (bstart e ty) (?s2\<lparr>bw := ?w3, pending := [], unlogged := []\<rparr>)"
    by (simp add: bstart_def)
  note st = same_restD [OF w2(2)] same_storeD [OF conjunct1 [OF send_aof_effect [of w2 e CtxNormal "LPush k vs"]]]
  have "waits ?w3 (next_channel ?w) db k"
    using w1(2,4) st assms(2) by (simp add: waits_def queued_def world_ok_def)
  then show ?thesis
    using s3 w2(3) w1(5) st by (intro exI [of _ "?s2\<lparr>bw := ?w3, pending := [], unlogged := []\<rparr>"] exI [of _ "next_channel ?w"]) simp
qed

theorem lpush_blpop_lost_wakeup_witness:
  "\<exists>s ch. runs (bstep demo_env) (bstart demo_env LRU) s \<and> pending s = [] \<and> unlogged s = [] \<and> waiting s ch = Some (0, ''k'') \<and>
     inbox (bw s) ch = None \<and> slot_rel demo_env (peek demo_env 0 ''k'' (bw s)) (Some (AList [''a''], None))"
  using lpush_blpop_lost_wakeup [of demo_env 0 "[''a'']" LRU "''k''"] by (auto simp: DB_COUNT_def)

text \<open>Property C37: the log diverges from the store when a blocked client is served. A client blocks on an
  absent key, a first \<^verbatim>\<open>LPUSH\<close> of \<open>a\<close> is handed to it, a second \<^verbatim>\<open>LPUSH\<close> of \<open>b\<close> is stored, and the
  client wakes up: the store holds \<open>b\<close>, but the log holds the push of \<open>b\<close> followed by a pop, and
  these two commands leave the key absent.\<close>

theorem blocked_delivery_log_diverges:
  assumes "world_ok e w" and "db < DB_COUNT" and "peek e db k w = None" and "(blocking_queues w ! db) k = None"
    and "next_channel w \<notin> dropped w"
  shows "\<exists>ch w1 w2 r2 w3 r3 w4.
    exec_blpop_cmd e CtxNormal (Some db) k w = Some (w1, Blocked ch) \<and>
    exec_lpush_cmd e CtxNormal (Some db) k [a] w1 = Some (w2, r2) \<and>
    exec_lpush_cmd e CtxNormal (Some db) k [b] w2 = Some (w3, r3) \<and>
    blpop_wake e CtxNormal k ch w3 = (w4, Inr (blpop_reply k a)) \<and>
    slot_rel e (peek e db k w4) (Some (AList [b], None)) \<and>
    aof_sent w4 = aof_sent w @ [encode_lpush k [b], encode_lpop k] \<and>
    fst (redis e (LPop k) (fst (redis e (LPush k [b]) None))) = None"
proof -
  let ?ch = "next_channel w"
  obtain w1 where w1: "exec_blpop_cmd e CtxNormal (Some db) k w = Some (w1, Blocked ?ch)" "world_ok e w1"
    "peek e db k w1 = None" "(blocking_queues w1 ! db) k = Some [?ch]" "dropped w1 = dropped w" "aof_sent w1 = aof_sent w"
    using blpop_registers [OF assms(1-4)] assms(3) by (auto simp: exec_blpop_cmd_def)
  have db: "db < length (blocking_queues w1)"
    using w1(2) assms(2) by (simp add: world_ok_def)
  let ?v1 = "w1\<lparr>inbox := (inbox w1)(?ch \<mapsto> a),
      blocking_queues := (blocking_queues w1)[db := (blocking_queues w1 ! db)(k := None)]\<rparr>"
  have q1: "lpush_queue_phase CtxNormal (Some db) k [a] w1 = Some (?v1, [])"
    using db w1(4,5) assms(5) by (simp add: lpush_queue_phase_def)
  have v1: "world_ok e ?v1" "peek e db k ?v1 = None" "(blocking_queues ?v1 ! db) k = None"
    using w1(2,3) db peek_store [of ?v1 w1 e db k] by (simp_all add: world_ok_def)
  have rd1: "redis e (LPush k []) None = (None, Inr (Integer 0), [])"
    by simp
  obtain w2 where w2: "lpush_store_phase e CtxNormal (Some db) k [] [a] ?v1 = Some (w2, Done (Inr (Integer 0)))"
    "world_ok e w2" "peek e db k w2 = None" "aof_sent w2 = aof_sent w1" "blocking_queues w2 = blocking_queues ?v1"
    "inbox w2 = inbox ?v1"
    using lpush_store_effect [OF v1(1) assms(2) _ _ _ rd1, of CtxNormal "[a]"] v1(2) by (auto simp: effect_def log_bytes_def)
  have q2: "lpush_queue_phase CtxNormal (Some db) k [b] w2 = Some (w2, [b])"
    using w2(5) v1(3) db by (simp add: lpush_queue_phase_def)
  have rd2: "redis e (LPush k [b]) None = (Some (AList [b], None), Inr (Integer 1), [LPush k [b]])"
    by (simp add: on_list_def)
  obtain w3 where w3: "lpush_store_phase e CtxNormal (Some db) k [b] [b] w2 = Some (w3, Done (Inr (Integer 1)))"
    "slot_rel e (peek e db k w3) (Some (AList [b], None))" "aof_sent w3 = aof_sent w2 @ [encode_lpush k [b]]"
    "inbox w3 = inbox w2"
    using lpush_store_effect [OF w2(2) assms(2) _ _ _ rd2, of CtxNormal "[b]"] w2(3) by (auto simp: effect_def log_bytes_def)
  let ?w4 = "send_aof e CtxNormal (LPop k) w3"
  have w4: "blpop_wake e CtxNormal k ?ch w3 = (?w4, Inr (blpop_reply k a))"
    using w3(4) w2(6) by (simp add: blpop_wake_def)
  have "aof_sent ?w4 = aof_sent w3 @ [encode_lpop k]" "peek e db k ?w4 = peek e db k w3"
    using send_aof_effect [of w3 e CtxNormal "LPop k"] same_storeD(9) [of w3 ?w4 e db k] by (simp_all add: log_bytes_def)
  moreover have "fst (redis e (LPop k) (fst (redis e (LPush k [b]) None))) = None"
    unfolding rd2 by (simp add: on_list_def)
  ultimately show ?thesis
    using w1 q1 w2 q2 w3 w4
    by (intro exI [of _ ?ch] exI [of _ w1] exI [of _ w2] exI [of _ "Done (Inr (Integer 0))"] exI [of _ w3]
        exI [of _ "Done (Inr (Integer 1))"] exI [of _ ?w4]) (simp add: exec_lpush_cmd_def del: redis.simps)
qed

theorem blocked_delivery_log_diverges_witness:
  "\<exists>ch w1 w2 r2 w3 r3 w4.
     exec_blpop_cmd demo_env CtxNormal (Some 0) ''k'' (Storage_new demo_env LRU) = Some (w1, Blocked ch) \<and>
     exec_lpush_cmd demo_env CtxNormal (Some 0) ''k'' [''a''] w1 = Some (w2, r2) \<and>
     exec_lpush_cmd demo_env CtxNormal (Some 0) ''k'' [''b''] w2 = Some (w3, r3) \<and>
     blpop_wake demo_env CtxNormal ''k'' ch w3 = (w4, Inr (blpop_reply ''k'' ''a'')) \<and>
     slot_rel demo_env (peek demo_env 0 ''k'' w4) (Some (AList [''b''], None)) \<and>
     aof_sent w4 = [encode_lpush ''k'' [''b''], encode_lpop ''k'']"
proof -
  let ?w = "Storage_new demo_env LRU"
  have "next_channel ?w \<notin> dropped ?w" "aof_sent ?w = []" "0 < num_shards demo_env" "0 < DB_COUNT"
    by (simp_all add: Storage_new_def DB_COUNT_def)
  then show ?thesis
    using blocked_delivery_log_diverges [OF demo_world_ok, of 0 "''k''" "''a''" "''b''"] fresh_store [of demo_env 0]
    by (simp del: redis.simps) blast
qed

end
