(* ===== verification/Server.thy ===== *)
theory Server
  imports Storage
begin

text \<open>
  A client connection, \<^verbatim>\<open>src/src/server.rs\<close>: the buffer of received bytes, the pipeline that executes
  every complete command in it, the replies, and the hand-over of a replica's socket.

  \<open>pipeline\<close> is the loop of \<^verbatim>\<open>explain_execute_command\<close>; a command that blocks suspends it with the replies so
  far. \<open>on_data\<close> is what \<^verbatim>\<open>handle_connection\<close> does with the buffer after a read: what it writes to the
  socket and the buffer it keeps; \<open>handle_connection\<close> is its loop over the events of a connection. \<open>show_err\<close> is the text of an error. \<open>None\<close> is a panic.
\<close>

datatype pipe_end =
    Replies "bytes list" nat
  | Failed KvError
  | Suspended nat "bytes list" nat

function pipeline ::
  "resp_env \<Rightarrow> 'j env \<Rightarrow> 'j engine \<Rightarrow> nat option \<Rightarrow> bytes \<Rightarrow> bytes list \<Rightarrow> nat \<Rightarrow> 'j world \<Rightarrow> ('j world \<times> pipe_end) option" where
  "pipeline R e ev conn vec vec_result total_size w =
     (case parse_frame R vec of
        ParsedFrame fr n \<Rightarrow>
          (case try_from (ext_of e) fr of
             Inr command \<Rightarrow>
               (case execute_command_normal e ev conn command w of
                  None \<Rightarrow> None
                | Some (w1, Done (Inl er)) \<Rightarrow> Some (w1, Failed er)
                | Some (w1, Done (Inr reply)) \<Rightarrow>
                    pipeline R e ev conn (drop n vec) (vec_result @ [serialize reply]) (total_size + n) w1
                | Some (w1, Blocked ch) \<Rightarrow> Some (w1, Suspended ch vec_result (total_size + n)))
           | Inl er \<Rightarrow> if er = Panicked then None else Some (w, Failed er))
      | NeedMore \<Rightarrow> Some (w, Replies vec_result total_size)
      | ParseError er \<Rightarrow> Some (w, Failed er)
      | ParsePanic \<Rightarrow> None
      | ParseFuel \<Rightarrow> None)"
  by pat_completeness auto

termination pipeline
  by (relation "measure (\<lambda>(R, e, ev, conn, vec, rs, n, w). length vec)") (auto dest!: parse_frame_consumed)

declare pipeline.simps [simp del]

text \<open>The search for the substring in the decoded text: decoding replaces invalid sequences only, so an
  ASCII word is found where its bytes are.\<close>

fun has_prefix :: "bytes \<Rightarrow> bytes \<Rightarrow> bool" where
  "has_prefix [] s = True"
| "has_prefix (p # ps) (c # s) = (p = c \<and> has_prefix ps s)"
| "has_prefix (p # ps) [] = False"

fun contains :: "bytes \<Rightarrow> bytes \<Rightarrow> bool" where
  "contains p [] = has_prefix p []"
| "contains p (c # s) = (has_prefix p (c # s) \<or> contains p s)"

definition is_psync_request :: "bytes \<Rightarrow> bool" where
  "is_psync_request buf \<longleftrightarrow> contains ''PSYNC'' buf \<or> contains ''psync'' buf"

datatype reaction =
    Wrote bytes bytes
  | HandOver
  | Awaits nat "bytes list" bytes

definition on_data ::
  "resp_env \<Rightarrow> (KvError \<Rightarrow> string) \<Rightarrow> 'j env \<Rightarrow> 'j engine \<Rightarrow> nat option \<Rightarrow> bytes \<Rightarrow> 'j world \<Rightarrow> ('j world \<times> reaction) option" where
  "on_data R show_err e ev conn buf w =
     (if is_psync_request buf then Some (w, HandOver)
      else
        case pipeline R e ev conn buf [] 0 w of
          None \<Rightarrow> None
        | Some (w1, Replies result n) \<Rightarrow> Some (w1, Wrote (concat result) (drop n buf))
        | Some (w1, Failed er) \<Rightarrow> Some (w1, Wrote (serialize (Error (show_err er))) [])
        | Some (w1, Suspended ch result n) \<Rightarrow> Some (w1, Awaits ch result (drop n buf)))"

text \<open>The loop of \<^verbatim>\<open>handle_connection\<close> on the events its \<^verbatim>\<open>select!\<close> reports. Each read comes with the
  surroundings at that moment (the clock among them). A command that blocks holds the loop: what follows waits
  for it. The result has what was written to the socket and how the connection stands.\<close>

datatype 'j ConnectionEvent =
    GotData "'j env" bytes
  | Shutdown
  | ClientClosed

datatype conn_end =
    Running bytes
  | Ended
  | ReplicaLink
  | Waiting nat "bytes list" bytes

fun handle_connection ::
  "resp_env \<Rightarrow> (KvError \<Rightarrow> string) \<Rightarrow> 'j engine \<Rightarrow> nat option \<Rightarrow> 'j ConnectionEvent list \<Rightarrow> bytes \<Rightarrow> bytes \<Rightarrow> 'j world \<Rightarrow>
   ('j world \<times> bytes \<times> conn_end) option" where
  "handle_connection R show_err ev conn [] buf out w = Some (w, out, Running buf)"
| "handle_connection R show_err ev conn (GotData e chunk # events) buf out w =
     (case on_data R show_err e ev conn (buf @ chunk) w of
        None \<Rightarrow> None
      | Some (w1, Wrote bs buf1) \<Rightarrow> handle_connection R show_err ev conn events buf1 (out @ bs) w1
      | Some (w1, HandOver) \<Rightarrow> Some (w1, out, ReplicaLink)
      | Some (w1, Awaits ch result buf1) \<Rightarrow> Some (w1, out, Waiting ch result buf1))"
| "handle_connection R show_err ev conn (Shutdown # events) buf out w = Some (w, out, Ended)"
| "handle_connection R show_err ev conn (ClientClosed # events) buf out w = Some (w, out, Ended)"

text \<open>The reference: the commands executed one after the other, each answered.\<close>

fun serve :: "'j env \<Rightarrow> 'j engine \<Rightarrow> nat option \<Rightarrow> Command list \<Rightarrow> 'j world \<Rightarrow> ('j world \<times> Frame list) option" where
  "serve e ev conn [] w = Some (w, [])"
| "serve e ev conn (c # cs) w =
     (case execute_command_normal e ev conn c w of
        Some (w1, Done (Inr reply)) \<Rightarrow> map_option (\<lambda>(w2, rs). (w2, reply # rs)) (serve e ev conn cs w1)
      | _ \<Rightarrow> None)"

text \<open>\<^verbatim>\<open>write_all_vectored\<close>: the socket takes \<open>k\<close> bytes of what is offered, \<open>advance_slices\<close> drops them.
  A call that takes nothing is an error. The socket is the list of the amounts it takes.\<close>

fun advance_slices :: "nat \<Rightarrow> bytes list \<Rightarrow> bytes list" where
  "advance_slices n [] = []"
| "advance_slices n (b # bs) =
     (if length b \<le> n then advance_slices (n - length b) bs else drop n b # bs)"

fun write_all_vectored :: "nat list \<Rightarrow> bytes list \<Rightarrow> bytes \<Rightarrow> (KvError, bytes) res option" where
  "write_all_vectored takes [] out = Some (Inr out)"
| "write_all_vectored [] (s # slices) out = None"
| "write_all_vectored (k # takes) (s # slices) out =
     (let written = min k (length (concat (s # slices)))
      in if written = 0 then Some (Inl Io)
         else write_all_vectored takes (advance_slices written (s # slices)) (out @ take written (concat (s # slices))))"

section \<open>Replies on the socket\<close>

lemma concat_advance_slices: "n \<le> length (concat bs) \<Longrightarrow> concat (advance_slices n bs) = drop n (concat bs)"
  by (induction n bs rule: advance_slices.induct) auto

lemma write_all_vectored_out:
  "write_all_vectored takes slices out = Some (Inr r) \<Longrightarrow> r = out @ concat slices"
proof (induction takes slices out rule: write_all_vectored.induct)
  case (3 k takes s slices out)
  let ?k = "min k (length (concat (s # slices)))"
  have k: "?k \<noteq> 0"
    using "3.prems" by (auto simp: Let_def split: if_splits)
  then have "r = (out @ take ?k (concat (s # slices))) @ concat (advance_slices ?k (s # slices))"
    using "3.IH" [OF refl] "3.prems" by (simp only: write_all_vectored.simps Let_def if_False not_False_eq_True simp_thms)
  then show ?case
    using concat_advance_slices [of ?k "s # slices"] by (simp del: advance_slices.simps concat.simps)
qed auto

section \<open>The pipeline\<close>

definition after :: "bytes list \<Rightarrow> nat \<Rightarrow> pipe_end \<Rightarrow> pipe_end" where
  "after rs n p =
     (case p of
        Replies rs' n' \<Rightarrow> Replies (rs @ rs') (n + n')
      | Failed er \<Rightarrow> Failed er
      | Suspended ch rs' n' \<Rightarrow> Suspended ch (rs @ rs') (n + n'))"

lemma after_simps [simp]:
  "after rs n (Replies rs' n') = Replies (rs @ rs') (n + n')" "after rs n (Failed er) = Failed er"
  "after rs n (Suspended ch rs' n') = Suspended ch (rs @ rs') (n + n')"
  "after rs n (after rs' n' p) = after (rs @ rs') (n + n') p"
  by (simp_all add: after_def split: pipe_end.splits)

text \<open>The accumulators.\<close>

lemma pipeline_acc:
  "pipeline R e ev conn vec rs n w = map_option (\<lambda>(w', p). (w', after rs n p)) (pipeline R e ev conn vec [] 0 w)"
proof (induction "length vec" arbitrary: vec rs n w rule: less_induct)
  case less
  show ?case
  proof (cases "parse_frame R vec")
    case (ParsedFrame fr k)
    have short: "length (drop k vec) < length vec"
      using parse_frame_consumed [OF ParsedFrame] by (cases vec) auto
    have acc: "pipeline R e ev conn (drop k vec) (rs @ [x]) (n + k) w1 =
        map_option (\<lambda>(w', p). (w', after rs n p)) (pipeline R e ev conn (drop k vec) [x] k w1)" for x w1
      using less [OF short, of "rs @ [x]" "n + k" w1] less [OF short, of "[x]" k w1]
      by (simp add: option.map_comp comp_def case_prod_unfold)
    show ?thesis
      unfolding pipeline.simps [of R e ev conn vec]
      by (auto simp: ParsedFrame acc split: sum.splits option.splits exec_result.splits)
  qed (simp_all add: pipeline.simps [of R e ev conn vec])
qed

lemma pipeline_progress:
  "pipeline R e ev conn vec rs m w = Some (w', Replies rs' n) \<Longrightarrow> m \<le> n \<and> n - m \<le> length vec"
proof (induction "length vec" arbitrary: vec rs m w rule: less_induct)
  case less
  show ?case
  proof (cases "parse_frame R vec")
    case (ParsedFrame fr k)
    then have k: "0 < k" "k \<le> length vec"
      using parse_frame_consumed [OF ParsedFrame] by simp_all
    obtain x w1 where "pipeline R e ev conn (drop k vec) (rs @ [x]) (m + k) w1 = Some (w', Replies rs' n)"
      using less.prems unfolding pipeline.simps [of R e ev conn vec]
      by (auto simp: ParsedFrame split: sum.splits option.splits exec_result.splits if_splits)
    from less.hyps [OF _ this] k have "m + k \<le> n \<and> n - (m + k) \<le> length vec - k"
      by (cases vec) auto
    then show ?thesis
      using k by linarith
  qed (use less.prems in \<open>simp_all add: pipeline.simps [of R e ev conn vec]\<close>)
qed

text \<open>More bytes do not change what was done for the bytes before.\<close>

lemma pipeline_extend:
  assumes R: "finder_ok R"
  shows "pipeline R e ev conn vec rs m w = Some (w1, Replies rs1 n) \<Longrightarrow>
    pipeline R e ev conn (vec @ later) rs m w = pipeline R e ev conn (drop (n - m) vec @ later) rs1 n w1"
proof (induction "length vec" arbitrary: vec rs m w rule: less_induct)
  case less
  show ?case
  proof (cases "parse_frame R vec")
    case (ParsedFrame fr k)
    then have k: "0 < k" "k \<le> length vec"
      using parse_frame_consumed [OF ParsedFrame] by simp_all
    obtain c w2 reply where step: "try_from (ext_of e) fr = Inr c" "execute_command_normal e ev conn c w = Some (w2, Done (Inr reply))"
      "pipeline R e ev conn (drop k vec) (rs @ [serialize reply]) (m + k) w2 = Some (w1, Replies rs1 n)"
      using less.prems unfolding pipeline.simps [of R e ev conn vec]
      by (auto simp: ParsedFrame split: sum.splits option.splits exec_result.splits if_splits)
    have "m + k \<le> n"
      using pipeline_progress [OF step(3)] by simp
    then have "drop (n - (m + k)) (drop k vec) = drop (n - m) vec"
      using k by (simp add: algebra_simps)
    then have "pipeline R e ev conn (drop k vec @ later) (rs @ [serialize reply]) (m + k) w2 =
        pipeline R e ev conn (drop (n - m) vec @ later) rs1 n w1"
      using less.hyps [OF _ step(3)] k by simp
    then show ?thesis
      using step(1,2) parse_frame_extend [OF R ParsedFrame, of later] k(2)
      by (subst pipeline.simps) simp
  qed (use less.prems in \<open>simp_all add: pipeline.simps [of R e ev conn vec]\<close>)
qed

section \<open>A stream of commands in any chunks\<close>

lemma serve_append:
  "serve e ev conn (cs @ ds) w =
     (case serve e ev conn cs w of
        None \<Rightarrow> None
      | Some (w1, rs) \<Rightarrow> map_option (\<lambda>(w2, rs'). (w2, rs @ rs')) (serve e ev conn ds w1))"
  by (induction cs arbitrary: w) (auto simp: option.map_comp option.map_ident comp_def case_prod_unfold split: option.splits sum.splits exec_result.splits)

text \<open>The pipeline on the first part of a stream of commands: it serves the commands that are complete.\<close>

lemma pipeline_split:
  assumes "finder_ok R"
  shows "log_of R (ext_of e) fs cs \<Longrightarrow> serve e ev conn cs w = Some (w', rs) \<Longrightarrow> p @ q = wire fs \<Longrightarrow>
    \<exists>i w1 rs1. pipeline R e ev conn p [] 0 w = Some (w1, Replies (map serialize rs1) (length (wire (take i fs)))) \<and>
      serve e ev conn (take i cs) w = Some (w1, rs1) \<and> length (wire (take i fs)) \<le> length p \<and> (q = [] \<longrightarrow> length fs \<le> i)"
proof (induction fs arbitrary: cs w rs p)
  case Nil
  then show ?case
    by (auto simp: pipeline.simps parse_frame_def intro!: exI [of _ 0])
next
  case (Cons f fs)
  from Cons.prems(1) obtain c cs' where cs: "cs = c # cs'" "request_frame R f" "try_from (ext_of e) f = Inr c" "log_of R (ext_of e) fs cs'"
    by auto
  from Cons.prems(2) cs(1) obtain w2 reply rs' where step: "execute_command_normal e ev conn c w = Some (w2, Done (Inr reply))"
    "serve e ev conn cs' w2 = Some (w', rs')"
    by (auto split: option.splits sum.splits exec_result.splits)
  show ?case
  proof (cases "length p < length (serialize f)")
    case True
    then have "p = take (length p) (serialize f)" "q \<noteq> []"
      using arg_cong [OF Cons.prems(3), of "take (length p)"] arg_cong [OF Cons.prems(3), of length] by auto
    then have "parse_frame R p = NeedMore"
      using parse_frame_torn [OF assms cs(2) True] by simp
    then show ?thesis
      using \<open>q \<noteq> []\<close> by (intro exI [of _ 0]) (simp add: pipeline.simps)
  next
    case False
    let ?p = "drop (length (serialize f)) p"
    have "take (length (serialize f)) p = serialize f" "?p @ q = wire fs"
      using False arg_cong [OF Cons.prems(3), of "take (length (serialize f))"] arg_cong [OF Cons.prems(3), of "drop (length (serialize f))"]
      by simp_all
    then obtain p' where p: "p = serialize f @ p'" "p' @ q = wire fs"
      by (metis append_take_drop_id)
    from Cons.IH [OF cs(4) step(2) p(2)] obtain i w1 rs1 where IH:
      "pipeline R e ev conn p' [] 0 w2 = Some (w1, Replies (map serialize rs1) (length (wire (take i fs))))"
      "serve e ev conn (take i cs') w2 = Some (w1, rs1)" "length (wire (take i fs)) \<le> length p'" "q = [] \<longrightarrow> length fs \<le> i"
      by blast
    have "pipeline R e ev conn p [] 0 w = pipeline R e ev conn p' [serialize reply] (length (serialize f)) w2"
      using p(1) cs(3) step(1) parse_frame_serialize [OF assms cs(2), of p'] by (subst pipeline.simps) simp
    then show ?thesis
      using IH p(1) cs(1) step(1) pipeline_acc [of R e ev conn p' "[serialize reply]"]
      by (intro exI [of _ "Suc i"] exI [of _ w1] exI [of _ "reply # rs1"]) simp
  qed
qed

lemma contains_infix: "contains p s \<Longrightarrow> contains p (a @ s @ b)"
proof -
  have prefix: "has_prefix p s \<Longrightarrow> has_prefix p (s @ b)" for s
    by (induction p s rule: has_prefix.induct) auto
  have right: "contains p s \<Longrightarrow> contains p (s @ b)" for s
  proof (induction s)
    case Nil
    then show ?case
      by (cases p; cases b) auto
  next
    case (Cons c s)
    then show ?case
      using prefix [of "c # s"] by auto
  qed
  have left: "contains p s \<Longrightarrow> contains p (a @ s)" for s
    by (induction a) auto
  show "contains p s \<Longrightarrow> contains p (a @ s @ b)"
    using left right by blast
qed

lemma connection_chunks:
  assumes R: "finder_ok R"
  shows "log_of R (ext_of e) fs cs \<Longrightarrow> serve e ev conn cs w = Some (w', rs) \<Longrightarrow> buf @ concat chunks = wire fs \<Longrightarrow>
    \<not> is_psync_request (wire fs) \<Longrightarrow> (chunks = [] \<Longrightarrow> fs = []) \<Longrightarrow>
    handle_connection R show_err ev conn (map (GotData e) chunks) buf out w = Some (w', out @ concat (map serialize rs), Running [])"
proof (induction chunks arbitrary: fs cs w rs buf out)
  case Nil
  then show ?case
    by simp
next
  case (Cons chunk chunks)
  let ?p = "buf @ chunk" and ?q = "concat chunks"
  have pq: "?p @ ?q = wire fs"
    using Cons.prems(3) by simp
  from pipeline_split [OF R Cons.prems(1,2) pq] obtain i w1 rs1 where i:
    "pipeline R e ev conn ?p [] 0 w = Some (w1, Replies (map serialize rs1) (length (wire (take i fs))))"
    "serve e ev conn (take i cs) w = Some (w1, rs1)" "length (wire (take i fs)) \<le> length ?p" "?q = [] \<longrightarrow> length fs \<le> i"
    by blast
  let ?n = "length (wire (take i fs))"
  have cut: "wire fs = wire (take i fs) @ wire (drop i fs)"
    by (metis append_take_drop_id concat_append map_append)
  have rest: "drop ?n ?p @ ?q = wire (drop i fs)"
    using arg_cong [OF pq, of "drop ?n"] cut i(3) by simp
  obtain rs2 where rs2: "serve e ev conn (drop i cs) w1 = Some (w', rs2)" "rs = rs1 @ rs2"
    using Cons.prems(2) i(2) serve_append [of e ev conn "take i cs" "drop i cs" w]
    by (cases "serve e ev conn (drop i cs) w1") auto
  have quiet: "\<not> is_psync_request ?p" "\<not> is_psync_request (wire (drop i fs))"
    using Cons.prems(4) contains_infix [of _ ?p "[]" ?q] contains_infix [of _ "wire (drop i fs)" "wire (take i fs)" "[]"] pq cut
    by (auto simp: is_psync_request_def)
  have "log_of R (ext_of e) (drop i fs) (drop i cs)"
    using Cons.prems(1) by (simp add: log_of_def list_all2_dropI)
  from Cons.IH [OF this rs2(1) rest quiet(2)] i(4) have
    "handle_connection R show_err ev conn (map (GotData e) chunks) (drop ?n ?p) (out @ concat (map serialize rs1)) w1 =
       Some (w', out @ concat (map serialize rs1) @ concat (map serialize rs2), Running [])"
    by simp
  then show ?case
    using i(1) quiet(1) rs2(2) by (simp add: on_data_def)
qed

section \<open>Properties\<close>

text \<open>Property C9: a connection is a sequential interpreter of the commands sent on it. When the bytes a client
  sends are the encodings of commands which, executed one after the other, are all answered, then
  however the network cuts these bytes into reads, the connection executes exactly these commands in this order,
  writes exactly their replies in this order, and is left with an empty buffer, waiting for more. (The word
  that marks a replica's handshake must not occur in the stream.)\<close>

theorem connection_serves_in_order:
  assumes "finder_ok R" and "list_all2 (\<lambda>f c. request_frame R f \<and> try_from (ext_of e) f = Inr c) fs cs"
    and "serve e ev conn cs w = Some (w', replies)"
    and "concat chunks = concat (map serialize fs)" and "\<not> is_psync_request (concat chunks)"
  shows "handle_connection R show_err ev conn (map (GotData e) chunks) [] [] w = Some (w', concat (map serialize replies), Running [])"
proof -
  have "chunks = [] \<Longrightarrow> fs = []"
    using assms(4) by (cases fs) auto
  then show ?thesis
    using connection_chunks [OF assms(1) _ assms(3), where fs = fs and buf = "[]" and out = "[]"] assms(2,4,5) by (simp add: log_of_def)
qed

theorem connection_serves_in_order_witness:
  "handle_connection std_resp (\<lambda>_. ''ERR'') (\<lambda>_ _ _ _ _. None) (Some 0)
     (map (GotData demo_env) [''*1'', crlf @ ''$4'' @ crlf @ ''PI'', ''NG'' @ crlf]) [] [] (Storage_new demo_env LRU) =
     Some (Storage_new demo_env LRU, ''+PONG'' @ crlf, Running [])"
proof -
  let ?f = "Array [Bulk ''PING'']" and ?w = "Storage_new demo_env LRU" and ?ev = "\<lambda>_ _ _ _ _. None"
  have "list_all2 (\<lambda>f c. request_frame std_resp f \<and> try_from (ext_of demo_env) f = Inr c) [?f] [Ping None]"
    by (simp add: std_resp_def vec_capacity_ok_def USIZE_MAX_def try_from_command [OF demo_ext_ok] dispatch_def command_names_def
        parse_ping_def)
  moreover have "serve demo_env ?ev (Some 0) [Ping None] ?w = Some (?w, [Simple ''PONG''])"
    by (simp add: execute_command_normal_def execute_def)
  moreover have "concat [''*1'', crlf @ ''$4'' @ crlf @ ''PI'', ''NG'' @ crlf] = concat (map serialize [?f])"
    using digit_char_numerals(6) by (simp add: show_nat.simps numeral_eq_Suc)
  moreover have "\<not> is_psync_request (concat [''*1'', crlf @ ''$4'' @ crlf @ ''PI'', ''NG'' @ crlf])"
    by (simp add: is_psync_request_def crlf_def CR_def LF_def)
  ultimately have "handle_connection std_resp (\<lambda>_. ''ERR'') ?ev (Some 0)
     (map (GotData demo_env) [''*1'', crlf @ ''$4'' @ crlf @ ''PI'', ''NG'' @ crlf]) [] [] ?w = Some (?w, concat (map serialize [Simple ''PONG'']), Running [])"
    by (rule connection_serves_in_order [OF std_resp_ok])
  then show ?thesis
    by simp
qed

text \<open>The boundaries of network reads do not matter: when the pipeline has served the bytes received so
  far and waits for more, then on the bytes received so far together with later ones it does what it
  does on the bytes it kept with the later ones, started where it stopped, whatever the end.\<close>

lemma pipeline_chunking_irrelevant:
  assumes "finder_ok R" and "pipeline R e ev conn buf [] 0 w = Some (w1, Replies rs n)"
  shows "n \<le> length buf \<and>
    pipeline R e ev conn (buf @ later) [] 0 w =
      map_option (\<lambda>(w2, p). (w2, case p of
            Replies rs' n' \<Rightarrow> Replies (rs @ rs') (n + n')
          | Failed er \<Rightarrow> Failed er
          | Suspended ch rs' n' \<Rightarrow> Suspended ch (rs @ rs') (n + n')))
        (pipeline R e ev conn (drop n buf @ later) [] 0 w1)"
  using pipeline_progress [OF assms(2)] pipeline_extend [OF assms, of later] pipeline_acc [of R e ev conn "drop n buf @ later" rs n w1]
  by (simp add: after_def)

text \<open>A command that was executed loses its reply when the bytes behind it are not a command: the
  client sees one error and the rest of the buffer is discarded.\<close>

lemma pipeline_error_drops_replies:
  assumes "finder_ok R" "request_frame R f" "try_from (ext_of e) f = Inr c"
    and "execute_command_normal e ev conn c w = Some (w1, Done (Inr reply))"
    and "bad \<noteq> []" "hd bad \<noteq> CHR ''*''" "hd bad \<noteq> CHR ''$''" "\<not> is_psync_request (serialize f @ bad)"
  shows "on_data R show_err e ev conn (serialize f @ bad) w =
    Some (w1, Wrote (serialize (Error (show_err (ProtocolError (Zh ''invalid frame prefix''))))) [])"
proof -
  have "pipeline R e ev conn bad [serialize reply] (length (serialize f)) w1 = Some (w1, Failed (ProtocolError (Zh ''invalid frame prefix'')))"
    using parse_reply_prefix [OF assms(5-7)] by (subst pipeline.simps) simp
  then have "pipeline R e ev conn (serialize f @ bad) [] 0 w = Some (w1, Failed (ProtocolError (Zh ''invalid frame prefix'')))"
    using parse_frame_serialize [OF assms(1,2), of bad] assms(3,4) by (subst pipeline.simps) simp
  then show ?thesis
    using assms(8) by (simp add: on_data_def)
qed

text \<open>A buffer that holds the word anywhere, in a value for instance, is taken for a replica's
  handshake and none of its commands is executed.\<close>

lemma contains_append: "has_prefix p s \<Longrightarrow> contains p (t @ s)"
proof (induction t)
  case Nil
  then show ?case
    by (cases s) auto
qed auto

lemma has_prefix_self: "has_prefix p (p @ s)"
  by (induction p) auto

lemma psync_in_value_hands_over:
  "on_data R show_err e ev conn (serialize (Array [Bulk ''SET'', Bulk k, Bulk ''PSYNC''])) w = Some (w, HandOver)"
proof -
  have "contains ''PSYNC'' ((''*'' @ show_nat 3 @ crlf @ serialize (Bulk ''SET'') @ serialize (Bulk k) @ ''$'' @ show_nat 5 @ crlf) @ ''PSYNC'' @ crlf)"
    by (intro contains_append has_prefix_self)
  then have "is_psync_request (serialize (Array [Bulk ''SET'', Bulk k, Bulk ''PSYNC'']))"
    by (simp add: is_psync_request_def numeral_eq_Suc)
  then show ?thesis
    by (simp add: on_data_def)
qed

end
