(* ===== verification/Lua.thy ===== *)
theory Lua
  imports Storage
begin

text \<open>
  Scripts: the conversions between Lua values and frames (\<^verbatim>\<open>src/src/lua/lua_exchange.rs\<close>), the function
  \<^verbatim>\<open>redis.call\<close>, the locks a script takes before it runs and the commit or rollback after it
  (\<^verbatim>\<open>src/src/lua/lua_vm.rs\<close>), and the choice of a worker (\<^verbatim>\<open>src/src/lua/lua_work.rs\<close>).

  The Lua interpreter is a parameter: \<open>load_script\<close> turns the text, \<^verbatim>\<open>KEYS\<close> and \<^verbatim>\<open>ARGV\<close> into the tree of
  what the script does, a result, an error, or a call of \<^verbatim>\<open>redis.call\<close> and what follows for each outcome (no
  value when the call raised an error the script may catch). Trees are well-founded: scripts that do not end are
  not covered. A worker keeps its Lua machine, with whatever globals earlier scripts have set: \<open>load_script\<close> is an arbitrary function,
  so what is proved of a script holds for every state of the machine, but two scripts may see different ones. A table is its string-keyed fields and its sequence. The texts of Lua errors are not
  modelled. All shards a script may touch are locked while it runs, so that it is one step of the
  store. \<open>None\<close> is a panic of the worker.
\<close>

datatype LuaValue =
    LuaNil
  | LuaBool bool
  | LuaInt int
  | LuaNum f64
  | LuaStr bytes
  | LuaTable "(string \<times> LuaValue) list" "LuaValue list"
  | LuaOther

datatype script =
    Return LuaValue
  | Raise
  | Call "LuaValue list" "LuaValue option \<Rightarrow> script"

record 'j lua_env =
  load_script :: "string \<Rightarrow> string list \<Rightarrow> string list \<Rightarrow> script"
  lua_tostring :: "f64 \<Rightarrow> string"
  drain_sessions :: "nat list \<Rightarrow> nat list"
  drain_keys :: "'j LockedDb \<Rightarrow> key list"

section \<open>Values and frames\<close>

definition lua_value_to_bulk_frame :: "ext \<Rightarrow> LuaValue \<Rightarrow> Frame option" where
  "lua_value_to_bulk_frame E v =
     (case v of
        LuaNil \<Rightarrow> Some (Bulk [])
      | LuaBool b \<Rightarrow> Some (Bulk (if b then ''1'' else ''0''))
      | LuaInt i \<Rightarrow> Some (Bulk (show_int i))
      | LuaNum n \<Rightarrow> Some (Bulk (f64_to_string E n))
      | LuaStr s \<Rightarrow> Some (Bulk s)
      | LuaTable _ _ \<Rightarrow> None
      | LuaOther \<Rightarrow> None)"

fun into_lua :: "Frame \<Rightarrow> LuaValue" where
  "into_lua (Simple s) = LuaTable [(''ok'', LuaStr s)] []"
| "into_lua (Error msg) = LuaTable [(''err'', LuaStr msg)] []"
| "into_lua (Integer i) = LuaInt i"
| "into_lua (Bulk b) = LuaStr b"
| "into_lua (Array frames) = LuaTable [] (map into_lua frames)"
| "into_lua Null = LuaBool False"

text \<open>\<^verbatim>\<open>n as i64\<close>: truncation towards zero, clamped to the range of the type; a NaN is zero.\<close>

definition f64_as_i64 :: "f64 \<Rightarrow> int" where
  "f64_as_i64 x =
     (if f64_is_nan x then 0
      else
        let ex = f64_magnitude x div 2 ^ 52;
            man = f64_magnitude x mod 2 ^ 52 + 2 ^ 52;
            mag = (if ex < 1023 then 0 else if ex < 1075 then man div 2 ^ (1075 - ex) else man * 2 ^ (ex - 1075))
        in if f64_negative x then - int (min mag (2 ^ 63)) else int (min mag (2 ^ 63 - 1)))"

text \<open>\<^verbatim>\<open>t.get::<_, String>(field)\<close>: a string, if it is UTF-8, or a number, which Lua turns into one.\<close>

definition get_string :: "(f64 \<Rightarrow> string) \<Rightarrow> string \<Rightarrow> (string \<times> LuaValue) list \<Rightarrow> string option" where
  "get_string tostr field flds =
     (case map_of flds field of
        Some (LuaStr s) \<Rightarrow> if utf8_valid s then Some s else None
      | Some (LuaInt i) \<Rightarrow> Some (show_int i)
      | Some (LuaNum n) \<Rightarrow> Some (tostr n)
      | _ \<Rightarrow> None)"

fun from_lua :: "(f64 \<Rightarrow> string) \<Rightarrow> LuaValue \<Rightarrow> Frame option"
  and from_sequence :: "(f64 \<Rightarrow> string) \<Rightarrow> LuaValue list \<Rightarrow> Frame list option"
where
  "from_lua tostr LuaNil = Some Null"
| "from_lua tostr (LuaStr s) = Some (Bulk s)"
| "from_lua tostr (LuaInt i) = Some (Integer i)"
| "from_lua tostr (LuaNum n) = Some (Integer (f64_as_i64 n))"
| "from_lua tostr (LuaBool b) = Some (if b then Integer 1 else Null)"
| "from_lua tostr (LuaTable flds vs) =
     (case get_string tostr ''ok'' flds of
        Some ok_msg \<Rightarrow> Some (Simple ok_msg)
      | None \<Rightarrow>
          (case get_string tostr ''err'' flds of
             Some err_msg \<Rightarrow> Some (Error err_msg)
           | None \<Rightarrow> map_option Array (from_sequence tostr vs)))"
| "from_lua tostr LuaOther = None"
| "from_sequence tostr [] = Some []"
| "from_sequence tostr (v # vs) =
     (if v = LuaNil then Some []
      else do { f \<leftarrow> from_lua tostr v; fs \<leftarrow> from_sequence tostr vs; Some (f # fs) })"

section \<open>redis.call\<close>

type_synonym 'j call_state = "'j world \<times> Command list"

definition redis_call ::
  "'j env \<Rightarrow> nat option \<Rightarrow> LuaValue list \<Rightarrow> 'j call_state \<Rightarrow> ('j call_state \<times> LuaValue option) option" where
  "redis_call e conn args st =
     (case st of (w, lua_aof_buffer) \<Rightarrow>
        (case those (map (lua_value_to_bulk_frame (ext_of e)) args) of
           None \<Rightarrow> Some (st, None)
         | Some frames \<Rightarrow>
             (case try_from (ext_of e) (Array frames) of
                Inl er \<Rightarrow> if er = Panicked then None else Some (st, None)
              | Inr command \<Rightarrow>
                  (case execute e (\<lambda>_ _ _ _ _. None) CtxLua conn command w of
                     None \<Rightarrow> None
                   | Some (w1, Done (Inl _)) \<Rightarrow> Some ((w1, lua_aof_buffer), None)
                   | Some (w1, Done (Inr frame)) \<Rightarrow> Some ((w1, lua_aof_buffer @ [command]), Some (into_lua frame))
                   | Some (w1, Blocked _) \<Rightarrow> None))))"

primrec run_script ::
  "'j env \<Rightarrow> nat option \<Rightarrow> script \<Rightarrow> 'j call_state \<Rightarrow> ('j call_state \<times> LuaValue option) option" where
  "run_script e conn (Return v) st = Some (st, Some v)"
| "run_script e conn Raise st = Some (st, None)"
| "run_script e conn (Call args k) st =
     (case redis_call e conn args st of
        None \<Rightarrow> None
      | Some (st1, r) \<Rightarrow> run_script e conn (k r) st1)"

section \<open>Locks, commit and rollback\<close>

definition lock_order :: "'j env \<Rightarrow> string list \<Rightarrow> nat list option" where
  "lock_order e keys = map_option (\<lambda>indices. remdups_adj (sort indices)) (those (map (get_shard_index e) keys))"

definition lock_write_lua :: "nat option \<Rightarrow> nat \<Rightarrow> 'j world \<Rightarrow> 'j world option" where
  "lock_write_lua conn i w =
     do { (_, s) \<leftarrow> find_shard conn i w;
          Some (w\<lparr>lua_sessions := (lua_sessions w)(i \<mapsto> WriteLua (LuaCacheNode_new (Writeguard s)))\<rparr>) }"

definition init_lua_pre :: "'j env \<Rightarrow> nat option \<Rightarrow> string list \<Rightarrow> 'j world \<Rightarrow> ('j world \<times> nat list) option" where
  "init_lua_pre e conn keys w =
     do { order \<leftarrow> lock_order e keys;
          w1 \<leftarrow> ofold (lock_write_lua conn) order (w\<lparr>lua_sessions := Map.empty\<rparr>);
          Some (w1, order) }"

definition commit_session :: "'j lua_env \<Rightarrow> nat option \<Rightarrow> nat \<Rightarrow> 'j world \<Rightarrow> 'j world option" where
  "commit_session L conn i w =
     (case lua_sessions w i of
        None \<Rightarrow> Some w
      | Some l0 \<Rightarrow>
          do { (db, s) \<leftarrow> find_shard conn i w;
               l \<leftarrow> locked_commit (drain_keys L l0) (load_shard s l0);
               Some (put_shard db i (guarded (locked_direct l)) w) })"

definition script_error :: "Frame kvres" where
  "script_error = Inl (ProtocolError (Zh ''Lua script error''))"

definition lua_vm_redis_call ::
  "'j env \<Rightarrow> 'j lua_env \<Rightarrow> nat option \<Rightarrow> script \<Rightarrow> nat list \<Rightarrow> 'j world \<Rightarrow> ('j world \<times> Frame kvres) option" where
  "lua_vm_redis_call e L conn script locked w =
     (case run_script e conn script (w, []) of
        None \<Rightarrow> None
      | Some ((w1, buffer), v) \<Rightarrow>
          (case Option.bind v (from_lua (lua_tostring L)) of
             None \<Rightarrow> Some (w1\<lparr>lua_sessions := Map.empty\<rparr>, script_error)
           | Some frame \<Rightarrow>
               do { w2 \<leftarrow> ofold (commit_session L conn) (drain_sessions L locked)
                            (if buffer = [] then w1 else send_aof e CtxNormal (MultiGroup buffer) w1);
                    Some (w2\<lparr>lua_sessions := Map.empty\<rparr>, Inr frame) }))"

text \<open>What a worker does with a task: the engine of \<open>execute\<close>.\<close>

definition lua_engine :: "'j env \<Rightarrow> 'j lua_env \<Rightarrow> 'j engine" where
  "lua_engine e L conn script keys args w =
     do { (w1, locked) \<leftarrow> init_lua_pre e conn keys w;
          lua_vm_redis_call e L conn (load_script L script keys args) locked w1 }"

section \<open>The router\<close>

text \<open>The worker with the most room in its queue, the first one from a random start on.\<close>

definition best_sender :: "nat list \<Rightarrow> nat \<Rightarrow> nat" where
  "best_sender capacities offset =
     fst (fold (\<lambda>k (best_index, max_capacity).
            let i = (offset + k) mod length capacities; cap = capacities ! i
            in if cap > max_capacity then (i, cap) else (best_index, max_capacity))
          [1..<length capacities] (offset, capacities ! offset))"

definition dispatch_task :: "nat list \<Rightarrow> nat \<Rightarrow> nat kvres" where
  "dispatch_task capacities random =
     (if length capacities = 0 then Inl (ProtocolError (Zh ''Lua engine overloaded or closed''))
      else Inr (best_sender capacities (random mod length capacities)))"

section \<open>The router picks a least loaded worker\<close>

lemma best_sender_inv:
  fixes capacities :: "nat list"
  assumes "offset < length capacities" "k \<le> length capacities"
  shows "\<exists>b. fold (\<lambda>k (best_index, max_capacity).
            let i = (offset + k) mod length capacities; cap = capacities ! i
            in if cap > max_capacity then (i, cap) else (best_index, max_capacity))
          [1..<k] (offset, capacities ! offset) = (b, capacities ! b) \<and> b < length capacities \<and>
          (\<forall>j < k. capacities ! ((offset + j) mod length capacities) \<le> capacities ! b)"
  using assms(2)
proof (induction k)
  case 0
  then show ?case
    using assms(1) by simp
next
  case (Suc k)
  show ?case
  proof (cases "k = 0")
    case True
    then show ?thesis
      using assms(1) by simp
  next
    case False
    have "(offset + k) mod length capacities < length capacities"
      using assms(1) by (intro mod_less_divisor) linarith
    then show ?thesis
      using Suc False by (auto simp: Let_def less_Suc_eq) (meson less_imp_le order_trans)
  qed
qed

lemma dispatch_least_loaded:
  assumes "dispatch_task capacities random = Inr b"
  shows "b < length capacities \<and> (\<forall>i < length capacities. capacities ! i \<le> capacities ! b)"
proof -
  let ?n = "length capacities" and ?o = "random mod length capacities"
  have n: "?n \<noteq> 0" and b: "b = best_sender capacities ?o"
    using assms by (auto simp: dispatch_task_def split: if_splits)
  have "?o < ?n"
    using n by simp
  from best_sender_inv [OF this order_refl] obtain b' where b':
    "best_sender capacities ?o = b'" "b' < ?n" "\<forall>j < ?n. capacities ! ((?o + j) mod ?n) \<le> capacities ! b'"
    unfolding best_sender_def by auto
  have "capacities ! i \<le> capacities ! b'" if "i < ?n" for i
  proof -
    let ?j = "(i + ?n - ?o) mod ?n"
    have "(?o + ?j) mod ?n = i"
      using that \<open>?o < ?n\<close> by (simp add: mod_add_right_eq)
    then show ?thesis
      using b'(3) n by (metis mod_less_divisor neq0_conv)
  qed
  then show ?thesis
    using b b' by blast
qed

section \<open>A script's locks\<close>

lemma sorted_remdups_adj_strict: "sorted xs \<Longrightarrow> sorted_wrt (<) (remdups_adj (xs :: nat list))"
proof (induction xs rule: remdups_adj.induct)
  case (3 x y xs)
  show ?case
  proof (cases "x = y")
    case True
    then show ?thesis
      using 3 by simp
  next
    case False
    then have "\<forall>z \<in> set (y # xs). x < z"
      using 3(3) by force
    then show ?thesis
      using 3 False by simp
  qed
qed simp_all

lemma lock_order_strict: "lock_order e keys = Some ids \<Longrightarrow> sorted_wrt (<) ids"
  by (auto simp: lock_order_def sorted_remdups_adj_strict)

section \<open>Frames through Lua and back\<close>

fun texts_ok :: "Frame \<Rightarrow> bool" where
  "texts_ok (Simple s) \<longleftrightarrow> utf8_valid s"
| "texts_ok (Error s) \<longleftrightarrow> utf8_valid s"
| "texts_ok (Array fs) \<longleftrightarrow> list_all texts_ok fs"
| "texts_ok _ \<longleftrightarrow> True"

lemma into_lua_not_nil [simp]: "into_lua f \<noteq> LuaNil"
  by (cases f) auto

lemma from_into_lua: "texts_ok f \<Longrightarrow> from_lua tostr (into_lua f) = Some f"
proof (induction f)
  case (Array fs)
  have "list_all texts_ok gs \<Longrightarrow> set gs \<subseteq> set fs \<Longrightarrow> from_sequence tostr (map into_lua gs) = Some gs" for gs
    by (induction gs) (auto simp: Array.IH)
  then show ?case
    using Array.prems by (simp add: get_string_def)
qed (simp_all add: get_string_def)

section \<open>A script of one command\<close>

lemma those_single: "those [x] = map_option (\<lambda>y. [y]) x"
  by (cases x) simp_all

lemma single_lock:
  assumes "world_ok e w" "db < DB_COUNT" "get_shard_index e k = Some i" "i < num_shards e"
  shows "init_lua_pre e (Some db) [k] w =
    Some (w\<lparr>lua_sessions := [i \<mapsto> WriteLua (LuaCacheNode_new (Writeguard (global_memory w, store w ! db ! i)))]\<rparr>, [i])"
proof -
  have "find_shard (Some db) i (w\<lparr>lua_sessions := Map.empty\<rparr>) = Some (db, global_memory w, store w ! db ! i)"
    using world_ok_shard(1) [OF assms(1,2,4)] by (simp add: find_shard_def)
  then show ?thesis
    using assms(3) by (simp add: init_lua_pre_def lock_order_def lock_write_lua_def)
qed

definition set_nx_script :: "key \<Rightarrow> bytes \<Rightarrow> script" where
  "set_nx_script k v = Call [LuaStr ''SET'', LuaStr k, LuaStr v, LuaStr ''NX''] (\<lambda>r. case r of None \<Rightarrow> Raise | Some x \<Rightarrow> Return x)"

text \<open>The hash maps are drained in some order of their keys.\<close>

definition drains_ok :: "'j lua_env \<Rightarrow> bool" where
  "drains_ok L \<longleftrightarrow>
     (\<forall>xs. distinct xs \<longrightarrow> distinct (drain_sessions L xs) \<and> set (drain_sessions L xs) = set xs) \<and>
     (\<forall>x. finite (dom (differ_map x)) \<longrightarrow> drain_order (drain_keys L (WriteLua x)) x)"

lemma drains_single:
  assumes "drains_ok L"
  shows "drain_sessions L [i] = [i]"
proof -
  let ?xs = "drain_sessions L [i]"
  have "distinct [i] \<longrightarrow> distinct ?xs \<and> set ?xs = set [i]"
    using assms unfolding drains_ok_def by blast
  then have "distinct ?xs" "set ?xs = {i}"
    by simp_all
  moreover from this have "length ?xs = 1"
    using distinct_card [of ?xs] by simp
  ultimately show ?thesis
    by (auto simp: length_Suc_conv)
qed

lemma refused_set_call:
  assumes w: "world_ok e w" "db < DB_COUNT" "get_shard_index e k = Some i" "i < num_shards e"
    and en: "db_store (store w ! db ! i) k = Some en" "\<not> expired (rt_of e) en"
  shows "\<exists>g n l. execute e ev CtxLua (Some db) (Set k v None (Some NX))
      (w\<lparr>lua_sessions := [i \<mapsto> WriteLua (LuaCacheNode_new (Writeguard (global_memory w, store w ! db ! i)))]\<rparr>) =
      Some ((put_shard db i (g, n) w)\<lparr>lua_sessions := [i \<mapsto> WriteLua l]\<rparr>, Done (Inr Null)) \<and>
    lua_db l = Writeguard (g, n) \<and> differ_map l = Map.empty \<and> db_store n = db_store (store w ! db ! i)"
proof -
  let ?n = "store w ! db ! i" and ?g = "global_memory w"
  let ?l = "LuaCacheNode_new (Writeguard (?g, ?n))"
  let ?w = "w\<lparr>lua_sessions := [i \<mapsto> WriteLua ?l]\<rparr>"
  have sh: "find_shard (Some db) i ?w = Some (db, ?g, ?n)"
    using world_ok_shard(1) [OF w(1,2,4)] by (simp add: find_shard_def)
  have "node_ok ?n"
    using world_ok_shard(2) [OF w(1,2,4)] by (simp add: shard_ok_def)
  then have "direct_ok (Writeguard (?g, ?n))"
    by simp
  from direct.select_law [OF this, of "rt_of e" k] obtain d where d:
    "direct_select (rt_of e) k (Writeguard (?g, ?n)) = Some (d, Some en)" "direct_ok d" "direct_tk d = (db_store ?n)(k := Some en)"
    using en by (auto simp: direct_tk_def seen_of_def unexpired_def)
  obtain g n where n: "d = Writeguard (g, n)" "db_store n = db_store ?n"
    using d(2,3) en(1) by (auto elim!: direct_okE simp: direct_tk_def fun_upd_idem)
  have "exec_locked e (Set k v None (Some NX)) (WriteLua ?l) = Some (WriteLua (?l\<lparr>lua_db := Writeguard (g, n)\<rparr>), Inr Null, [])"
    using d(1) n(1) by (simp add: exec_locked_def exec_set_def lua_select_def LuaCacheNode_new_def del: direct_select.simps)
  then have "execute e ev CtxLua (Some db) (Set k v None (Some NX)) ?w =
      Some ((put_shard db i (g, n) w)\<lparr>lua_sessions := [i \<mapsto> WriteLua (?l\<lparr>lua_db := Writeguard (g, n)\<rparr>)]\<rparr>, Done (Inr Null))"
    using w(3) sh by (simp add: execute_def run_single_def with_lock_def finish_def put_shard_def LuaCacheNode_new_def)
  then show ?thesis
    using n(2) by (intro exI [of _ g] exI [of _ n] exI [of _ "?l\<lparr>lua_db := Writeguard (g, n)\<rparr>"]) (simp add: LuaCacheNode_new_def)
qed

section \<open>Properties\<close>

text \<open>Property C23: frames survive the way through Lua. Every frame \<^verbatim>\<open>redis.call\<close> hands to a script is
  turned back into the same frame when the script returns it: statuses, errors, nested arrays, and
  null, also inside arrays.\<close>

theorem lua_frame_roundtrip:
  assumes "texts_ok f"
  shows "from_lua tostr (into_lua f) = Some f"
  by (rule from_into_lua [OF assms])

theorem lua_frame_roundtrip_witness:
  "from_lua (\<lambda>_. []) (into_lua (Array [Null, Bulk ''x'', Array [Simple ''OK'']])) = Some (Array [Null, Bulk ''x'', Array [Simple ''OK'']])"
proof -
  have "utf8_valid ''OK''"
    by (simp add: ascii_utf8_valid nat_of_char_def)
  then show ?thesis
    by (intro lua_frame_roundtrip) simp
qed

text \<open>Property C22: scripts do not deadlock. Consider any scripts that are each waiting for a lock, having
  taken the locks of their shards in order up to it: some script among them waits for a shard that none
  of them holds. So a cycle of waiting scripts cannot form, whatever keys they declare.\<close>

theorem scripts_never_deadlock:
  assumes "finite S" and "S \<noteq> {}"
    and "\<forall>x \<in> S. \<exists>ids. lock_order e (fst x) = Some ids \<and> snd x < length ids"
  shows "\<exists>(keys, n) \<in> S. \<exists>ids. lock_order e keys = Some ids \<and>
    (\<forall>(keys', n') \<in> S. \<forall>jds. lock_order e keys' = Some jds \<longrightarrow> ids ! n \<notin> set (take n' jds))"
proof -
  define wants where "wants = (\<lambda>x. the (lock_order e (fst x)) ! snd x)"
  have fin: "finite (wants ` S)" "wants ` S \<noteq> {}"
    using assms(1,2) by simp_all
  then obtain x where x: "x \<in> S" "wants x = Max (wants ` S)"
    using Max_in [OF fin] by force
  obtain ids where ix: "lock_order e (fst x) = Some ids" "snd x < length ids"
    using assms(3) x(1) by blast
  have "ids ! snd x \<notin> set (take (snd y) jds)" if y: "y \<in> S" "lock_order e (fst y) = Some jds" for y jds
  proof
    assume "ids ! snd x \<in> set (take (snd y) jds)"
    then obtain j where j: "j < snd y" "j < length jds" "jds ! j = ids ! snd x"
      by (auto simp: in_set_conv_nth)
    have "snd y < length jds"
      using assms(3) y by auto
    then have "ids ! snd x < jds ! snd y"
      using sorted_wrt_nth_less [OF lock_order_strict [OF y(2)] j(1)] j(3) by simp
    moreover have "jds ! snd y \<le> Max (wants ` S)"
      using Max_ge [OF fin(1) imageI [OF y(1)]] y(2) by (simp add: wants_def)
    ultimately show False
      using x(2) ix(1) by (simp add: wants_def)
  qed
  then show ?thesis
    using x(1) ix(1) by (intro bexI [of _ x]) auto
qed

theorem scripts_never_deadlock_witness:
  "\<exists>(keys, n) \<in> {([''a''], 0), ([''bb'', ''a''], 1)}. \<exists>ids. lock_order demo_env keys = Some ids \<and>
     (\<forall>(keys', n') \<in> {([''a''], 0), ([''bb'', ''a''], 1)}. \<forall>jds. lock_order demo_env keys' = Some jds \<longrightarrow> ids ! n \<notin> set (take n' jds))"
proof (rule scripts_never_deadlock)
  have "lock_order demo_env [''a''] = Some [1]" "lock_order demo_env [''bb'', ''a''] = Some [0, 1]"
    by (simp_all add: lock_order_def get_shard_index_def)
  then show "\<forall>x \<in> {([''a''], 0), ([''bb'', ''a''], 1)}. \<exists>ids. lock_order demo_env (fst x) = Some ids \<and> snd x < length ids"
    by simp
qed simp_all

definition demo_lua :: "unit lua_env" where
  "demo_lua = \<lparr>load_script = (\<lambda>_ keys _. set_nx_script (hd keys) ''new''), lua_tostring = (\<lambda>_. []), drain_sessions = rev,
     drain_keys = (\<lambda>l. case l of WriteLua x \<Rightarrow> sorted_list_of_set (dom (differ_map x)) | _ \<Rightarrow> [])\<rparr>"

lemma demo_lua_ok: "drains_ok demo_lua"
  by (simp add: drains_ok_def demo_lua_def drain_order_def)

text \<open>A refused \<^verbatim>\<open>SET .. NX\<close> inside a script is logged as if it had happened. The key is present,
  so the command answers null and the store keeps its value; but every command that does not fail is
  put into the log of the script, and the encoder drops the condition: the log holds an
  unconditional \<^verbatim>\<open>SET\<close> of the refused value, whose abstract effect is to overwrite.\<close>

lemma lua_refused_set_is_logged:
  assumes "world_ok e w" and "db < DB_COUNT" and "ext_ok (ext_of e)" and "utf8_valid k"
    and "peek e db k w = Some en" and "\<not> expired (rt_of e) en"
    and "load_script L script [k] args = set_nx_script k v" and "drains_ok L"
  shows "\<exists>w'. lua_engine e L (Some db) script [k] args w = Some (w', Inr Null) \<and> peek e db k w' = Some en \<and>
    aof_sent w' = aof_sent w @ [encode_multi @ encode_set (ext_of e) (env_now e) k v None @ encode_exec] \<and>
    fst (redis e (Set k v None None) cur) = Some (AStr (stored_bytes e v), None)"
proof -
  obtain i where i: "get_shard_index e k = Some i" "i < num_shards e"
    using get_shard_index_bound assms(1) unfolding world_ok_def by blast
  have "db_store (store w ! db ! i) k = Some en"
    using assms(5) i(1) by (simp add: peek_def)
  from refused_set_call [OF assms(1,2) i this assms(6), of "\<lambda>_ _ _ _ _. None" v] obtain g n l where run:
    "execute e (\<lambda>_ _ _ _ _. None) CtxLua (Some db) (Set k v None (Some NX))
      (w\<lparr>lua_sessions := [i \<mapsto> WriteLua (LuaCacheNode_new (Writeguard (global_memory w, store w ! db ! i)))]\<rparr>) =
      Some ((put_shard db i (g, n) w)\<lparr>lua_sessions := [i \<mapsto> WriteLua l]\<rparr>, Done (Inr Null))"
    "lua_db l = Writeguard (g, n)" "differ_map l = Map.empty" "db_store n = db_store (store w ! db ! i)"
    by blast
  let ?w0 = "w\<lparr>lua_sessions := [i \<mapsto> WriteLua (LuaCacheNode_new (Writeguard (global_memory w, store w ! db ! i)))]\<rparr>"
  let ?w1 = "(put_shard db i (g, n) w)\<lparr>lua_sessions := [i \<mapsto> WriteLua l]\<rparr>"
  let ?c = "Set k v None (Some NX)"
  have "try_from (ext_of e) (Array [Bulk ''SET'', Bulk k, Bulk v, Bulk ''NX'']) = Inr ?c"
  proof -
    have "eq_ignore_ascii_case ''NX'' ''NX''" "\<not> eq_ignore_ascii_case ''NX'' ''PX''" "\<not> eq_ignore_ascii_case ''NX'' ''EX''"
      "\<not> eq_ignore_ascii_case ''NX'' ''EXAT''" "\<not> eq_ignore_ascii_case ''NX'' ''PXAT''"
      by code_simp+
    then show ?thesis
      using assms(4) by (simp add: try_from_command [OF assms(3)] dispatch_def command_names_def parse_set_def)
  qed
  then have script: "run_script e (Some db) (set_nx_script k v) (?w0, []) = Some ((?w1, [?c]), Some (LuaBool False))"
    using run(1) by (simp add: set_nx_script_def redis_call_def lua_value_to_bulk_frame_def)
  let ?w2 = "send_aof e CtxNormal (MultiGroup [?c]) ?w1"
  have w2: "same_store ?w1 ?w2" "aof_sent ?w2 = aof_sent w @ [encode_multi @ encode_set (ext_of e) (env_now e) k v None @ encode_exec]"
    using send_aof_effect [of ?w1 e CtxNormal "MultiGroup [?c]"] by (simp_all add: log_bytes_def put_shard_def)
  note same = same_storeD [OF w2(1)]
  have len: "db < length (store w)" "i < length (store w ! db)"
    using world_ok_lengths [OF assms(1,2)] i(2) by auto
  have "drain_order (drain_keys L (WriteLua l)) l"
    using assms(8) run(3) by (simp add: drains_ok_def)
  then have drain: "drain_keys L (WriteLua l) = []"
    using run(3) by (simp add: drain_order_def)
  have "find_shard (Some db) i ?w2 = Some (db, g, n)"
    using same(1,2) len by (simp add: find_shard_def put_shard_def nth_opt_def)
  then have commit: "commit_session L (Some db) i ?w2 = Some (put_shard db i (g, n) ?w2)"
    using same(7) run(2) drain by (simp add: commit_session_def lua_commit_def)
  have "lua_engine e L (Some db) script [k] args w = Some ((put_shard db i (g, n) ?w2)\<lparr>lua_sessions := Map.empty\<rparr>, Inr Null)"
    using single_lock [OF assms(1,2) i] script commit drains_single [OF assms(8)] assms(7)
    by (simp add: lua_engine_def lua_vm_redis_call_def)
  moreover have "peek e db k ((put_shard db i (g, n) ?w2)\<lparr>lua_sessions := Map.empty\<rparr>) = Some en"
    using run(4) same(1) len i(1) assms(5) by (simp add: peek_def put_shard_def)
  moreover have "fst (redis e (Set k v None None) cur) = Some (AStr (stored_bytes e v), None)"
    by (simp add: set_refused_def)
  ultimately show ?thesis
    using w2(2) by (intro exI [of _ "(put_shard db i (g, n) ?w2)\<lparr>lua_sessions := Map.empty\<rparr>"])
      (simp add: put_shard_def del: redis.simps)
qed

end
