(* ===== verification/Script.thy ===== *)
theory Script
  imports Lua
begin

text \<open>
  Scripts as transactions. The engine of \<^verbatim>\<open>src/src/lua\<close> runs a script on the buffers of its sessions and commits them at
  the end; here this is compared with the script run on an abstract store, one key to an abstract entry each, where
  every call has the abstract effect of its command at once.

  \<open>vpeek\<close> is what a client can see of a key, \<open>sview\<close> what the running script sees of it. \<open>acall\<close> is the abstract effect
  of a call, for every command, and \<open>ascript\<close> the abstract run of a script. They are \<open>None\<close> only where a sorted
  set would not accept a score.
\<close>

section \<open>What is seen\<close>

definition vpeek :: "'j env \<Rightarrow> nat \<Rightarrow> key \<Rightarrow> 'j world \<Rightarrow> 'j ValueEntry option" where
  "vpeek e db k w =
     (case get_shard_index e k of
        None \<Rightarrow> None
      | Some i \<Rightarrow> seen_of (db_store (store w ! db ! i)) (unexpired (rt_of e)) k)"

definition session_changes :: "'j world \<Rightarrow> nat \<Rightarrow> key \<rightharpoonup> 'j ChangeOp" where
  "session_changes w i = (case lua_sessions w i of Some (WriteLua x) \<Rightarrow> differ_map x | _ \<Rightarrow> Map.empty)"

definition sview :: "'j env \<Rightarrow> nat \<Rightarrow> key \<Rightarrow> 'j world \<Rightarrow> 'j ValueEntry option" where
  "sview e db k w =
     (case get_shard_index e k of
        None \<Rightarrow> None
      | Some i \<Rightarrow>
          (case session_changes w i k of
             Some (Update en) \<Rightarrow> Some en
           | Some Delete \<Rightarrow> None
           | None \<Rightarrow> vpeek e db k w))"

text \<open>A key is within reach of a script when its shard is locked.\<close>

definition reachable :: "'j env \<Rightarrow> nat list \<Rightarrow> key \<Rightarrow> bool" where
  "reachable e order k \<longleftrightarrow> (\<exists>i. get_shard_index e k = Some i \<and> i \<in> set order)"

text \<open>\<^verbatim>\<open>MSET\<close> writes in the order of the keys and stops at the first one out of reach.\<close>

fun amset :: "'j env \<Rightarrow> nat list \<Rightarrow> (key \<times> bytes) list \<Rightarrow> (key \<Rightarrow> 'j aentry option) \<Rightarrow> (key \<Rightarrow> 'j aentry option) \<times> bool" where
  "amset e order [] A = (A, True)"
| "amset e order ((k, v) # kvs) A =
     (if reachable e order k then amset e order kvs (A(k := Some (AStr (stored_bytes e v), None))) else (A, False))"

text \<open>The store after a call, and the reply; no reply is an error that the script sees.\<close>

definition acall ::
  "'j env \<Rightarrow> nat list \<Rightarrow> Command \<Rightarrow> (key \<Rightarrow> 'j aentry option) \<Rightarrow> ((key \<Rightarrow> 'j aentry option) \<times> Frame option) option" where
  "acall e order c A =
     (case c of
        Ping v \<Rightarrow> Some (A, Some (case v of Some s \<Rightarrow> Bulk s | None \<Rightarrow> Simple ''PONG''))
      | Unimplemented name _ \<Rightarrow> Some (A, Some (Error (''ERR unknown command '' @ [CHR 0x27] @ name @ [CHR 0x27])))
      | Eval _ _ _ \<Rightarrow> Some (A, None)
      | Multi \<Rightarrow> Some (A, Some Null)
      | Exec \<Rightarrow> Some (A, Some Null)
      | MultiGroup _ \<Rightarrow> Some (A, Some Null)
      | MSet kvs \<Rightarrow> (case amset e order (sort_key fst kvs) A of (A', ok) \<Rightarrow> Some (A', if ok then Some (Simple ''OK'') else None))
      | MGet ks \<Rightarrow> Some (A, if \<forall>k \<in> set ks. reachable e order k then Some (Array (map (\<lambda>k. aget (A k)) ks)) else None)
      | BLPop k _ \<Rightarrow>
          if reachable e order k then
            (case blpop_spec (A k) of (a, ph) \<Rightarrow>
               Some (A(k := a), Some (case ph of Popped b \<Rightarrow> blpop_reply k b | WrongType \<Rightarrow> wrongtype | EmptyList \<Rightarrow> Null | Absent \<Rightarrow> Null)))
          else Some (A, None)
      | _ \<Rightarrow>
          (case get_key c of
             None \<Rightarrow> None
           | Some k \<Rightarrow>
               if \<not> reachable e order k then Some (A, None)
               else if \<not> accepts c (A k) then None
               else case redis e c (A k) of (a, reply, _) \<Rightarrow> Some (A(k := a), case reply of Inl _ \<Rightarrow> None | Inr f \<Rightarrow> Some f)))"

primrec ascript ::
  "'j env \<Rightarrow> nat list \<Rightarrow> script \<Rightarrow> (key \<Rightarrow> 'j aentry option) \<Rightarrow> Command list \<Rightarrow>
   ((key \<Rightarrow> 'j aentry option) \<times> Command list \<times> LuaValue option) option" where
  "ascript e order (Return v) A buf = Some (A, buf, Some v)"
| "ascript e order Raise A buf = Some (A, buf, None)"
| "ascript e order (Call args k) A buf =
     (case those (map (lua_value_to_bulk_frame (ext_of e)) args) of
        None \<Rightarrow> ascript e order (k None) A buf
      | Some frames \<Rightarrow>
          (case try_from (ext_of e) (Array frames) of
             Inl er \<Rightarrow> if er = Panicked then None else ascript e order (k None) A buf
           | Inr c \<Rightarrow>
               (case acall e order c A of
                  None \<Rightarrow> None
                | Some (A', None) \<Rightarrow> ascript e order (k None) A' buf
                | Some (A', Some f) \<Rightarrow> ascript e order (k (Some (into_lua f))) A' (buf @ [c]))))"

lemma acall_single:
  "single_key c \<Longrightarrow> acall e order c A =
     (case get_key c of
        None \<Rightarrow> None
      | Some k \<Rightarrow>
          if \<not> reachable e order k then Some (A, None)
          else if \<not> accepts c (A k) then None
          else case redis e c (A k) of (a, reply, _) \<Rightarrow> Some (A(k := a), case reply of Inl _ \<Rightarrow> None | Inr f \<Rightarrow> Some f))"
  by (cases c) (simp_all add: acall_def get_key_def del: redis.simps)

section \<open>A call\<close>

lemma session_view:
  assumes "session_ok l" "lua_sessions w i = Some l" "get_shard_index e k = Some i"
  shows "locked_tk (rt_of e) (load_shard (g, store w ! db ! i) l) k = sview e db k w"
    "key_live (rt_of e) k (load_shard (g, store w ! db ! i) l)"
proof -
  obtain x s where x: "l = WriteLua x" "lua_db x = Writeguard s"
    using assms(1) by (cases l) (auto simp: session_ok_def)
  then show "locked_tk (rt_of e) (load_shard (g, store w ! db ! i) l) k = sview e db k w"
    "key_live (rt_of e) k (load_shard (g, store w ! db ! i) l)"
    using assms(2,3)
    by (auto simp: sview_def vpeek_def session_changes_def lua_tk_def direct_tk_def key_live_def option.pred_True split: option.splits ChangeOp.splits)
qed

text \<open>Nothing a client can see changes, and nothing around the store.\<close>

definition hidden :: "'j env \<Rightarrow> 'j world \<Rightarrow> 'j world \<Rightarrow> bool" where
  "hidden e w w' \<longleftrightarrow>
     same_rest w w' \<and> dom (lua_sessions w') = dom (lua_sessions w) \<and> (\<forall>d k. vpeek e d k w' = vpeek e d k w)"

lemma hidden_refl [simp]: "hidden e w w"
  by (simp add: hidden_def same_rest_def)

lemma same_rest_trans: "same_rest w w1 \<Longrightarrow> same_rest w1 w2 \<Longrightarrow> same_rest w w2"
proof -
  assume "same_rest w w1" "same_rest w1 w2"
  then obtain a g s a' g' s' where "w1 = w\<lparr>store := a, global_memory := g, lua_sessions := s\<rparr>"
    "w2 = w1\<lparr>store := a', global_memory := g', lua_sessions := s'\<rparr>"
    unfolding same_rest_def by blast
  then show "same_rest w w2"
    by (simp add: same_rest_def)
qed

lemma same_rest_log: "same_rest w w' \<Longrightarrow> aof_sent w' = aof_sent w"
proof -
  assume "same_rest w w'"
  then obtain a g s where "w' = w\<lparr>store := a, global_memory := g, lua_sessions := s\<rparr>"
    unfolding same_rest_def by blast
  then show "aof_sent w' = aof_sent w"
    by simp
qed

lemma hidden_trans: "hidden e w w1 \<Longrightarrow> hidden e w1 w2 \<Longrightarrow> hidden e w w2"
  using same_rest_trans by (auto simp: hidden_def)

text \<open>The effect of a call on one reachable key.\<close>

definition called :: "'j env \<Rightarrow> nat \<Rightarrow> key \<Rightarrow> 'j aentry option \<Rightarrow> 'j world \<Rightarrow> 'j world \<Rightarrow> bool" where
  "called e db k a w w' \<longleftrightarrow>
     world_ok e w' \<and> hidden e w w' \<and> slot_rel e (sview e db k w') a \<and>
     (\<forall>x. x \<noteq> k \<longrightarrow> sview e db x w' = sview e db x w)"

lemma with_lock_session:
  assumes w: "world_ok e w" "db < DB_COUNT" and k: "get_shard_index e k = Some i" "i < num_shards e"
    and l0: "lua_sessions w i = Some l0"
    and imp: "\<And>l. view_ok l \<Longrightarrow> locked_ok l \<Longrightarrow> key_live (rt_of e) k l \<Longrightarrow> locked_tk (rt_of e) l k = sview e db k w \<Longrightarrow>
      vals_ok (locked_tk (rt_of e) l) \<Longrightarrow> implements e k l (f l) (a, r)"
  shows "\<exists>w'. with_lock e CtxLua (Some db) acc k f w = Some (w', Inr r) \<and> called e db k a w w'"
proof -
  note sh = world_ok_shard [OF w k(2)]
  let ?n = "store w ! db ! i"
  let ?l = "load_shard (global_memory w, ?n) l0"
  have s0: "session_ok l0"
    using w(1) l0 by (auto simp: world_ok_def ran_def)
  note load = load_session [OF s0 sh(2)] and view = session_view [OF s0 l0 k(1)]
  have im: "implements e k ?l (f ?l) (a, r)"
    using load(1,3) view by (intro imp) (auto intro: locked_view_ok)
  then obtain l where l: "f ?l = Some (l, r)" "locked_ok l" "slot_rel e (locked_tk (rt_of e) l k) a"
    "\<forall>x. x \<noteq> k \<longrightarrow> locked_tk (rt_of e) l x = locked_tk (rt_of e) ?l x" "locked_frame (rt_of e) ?l l"
    using load(1) by (auto simp: implements_def)
  obtain y g n where y: "l = WriteLua y" "lua_db y = Writeguard (g, n)"
    using l(2,5) load(2) by (cases l) (auto simp: locked_frame_def lua_ok_def elim!: direct_okE)
  let ?w = "(put_shard db i (g, n) w)\<lparr>lua_sessions := (lua_sessions w)(i \<mapsto> l)\<rparr>"
  have ok: "world_ok e ?w"
    using session_keeps [OF w k(2) l0 implements_keeps [OF im load(3)]] l(1) y by auto
  have len: "db < length (store w)" "i < length (store w ! db)"
    using world_ok_lengths [OF w] k(2) by auto
  have "seen_of (db_store n) (unexpired (rt_of e)) = seen_of (db_store ?n) (unexpired (rt_of e))"
    using l(5) load(2,5) y by (simp add: locked_frame_def direct_tk_def)
  then have vis: "vpeek e d x ?w = vpeek e d x w" for d x
    using len by (auto simp: vpeek_def put_shard_def nth_list_update split: option.splits)
  have sl: "session_ok l"
    using ok ranI [of "lua_sessions ?w" i l] by (simp add: world_ok_def)
  have "load_shard (g, n) l = l"
    using y by (cases y) simp
  moreover have "store ?w ! db ! i = n" "lua_sessions ?w i = Some l"
    using len by (simp_all add: put_shard_def)
  ultimately have at_i: "sview e db x ?w = locked_tk (rt_of e) l x" if "get_shard_index e x = Some i" for x
    using session_view(1) [OF sl, of ?w i e x g db] that by simp
  have "sview e db x ?w = sview e db x w" if "x \<noteq> k" for x
  proof (cases "get_shard_index e x = Some i")
    case True
    then show ?thesis
      using at_i l(4) session_view(1) [OF s0 l0 True] that by simp
  next
    case False
    then show ?thesis
      using vis by (simp add: sview_def session_changes_def split: option.splits)
  qed
  then have "called e db k a w ?w"
    using ok vis at_i [OF k(1)] l(3) l0 by (auto simp: called_def hidden_def same_rest_def put_shard_def insert_absorb)
  then show ?thesis
    using k(1) l0 sh(1) l(1) y by (auto simp: with_lock_def)
qed

lemma finish_lua [simp]: "finish e CtxLua w (Inr (reply, log)) = (w, Done reply)"
proof -
  have "fold (send_aof e CtxLua) log w = w" for w
    by (induction log arbitrary: w) (simp_all add: send_aof_def)
  then show ?thesis
    by (simp add: finish_def)
qed

lemma call_reachable:
  assumes w: "world_ok e w" "db < DB_COUNT" and k: "get_shard_index e k = Some i" "i \<in> dom (lua_sessions w)"
    and c: "single_key c" "get_key c = Some k" and cur: "slot_rel e (sview e db k w) cur" "accepts c cur"
    and r: "redis e c cur = (a, reply, log)"
  shows "\<exists>w'. execute e ev CtxLua (Some db) c w = Some (w', Done reply) \<and> called e db k a w w'"
proof -
  obtain l0 where l0: "lua_sessions w i = Some l0"
    using k(2) by blast
  have "i < num_shards e"
    using get_shard_index_bound [of e k] k(1) w(1) by (auto simp: world_ok_def)
  then have lock: "\<exists>w'. with_lock e CtxLua (Some db) acc k (exec_locked e c) w = Some (w', Inr (reply, log)) \<and> called e db k a w w'" for acc
    using c cur exec_locked_refines [of c k _ e cur] r
    by (intro with_lock_session [OF w k(1) _ l0]) (auto simp: handed_live)
  have run: "\<exists>w'. run_single e CtxLua (Some db) acc k c w = Some (w', Done reply) \<and> called e db k a w w'" for acc
  proof -
    obtain w' where "with_lock e CtxLua (Some db) acc k (exec_locked e c) w = Some (w', Inr (reply, log))" "called e db k a w w'"
      using lock by blast
    then show ?thesis
      by (simp add: run_single_def)
  qed
  show ?thesis
  proof (cases c)
    case (LPush k' vs)
    have "exec_lpush e k vs vs = exec_locked e (LPush k vs)"
      by (simp add: exec_locked_def fun_eq_iff)
    then show ?thesis
      using lock [of ForWrite] LPush c(2)
      by (auto simp: execute_def exec_lpush_cmd_def lpush_queue_phase_def lpush_store_phase_def get_key_def)
  next
    case (JsonSet k' p v)
    show ?thesis
    proof (cases "json_from_str e v")
      case None
      then show ?thesis
        using JsonSet c(2) r cur(1) w(1) by (auto simp: execute_def exec_json_set_cmd_def get_key_def called_def)
    next
      case (Some j)
      then show ?thesis
        using JsonSet c(2) run [of ForWrite] by (auto simp: execute_def exec_json_set_cmd_def get_key_def)
    qed
  qed (use run [of ForWrite] run [of ForRead] c in \<open>auto simp: execute_def get_key_def\<close>)
qed

lemma call_unreachable:
  assumes w: "world_ok e w" "db < DB_COUNT" and k: "get_shard_index e k = Some i" "lua_sessions w i = None"
    and c: "single_key c" "get_key c = Some k"
  shows "\<exists>er. execute e ev CtxLua (Some db) c w = Some (w, Done (Inl er))"
proof -
  have lock: "with_lock e CtxLua (Some db) acc k f w = Some (w, undeclared_key)" for acc f
    using k by (simp add: with_lock_def)
  have run: "\<exists>er. run_single e CtxLua (Some db) acc k c w = Some (w, Done (Inl er))" for acc
    using lock [of acc "exec_locked e c"] by (simp add: run_single_def finish_def undeclared_key_def)
  show ?thesis
  proof (cases c)
    case (LPush k' vs)
    then show ?thesis
      using lock [of ForWrite "exec_lpush e k vs vs"] c(2)
      by (auto simp: execute_def exec_lpush_cmd_def lpush_queue_phase_def lpush_store_phase_def get_key_def finish_def undeclared_key_def)
  next
    case (JsonSet k' p v)
    then show ?thesis
      using run [of ForWrite] c(2) by (auto simp: execute_def exec_json_set_cmd_def get_key_def)
  qed (use run [of ForWrite] run [of ForRead] c in \<open>auto simp: execute_def get_key_def\<close>)
qed

section \<open>A run\<close>

text \<open>The sessions of a world against the abstract store.\<close>

definition script_rel :: "'j env \<Rightarrow> nat \<Rightarrow> nat list \<Rightarrow> 'j world \<Rightarrow> (key \<Rightarrow> 'j aentry option) \<Rightarrow> bool" where
  "script_rel e db order w A \<longleftrightarrow>
     world_ok e w \<and> dom (lua_sessions w) = set order \<and> (\<forall>k. reachable e order k \<longrightarrow> slot_rel e (sview e db k w) (A k))"

lemma script_rel_called:
  assumes "script_rel e db order w A" "called e db k a w w'"
  shows "script_rel e db order w' (A(k := a))"
  using assms by (auto simp: script_rel_def called_def hidden_def)

text \<open>One phase of a call, on a key within reach and on one out of reach.\<close>

lemma phase_reachable:
  assumes rel: "script_rel e db order w A" and db: "db < DB_COUNT" and k: "reachable e order k"
    and imp: "\<And>l. locked_ok l \<Longrightarrow> slot_rel e (locked_tk (rt_of e) l k) (A k) \<Longrightarrow> slot_rel e (lview e l k) (A k) \<Longrightarrow>
      implements e k l (f l) (a, r)"
  shows "\<exists>w'. with_lock e CtxLua (Some db) acc k f w = Some (w', Inr r) \<and> script_rel e db order w' (A(k := a)) \<and> hidden e w w'"
proof -
  obtain i where i: "get_shard_index e k = Some i" "i \<in> set order"
    using k by (auto simp: reachable_def)
  have ok: "world_ok e w" "slot_rel e (sview e db k w) (A k)" and "i \<in> dom (lua_sessions w)"
    using rel k i by (auto simp: script_rel_def)
  then obtain l0 where l0: "lua_sessions w i = Some l0"
    by blast
  have "i < num_shards e"
    using get_shard_index_bound [of e k] i(1) ok(1) by (auto simp: world_ok_def)
  from with_lock_session [OF ok(1) db i(1) this l0, of f a r acc] imp ok(2)
  obtain w' where "with_lock e CtxLua (Some db) acc k f w = Some (w', Inr r)" "called e db k a w w'"
    by (auto simp: live_seen)
  then show ?thesis
    using script_rel_called [OF rel] by (auto simp: called_def)
qed

lemma phase_unreachable:
  assumes "script_rel e db order w A" "\<not> reachable e order k"
  shows "with_lock e CtxLua (Some db) acc k f w = Some (w, undeclared_key)"
proof -
  have "world_ok e w"
    using assms(1) by (simp add: script_rel_def)
  then obtain i where i: "get_shard_index e k = Some i"
    using get_shard_index_bound unfolding world_ok_def by blast
  moreover have "i \<notin> dom (lua_sessions w)"
    using assms i by (auto simp: script_rel_def reachable_def)
  ultimately show ?thesis
    by (cases "lua_sessions w i") (auto simp: with_lock_def)
qed

lemma mset_loop_script:
  assumes "db < DB_COUNT"
  shows "script_rel e db order w A \<Longrightarrow> amset e order kvs A = (A', ok) \<Longrightarrow>
    \<exists>w' r. mset_loop e CtxLua (Some db) kvs w = Some (w', r) \<and> (ok \<longrightarrow> r = Inr ()) \<and> (\<not> ok \<longrightarrow> isl r) \<and>
      script_rel e db order w' A' \<and> hidden e w w'"
proof (induction kvs arbitrary: w A)
  case (Cons x kvs)
  obtain k v where x: "x = (k, v)"
    by (cases x)
  show ?case
  proof (cases "reachable e order k")
    case True
    obtain w1 where w1: "with_lock e CtxLua (Some db) ForWrite k (\<lambda>l. map_option (\<lambda>l'. (l', ())) (exec_mset_one e k v l)) w = Some (w1, Inr ())"
      "script_rel e db order w1 (A(k := Some (AStr (stored_bytes e v), None)))" "hidden e w w1"
      using phase_reachable [OF Cons.prems(1) assms True exec_mset_one_implements] by blast
    then show ?thesis
      using Cons.IH [OF w1(2), of] Cons.prems(2) True hidden_trans [OF w1(3)] by (fastforce simp: x)
  next
    case False
    then show ?thesis
      using Cons.prems by (auto simp: x phase_unreachable [OF Cons.prems(1) False] undeclared_key_def)
  qed
qed simp

lemma mget_loop_script:
  assumes "db < DB_COUNT"
  shows "script_rel e db order w A \<Longrightarrow>
    \<exists>w' r. mget_loop e CtxLua (Some db) ks acc w = Some (w', r) \<and> script_rel e db order w' A \<and> hidden e w w' \<and>
      (if \<forall>k \<in> set ks. reachable e order k then r = Inr (Array (acc @ map (\<lambda>k. aget (A k)) ks)) else isl r)"
proof (induction ks arbitrary: w acc)
  case (Cons k ks)
  show ?case
  proof (cases "reachable e order k")
    case True
    obtain w1 where w1: "with_lock e CtxLua (Some db) ForRead k
        (\<lambda>l. map_option (\<lambda>(l', cur). (l', string_reply e cur)) (locked_select (rt_of e) k l)) w = Some (w1, Inr (aget (A k)))"
      "script_rel e db order w1 A" "hidden e w w1"
      using phase_reachable [OF Cons.prems(1) assms True mget_one_implements] locked_view_ok by fastforce
    then show ?thesis
      using Cons.IH [OF w1(2), of "acc @ [aget (A k)]"] True hidden_trans [OF w1(3)] by fastforce
  next
    case False
    then show ?thesis
      using Cons.prems by (auto simp: phase_unreachable [OF Cons.prems(1) False] undeclared_key_def)
  qed
qed simp

lemma call_refines:
  assumes rel: "script_rel e db order w A" and db: "db < DB_COUNT" and call: "acall e order c A = Some (A', f)"
  shows "\<exists>w' r. execute e ev CtxLua (Some db) c w = Some (w', Done r) \<and> script_rel e db order w' A' \<and> hidden e w w' \<and>
    (case f of None \<Rightarrow> isl r | Some fr \<Rightarrow> r = Inr fr)"
proof (cases "single_key c")
  case True
  then obtain k where k: "get_key c = Some k"
    by (cases c) (auto simp: get_key_def)
  have ok: "world_ok e w"
    using rel by (simp add: script_rel_def)
  obtain i where i: "get_shard_index e k = Some i"
    using get_shard_index_bound ok unfolding world_ok_def by blast
  show ?thesis
  proof (cases "reachable e order k")
    case False
    then have "lua_sessions w i = None"
      using rel i by (auto simp: reachable_def script_rel_def)
    from call_unreachable [OF ok db i this True k, of ev] show ?thesis
      using call rel False k by (auto simp: acall_single [OF True])
  next
    case reach: True
    obtain a reply log where r: "redis e c (A k) = (a, reply, log)"
      by (cases "redis e c (A k)")
    have acc: "accepts c (A k)" and res: "A' = A(k := a)" "f = (case reply of Inl _ \<Rightarrow> None | Inr f \<Rightarrow> Some f)"
      using call reach k r by (auto simp: acall_single [OF True] split: if_splits)
    have "i \<in> dom (lua_sessions w)" "slot_rel e (sview e db k w) (A k)"
      using rel reach i by (auto simp: reachable_def script_rel_def)
    from call_reachable [OF ok db i this(1) True k this(2) acc r, of ev] obtain w1 where
      w1: "execute e ev CtxLua (Some db) c w = Some (w1, Done reply)" "called e db k a w w1"
      by blast
    then show ?thesis
      using script_rel_called [OF rel] res by (cases reply) (auto simp: called_def)
  qed
next
  case False
  show ?thesis
  proof (cases c)
    case (MSet kvs)
    obtain A1 ok where m: "amset e order (sort_key fst kvs) A = (A1, ok)"
      by force
    from mset_loop_script [OF db rel m] obtain w' r where
      "mset_loop e CtxLua (Some db) (sort_key fst kvs) w = Some (w', r)" "ok \<longrightarrow> r = Inr ()" "\<not> ok \<longrightarrow> isl r"
      "script_rel e db order w' A1" "hidden e w w'"
      by blast
    then show ?thesis
      using call MSet m by (cases r) (auto simp: acall_def execute_def exec_mset_def finish_def send_aof_def split: if_splits)
  next
    case (MGet ks)
    from mget_loop_script [OF db rel, of ks "[]"] show ?thesis
      using call MGet by (auto simp: acall_def execute_def exec_mget_def split: if_splits)
  next
    case (BLPop k t)
    show ?thesis
    proof (cases "reachable e order k")
      case True
      obtain a ph where s: "blpop_spec (A k) = (a, ph)"
        by force
      from phase_reachable [OF rel db True exec_blpop_implements [where cur = "A k", unfolded s], of ForWrite] obtain w' where
        "with_lock e CtxLua (Some db) ForWrite k (exec_blpop e k) w = Some (w', Inr ph)" "script_rel e db order w' (A(k := a))" "hidden e w w'"
        by blast
      then show ?thesis
        using call BLPop True s by (cases ph) (auto simp: acall_def execute_def exec_blpop_cmd_def blpop_locked_def send_aof_def)
    next
      case False
      then show ?thesis
        using call BLPop rel by (auto simp: acall_def execute_def exec_blpop_cmd_def blpop_locked_def phase_unreachable [OF rel False] undeclared_key_def)
    qed
  qed (use False call rel in \<open>auto simp: acall_def execute_def get_key_def\<close>)
qed

lemma redis_call_refines:
  assumes rel: "script_rel e db order w A" and db: "db < DB_COUNT"
    and run: "ascript e order (Call args k) A buf = Some res"
  shows "\<exists>w1 A1 buf1 r. redis_call e (Some db) args (w, buf) = Some ((w1, buf1), r) \<and> script_rel e db order w1 A1 \<and> hidden e w w1 \<and>
    ascript e order (k r) A1 buf1 = Some res"
proof (cases "those (map (lua_value_to_bulk_frame (ext_of e)) args)")
  case None
  then show ?thesis
    using assms by (auto simp: redis_call_def)
next
  case frames: (Some frames)
  show ?thesis
  proof (cases "try_from (ext_of e) (Array frames)")
    case (Inl er)
    then show ?thesis
      using assms frames by (auto simp: redis_call_def split: if_splits)
  next
    case (Inr c)
    obtain A1 f where call: "acall e order c A = Some (A1, f)"
      using run frames Inr by (auto split: option.splits)
    from call_refines [OF rel db this, of "\<lambda>_ _ _ _ _. None"] obtain w1 r where
      "execute e (\<lambda>_ _ _ _ _. None) CtxLua (Some db) c w = Some (w1, Done r)" "script_rel e db order w1 A1" "hidden e w w1"
      "case f of None \<Rightarrow> isl r | Some fr \<Rightarrow> r = Inr fr"
      by blast
    then show ?thesis
      using run frames Inr call by (cases r; cases f) (auto simp: redis_call_def)
  qed
qed

lemma run_script_refines:
  assumes "db < DB_COUNT"
  shows "script_rel e db order w A \<Longrightarrow> ascript e order s A buf = Some (A', buf', v) \<Longrightarrow>
    \<exists>w'. run_script e (Some db) s (w, buf) = Some ((w', buf'), v) \<and> script_rel e db order w' A' \<and> hidden e w w'"
proof (induction s arbitrary: w A buf)
  case (Call args k)
  from redis_call_refines [OF Call.prems(1) assms Call.prems(2)] obtain w1 A1 buf1 r where
    1: "redis_call e (Some db) args (w, buf) = Some ((w1, buf1), r)" "script_rel e db order w1 A1" "hidden e w w1"
    "ascript e order (k r) A1 buf1 = Some (A', buf', v)"
    by blast
  then show ?case
    using Call.IH [OF _ 1(2,4)] hidden_trans [OF 1(3)] by fastforce
qed auto

section \<open>Locking\<close>

definition opened :: "nat \<Rightarrow> nat list \<Rightarrow> 'j world \<Rightarrow> 'j world" where
  "opened db order w = w\<lparr>lua_sessions := (\<lambda>i. if i \<in> set order
     then Some (WriteLua (LuaCacheNode_new (Writeguard (global_memory w, store w ! db ! i)))) else None)\<rparr>"

lemma lock_order_bound:
  assumes "lock_order e keys = Some order" "0 < num_shards e"
  shows "\<forall>i \<in> set order. i < num_shards e"
proof -
  obtain ids where "those (map (get_shard_index e) keys) = Some ids" "set order = set ids"
    using assms(1) by (auto simp: lock_order_def)
  moreover have "those (map (get_shard_index e) keys) = Some ids \<Longrightarrow> \<forall>i \<in> set ids. i < num_shards e" for ids
    using assms(2) by (induction keys arbitrary: ids) (auto simp: get_shard_index_def split: option.splits if_splits)
  ultimately show ?thesis
    by simp
qed

lemma init_opened:
  assumes w: "world_ok e w" "db < DB_COUNT" and order: "lock_order e keys = Some order"
  shows "init_lua_pre e (Some db) keys w = Some (opened db order w, order)"
proof -
  let ?new = "\<lambda>i. Some (WriteLua (LuaCacheNode_new (Writeguard (global_memory w, store w ! db ! i))))"
  have "ofold (lock_write_lua (Some db)) js (w\<lparr>lua_sessions := S\<rparr>) =
      Some (w\<lparr>lua_sessions := (\<lambda>i. if i \<in> set js then ?new i else S i)\<rparr>)" if "\<forall>i \<in> set js. i < num_shards e" for js S
    using that
  proof (induction js arbitrary: S)
    case (Cons j js)
    then have "find_shard (Some db) j (w\<lparr>lua_sessions := S\<rparr>) = Some (db, global_memory w, store w ! db ! j)"
      using world_ok_shard(1) [OF w, of j] by (simp add: find_shard_def)
    then have "lock_write_lua (Some db) j (w\<lparr>lua_sessions := S\<rparr>) = Some (w\<lparr>lua_sessions := S(j := ?new j)\<rparr>)"
      by (simp add: lock_write_lua_def)
    moreover have "(\<lambda>i. if i \<in> set js then ?new i else (S(j := ?new j)) i) = (\<lambda>i. if i \<in> set (j # js) then ?new i else S i)"
      by auto
    ultimately show ?case
      using Cons.IH [of "S(j := ?new j)"] Cons.prems by (simp del: fun_upd_apply)
  qed simp
  from this [of order Map.empty] show ?thesis
    using lock_order_bound [OF order] w(1) order by (simp add: init_lua_pre_def opened_def world_ok_def)
qed

lemma opened_rel:
  assumes "world_ok e w" "\<forall>k. reachable e order k \<longrightarrow> slot_rel e (vpeek e db k w) (A k)"
  shows "script_rel e db order (opened db order w) A" "vpeek e d k (opened db order w) = vpeek e d k w"
proof -
  show same: "vpeek e d k (opened db order w) = vpeek e d k w" for d k
    by (simp add: vpeek_def opened_def split: option.splits)
  have "world_ok e (opened db order w)"
    using assms(1) by (auto simp: world_ok_def opened_def ran_def session_ok_def LuaCacheNode_new_def split: if_splits)
  moreover have "dom (lua_sessions (opened db order w)) = set order"
    by (auto simp: opened_def split: if_splits)
  moreover have "sview e db k (opened db order w) = vpeek e db k w" if "reachable e order k" for k
    using that same [of db k] by (auto simp: sview_def session_changes_def reachable_def opened_def LuaCacheNode_new_def)
  ultimately show "script_rel e db order (opened db order w) A"
    using assms(2) by (simp add: script_rel_def)
qed

section \<open>Commit\<close>

lemma commit_one:
  assumes w: "world_ok e w" "db < DB_COUNT" "i < num_shards e" and l0: "lua_sessions w i = Some l0" and L: "drains_ok L"
  shows "\<exists>g n. commit_session L (Some db) i w = Some (put_shard db i (g, n) w) \<and> world_ok e (put_shard db i (g, n) w) \<and>
    db_store n = merged (session_changes w i) (db_store (store w ! db ! i))"
proof -
  let ?n = "store w ! db ! i" and ?g = "global_memory w"
  note sh = world_ok_shard [OF w]
  have "session_ok l0"
    using w(1) l0 by (auto simp: world_ok_def ran_def)
  then obtain x s where x: "l0 = WriteLua x" "lua_db x = Writeguard s" "finite (dom (differ_map x))"
    "\<forall>k en. differ_map x k = Some (Update en) \<longrightarrow> val_ok (data en)"
    by (cases l0) (auto simp: session_ok_def)
  let ?x = "x\<lparr>lua_db := Writeguard (?g, ?n)\<rparr>"
  have "lua_ok ?x"
    using sh(2) x(3) by (simp add: lua_ok_def shard_ok_def)
  moreover have "drain_order (drain_keys L l0) ?x"
    using L x(1,3) by (simp add: drains_ok_def drain_order_def)
  ultimately obtain y where y: "lua_commit (drain_keys L l0) ?x = Some y" "lua_ok y" "lua_acct y = lua_acct ?x"
    "direct_tk (lua_db y) = merged (differ_map x) (db_store ?n)"
    using lua_commit_spec [of ?x "drain_keys L l0"] by (auto simp: direct_tk_def)
  obtain g n where n: "lua_db y = Writeguard (g, n)" "node_ok n"
    using y(2) by (auto simp: lua_ok_def elim: direct_okE)
  have tk: "db_store n = merged (differ_map x) (db_store ?n)"
    using y(4) n(1) by (simp add: direct_tk_def)
  have "vals_ok (db_store n)"
    using sh(2) x(4) unfolding tk by (auto simp: vals_ok_def merged_def shard_ok_def split: option.splits ChangeOp.splits)
  moreover have "g - approx_memory n = ?g - approx_memory ?n"
    using y(3) n(1) by (simp add: lua_acct_def direct_acct_def)
  ultimately have "world_ok e (put_shard db i (g, n) w)"
    using n(2) by (intro world_ok_put [OF w]) (simp_all add: shard_ok_def)
  moreover have "commit_session L (Some db) i w = Some (put_shard db i (g, n) w)"
    using l0 sh(1) x(1,2) y(1) n(1) by (simp add: commit_session_def)
  ultimately show ?thesis
    using tk l0 x(1) by (auto simp: session_changes_def)
qed

lemma commit_all:
  assumes db: "db < DB_COUNT" and L: "drains_ok L"
  shows "world_ok e w \<Longrightarrow> distinct js \<Longrightarrow> set js \<subseteq> dom (lua_sessions w) \<Longrightarrow> \<forall>i \<in> set js. i < num_shards e \<Longrightarrow>
    \<exists>w'. ofold (commit_session L (Some db)) js w = Some w' \<and> world_ok e w' \<and> lua_sessions w' = lua_sessions w \<and>
      aof_sent w' = aof_sent w \<and>
      (\<forall>d i. db_store (store w' ! d ! i) =
         (if d = db \<and> i \<in> set js then merged (session_changes w i) (db_store (store w ! d ! i)) else db_store (store w ! d ! i)))"
proof (induction js arbitrary: w)
  case (Cons j js)
  obtain l0 where l0: "lua_sessions w j = Some l0" and j: "j < num_shards e" "j \<notin> set js"
    using Cons.prems by auto
  from commit_one [OF Cons.prems(1) db j(1) l0 L] obtain g n where
    1: "commit_session L (Some db) j w = Some (put_shard db j (g, n) w)" "world_ok e (put_shard db j (g, n) w)"
    "db_store n = merged (session_changes w j) (db_store (store w ! db ! j))"
    by blast
  let ?w = "put_shard db j (g, n) w"
  have len: "db < length (store w)" "j < length (store w ! db)"
    using world_ok_lengths [OF Cons.prems(1) db] j(1) by auto
  have same: "lua_sessions ?w = lua_sessions w" "session_changes ?w = session_changes w" "aof_sent ?w = aof_sent w"
    by (simp_all add: put_shard_def session_changes_def fun_eq_iff)
  obtain w' where w': "ofold (commit_session L (Some db)) js ?w = Some w'" "world_ok e w'" "lua_sessions w' = lua_sessions ?w"
    "aof_sent w' = aof_sent ?w"
    "\<forall>d i. db_store (store w' ! d ! i) =
       (if d = db \<and> i \<in> set js then merged (session_changes ?w i) (db_store (store ?w ! d ! i)) else db_store (store ?w ! d ! i))"
    using Cons.IH [OF 1(2)] Cons.prems same(1) by auto
  have "db_store (store w' ! d ! i) =
      (if d = db \<and> i \<in> set (j # js) then merged (session_changes w i) (db_store (store w ! d ! i)) else db_store (store w ! d ! i))" for d i
    using w'(5) 1(3) same(2) j(2) len by (auto simp: put_shard_def nth_list_update)
  then show ?case
    using 1(1) w'(1-4) same by auto
qed auto

definition live :: "'j env \<Rightarrow> 'j ValueEntry option \<Rightarrow> 'j ValueEntry option" where
  "live e x = (case x of None \<Rightarrow> None | Some en \<Rightarrow> if expired (rt_of e) en then None else Some en)"

lemma vpeek_merged:
  assumes "get_shard_index e k = Some i" "db_store (store w' ! db ! i) = merged (session_changes w i) (db_store (store w ! db ! i))"
  shows "vpeek e db k w' = live e (sview e db k w)"
  using assms
  by (auto simp: vpeek_def sview_def live_def merged_def seen_of_def unexpired_def split: option.splits ChangeOp.splits if_splits)

lemma clear_sessions:
  "world_ok e w \<Longrightarrow> world_ok e (w\<lparr>lua_sessions := Map.empty\<rparr>)" "vpeek e d k (w\<lparr>lua_sessions := S\<rparr>) = vpeek e d k w"
  by (simp_all add: world_ok_def vpeek_def split: option.splits)

text \<open>The end of a script that returned a reply: log, then commit.\<close>

lemma commit_script:
  assumes rel: "script_rel e db order w A" and db: "db < DB_COUNT" and L: "drains_ok L"
    and order: "distinct order" "\<forall>i \<in> set order. i < num_shards e"
  shows "\<exists>w'. ofold (commit_session L (Some db)) (drain_sessions L order) (if log = [] then w else send_aof e CtxNormal (MultiGroup log) w) = Some w' \<and>
    world_ok e w' \<and> (\<forall>k. reachable e order k \<longrightarrow> (\<exists>x. slot_rel e x (A k) \<and> vpeek e db k w' = live e x)) \<and>
    (\<forall>d k. d \<noteq> db \<or> \<not> reachable e order k \<longrightarrow> vpeek e d k w' = vpeek e d k w) \<and>
    aof_sent w' = aof_sent w @ log_bytes e CtxNormal (if log = [] then [] else [MultiGroup log])"
proof -
  let ?w = "if log = [] then w else send_aof e CtxNormal (MultiGroup log) w" and ?js = "drain_sessions L order"
  have w: "same_store w ?w" "aof_sent ?w = aof_sent w @ log_bytes e CtxNormal (if log = [] then [] else [MultiGroup log])"
    using send_aof_effect [of w e CtxNormal "MultiGroup log"] by (auto simp: log_bytes_def)
  note same = same_storeD [OF w(1)]
  have ok: "world_ok e ?w" and dom: "dom (lua_sessions ?w) = set order"
    using rel same(7) by (simp_all add: script_rel_def)
  have js: "distinct ?js" "set ?js = set order"
    using L order(1) by (auto simp: drains_ok_def)
  obtain w' where w': "ofold (commit_session L (Some db)) ?js ?w = Some w'" "world_ok e w'" "aof_sent w' = aof_sent ?w"
    "\<forall>d i. db_store (store w' ! d ! i) =
       (if d = db \<and> i \<in> set ?js then merged (session_changes ?w i) (db_store (store ?w ! d ! i)) else db_store (store ?w ! d ! i))"
    using commit_all [OF db L ok js(1)] js(2) dom order(2) by auto
  have changes: "session_changes ?w = session_changes w"
    using same(7) by (simp add: session_changes_def fun_eq_iff)
  have "\<exists>x. slot_rel e x (A k) \<and> vpeek e db k w' = live e x" if k: "reachable e order k" for k
  proof -
    obtain i where i: "get_shard_index e k = Some i" "i \<in> set order"
      using k by (auto simp: reachable_def)
    then have "vpeek e db k w' = live e (sview e db k w)"
      using w'(4) js(2) same(1) changes by (intro vpeek_merged [OF i(1)]) auto
    then show ?thesis
      using rel k by (auto simp: script_rel_def)
  qed
  moreover have "vpeek e d k w' = vpeek e d k w" if "d \<noteq> db \<or> \<not> reachable e order k" for d k
    using that w'(4) js(2) same(1) by (auto simp: vpeek_def reachable_def split: option.splits)
  ultimately show ?thesis
    using w'(1-3) w(2) by auto
qed

text \<open>The run of a script between locking and its end.\<close>

lemma script_runs:
  assumes "world_ok e w" "db < DB_COUNT" "lock_order e keys = Some order"
    and "\<forall>k. reachable e order k \<longrightarrow> slot_rel e (vpeek e db k w) (A k)"
    and "ascript e order s A [] = Some (A', log, v)"
  shows "\<exists>w0 w1. init_lua_pre e (Some db) keys w = Some (w0, order) \<and> run_script e (Some db) s (w0, []) = Some ((w1, log), v) \<and>
    script_rel e db order w1 A' \<and> (\<forall>d k. vpeek e d k w1 = vpeek e d k w) \<and> aof_sent w1 = aof_sent w"
proof -
  let ?w0 = "opened db order w"
  note rel0 = opened_rel [OF assms(1,4)]
  obtain w1 where w1: "run_script e (Some db) s (?w0, []) = Some ((w1, log), v)" "script_rel e db order w1 A'" "hidden e ?w0 w1"
    using run_script_refines [OF assms(2) rel0(1) assms(5)] by blast
  then show ?thesis
    using init_opened [OF assms(1-3)] rel0(2) same_rest_log [of ?w0 w1] by (auto simp: hidden_def opened_def)
qed

lemma script_rolls_back:
  assumes "world_ok e w" "db < DB_COUNT" "lock_order e keys = Some order"
    and "\<forall>k. reachable e order k \<longrightarrow> slot_rel e (vpeek e db k w) (A k)"
    and "ascript e order (load_script L script keys args) A [] = Some (A', log, v)"
    and "Option.bind v (from_lua (lua_tostring L)) = None"
  shows "\<exists>w'. lua_engine e L (Some db) script keys args w = Some (w', script_error) \<and> world_ok e w' \<and> lua_sessions w' = Map.empty \<and>
    (\<forall>d k. vpeek e d k w' = vpeek e d k w) \<and> aof_sent w' = aof_sent w"
proof -
  obtain w0 w1 where w1: "init_lua_pre e (Some db) keys w = Some (w0, order)"
    "run_script e (Some db) (load_script L script keys args) (w0, []) = Some ((w1, log), v)"
    "script_rel e db order w1 A'" "\<forall>d k. vpeek e d k w1 = vpeek e d k w" "aof_sent w1 = aof_sent w"
    using script_runs [OF assms(1-5)] by blast
  then have "lua_engine e L (Some db) script keys args w = Some (w1\<lparr>lua_sessions := Map.empty\<rparr>, script_error)"
    using assms(6) by (simp add: lua_engine_def lua_vm_redis_call_def)
  then show ?thesis
    using w1(3-5) clear_sessions(1) [of e w1] by (simp add: clear_sessions(2) script_rel_def)
qed

lemma script_commits:
  assumes "world_ok e w" "db < DB_COUNT" "drains_ok L" "lock_order e keys = Some order"
    and "\<forall>k. reachable e order k \<longrightarrow> slot_rel e (vpeek e db k w) (A k)"
    and "ascript e order (load_script L script keys args) A [] = Some (A', log, v)"
    and "Option.bind v (from_lua (lua_tostring L)) = Some reply"
  shows "\<exists>w'. lua_engine e L (Some db) script keys args w = Some (w', Inr reply) \<and> world_ok e w' \<and> lua_sessions w' = Map.empty \<and>
    (\<forall>k. reachable e order k \<longrightarrow> (\<exists>x. slot_rel e x (A' k) \<and> vpeek e db k w' = live e x)) \<and>
    (\<forall>d k. d \<noteq> db \<or> \<not> reachable e order k \<longrightarrow> vpeek e d k w' = vpeek e d k w) \<and>
    aof_sent w' = aof_sent w @ log_bytes e CtxNormal (if log = [] then [] else [MultiGroup log])"
proof -
  obtain w0 w1 where w1: "init_lua_pre e (Some db) keys w = Some (w0, order)"
    "run_script e (Some db) (load_script L script keys args) (w0, []) = Some ((w1, log), v)"
    "script_rel e db order w1 A'" "\<forall>d k. vpeek e d k w1 = vpeek e d k w" "aof_sent w1 = aof_sent w"
    using script_runs [OF assms(1,2,4-6)] by blast
  have "distinct order"
    using lock_order_strict [OF assms(4)] by (simp add: strict_sorted_iff)
  moreover have "\<forall>i \<in> set order. i < num_shards e"
    using lock_order_bound [OF assms(4)] assms(1) by (simp add: world_ok_def)
  ultimately obtain w2 where w2:
    "ofold (commit_session L (Some db)) (drain_sessions L order) (if log = [] then w1 else send_aof e CtxNormal (MultiGroup log) w1) = Some w2"
    "world_ok e w2" "\<forall>k. reachable e order k \<longrightarrow> (\<exists>x. slot_rel e x (A' k) \<and> vpeek e db k w2 = live e x)"
    "\<forall>d k. d \<noteq> db \<or> \<not> reachable e order k \<longrightarrow> vpeek e d k w2 = vpeek e d k w1"
    "aof_sent w2 = aof_sent w1 @ log_bytes e CtxNormal (if log = [] then [] else [MultiGroup log])"
    using commit_script [OF w1(3) assms(2,3)] by blast
  have "lua_engine e L (Some db) script keys args w = Some (w2\<lparr>lua_sessions := Map.empty\<rparr>, Inr reply)"
    using w1(1,2) assms(7) w2(1) by (simp add: lua_engine_def lua_vm_redis_call_def)
  then show ?thesis
    using w2(2-5) w1(4,5) clear_sessions(1) [of e w2] by (simp add: clear_sessions(2))
qed

text \<open>An \<^verbatim>\<open>MSET\<close> that meets a key out of reach fails after it has written the keys before it. A script that catches
  the error and goes on commits these writes, but the call is not in its log.\<close>

lemma failed_mset_keeps_writes:
  assumes "reachable e order k" "\<not> reachable e order k'" "k < k'"
  shows "acall e order (MSet [(k', v'), (k, v)]) A = Some (A(k := Some (AStr (stored_bytes e v), None)), None)"
  using assms by (auto simp: acall_def dest: leD)

section \<open>An example\<close>

text \<open>The store after \<open>set_nx_script\<close> on an empty one.\<close>

definition demo_after :: "key \<Rightarrow> unit aentry option" where
  "demo_after = [''k'' \<mapsto> (AStr (stored_bytes demo_env ''new''), None)]"

lemma demo_script:
  shows "lock_order demo_env [''k''] = Some [1]" "reachable demo_env [1] ''k''"
    "\<forall>k. reachable demo_env [1] k \<longrightarrow> slot_rel demo_env (vpeek demo_env 0 k (Storage_new demo_env LRU)) None"
    and demo_script_call: "those (map (lua_value_to_bulk_frame demo_ext) [LuaStr ''SET'', LuaStr ''k'', LuaStr ''new'', LuaStr ''NX'']) =
      Some [Bulk ''SET'', Bulk ''k'', Bulk ''new'', Bulk ''NX'']"
    "try_from demo_ext (Array [Bulk ''SET'', Bulk ''k'', Bulk ''new'', Bulk ''NX'']) = Inr (Set ''k'' ''new'' None (Some NX))"
    "acall demo_env [1] (Set ''k'' ''new'' None (Some NX)) Map.empty = Some (demo_after, Some (Simple ''OK''))"
    and demo_script_result: "ascript demo_env [1] (load_script demo_lua ''..'' [''k''] []) Map.empty [] =
      Some (demo_after, [Set ''k'' ''new'' None (Some NX)], Some (into_lua (Simple ''OK'')))"
    "Option.bind (Some (into_lua (Simple ''OK''))) (from_lua (lua_tostring demo_lua)) = Some (Simple ''OK'')"
proof -
  have shard: "get_shard_index demo_env ''k'' = Some 1"
    by (simp add: get_shard_index_def)
  then show "lock_order demo_env [''k''] = Some [1]" and reach: "reachable demo_env [1] ''k''"
    by (simp_all add: lock_order_def reachable_def)
  have "slot_rel demo_env (vpeek demo_env 0 k (Storage_new demo_env LRU)) None" for k
    using peek_new [of 0 k LRU] by (auto simp: vpeek_def peek_def seen_of_def DB_COUNT_def split: option.splits)
  then show "\<forall>k. reachable demo_env [1] k \<longrightarrow> slot_rel demo_env (vpeek demo_env 0 k (Storage_new demo_env LRU)) None"
    by blast
  show frames: "those (map (lua_value_to_bulk_frame demo_ext) [LuaStr ''SET'', LuaStr ''k'', LuaStr ''new'', LuaStr ''NX'']) =
      Some [Bulk ''SET'', Bulk ''k'', Bulk ''new'', Bulk ''NX'']"
    by (simp add: lua_value_to_bulk_frame_def)
  have "eq_ignore_ascii_case ''NX'' ''NX''" "\<not> eq_ignore_ascii_case ''NX'' ''PX''" "\<not> eq_ignore_ascii_case ''NX'' ''EX''"
    "\<not> eq_ignore_ascii_case ''NX'' ''EXAT''" "\<not> eq_ignore_ascii_case ''NX'' ''PXAT''"
    by code_simp+
  moreover have "utf8_valid ''k''"
    by (simp add: ascii_utf8_valid nat_of_char_def)
  ultimately show cmd: "try_from demo_ext (Array [Bulk ''SET'', Bulk ''k'', Bulk ''new'', Bulk ''NX'']) = Inr (Set ''k'' ''new'' None (Some NX))"
    by (simp add: try_from_command [OF demo_ext_ok] dispatch_def command_names_def parse_set_def)
  show call: "acall demo_env [1] (Set ''k'' ''new'' None (Some NX)) Map.empty = Some (demo_after, Some (Simple ''OK''))"
    using reach by (simp add: acall_def get_key_def set_refused_def demo_after_def)
  show "ascript demo_env [1] (load_script demo_lua ''..'' [''k''] []) Map.empty [] =
      Some (demo_after, [Set ''k'' ''new'' None (Some NX)], Some (into_lua (Simple ''OK'')))"
    using cmd frames call by (simp add: demo_lua_def set_nx_script_def del: those.simps list.map)
  show "Option.bind (Some (into_lua (Simple ''OK''))) (from_lua (lua_tostring demo_lua)) = Some (Simple ''OK'')"
    using from_into_lua [of "Simple ''OK''" "lua_tostring demo_lua"] by (simp add: ascii_utf8_valid nat_of_char_def del: into_lua.simps from_lua.simps)
qed

section \<open>Properties\<close>

text \<open>Property C4: scripts are transactions. Take a sound store whose visible entries on the shards a script locks
  represent an abstract store, and let the abstract run of the script on it, call by call, end in a new abstract
  store, a list of executed commands and a returned value. Then the engine does not panic and leaves a sound store with no
  lock held. If the script failed, or its value is not a reply, the caller gets the error, nothing visible has
  changed in any database and nothing was logged: the writes are rolled back. Otherwise the caller gets the
  reply, the visible entries of every key on a locked shard represent the new abstract store, no other key of
  any database changed, and the log received all executed commands as one transaction group.\<close>

theorem scripts_are_atomic:
  assumes "world_ok e w" and "db < DB_COUNT" and "drains_ok L" and "lock_order e keys = Some order"
    and "\<forall>k. reachable e order k \<longrightarrow> slot_rel e (vpeek e db k w) (A k)"
    and "ascript e order (load_script L script keys args) A [] = Some (A', log, v)"
  shows "\<exists>w' r. lua_engine e L (Some db) script keys args w = Some (w', r) \<and> world_ok e w' \<and> lua_sessions w' = Map.empty \<and>
    (case Option.bind v (from_lua (lua_tostring L)) of
       None \<Rightarrow> r = script_error \<and> (\<forall>d k. vpeek e d k w' = vpeek e d k w) \<and> aof_sent w' = aof_sent w
     | Some reply \<Rightarrow>
         r = Inr reply \<and>
         (\<forall>k. reachable e order k \<longrightarrow> (\<exists>x. slot_rel e x (A' k) \<and> vpeek e db k w' = live e x)) \<and>
         (\<forall>d k. d \<noteq> db \<or> \<not> reachable e order k \<longrightarrow> vpeek e d k w' = vpeek e d k w) \<and>
         aof_sent w' = aof_sent w @ log_bytes e CtxNormal (if log = [] then [] else [MultiGroup log]))"
proof (cases "Option.bind v (from_lua (lua_tostring L))")
  case None
  then show ?thesis
    using script_rolls_back [OF assms(1,2,4-6)] by auto
next
  case (Some reply)
  then show ?thesis
    using script_commits [OF assms] by auto
qed

theorem scripts_are_atomic_witness:
  "\<exists>w' x. lua_engine demo_env demo_lua (Some 0) ''..'' [''k''] [] (Storage_new demo_env LRU) = Some (w', Inr (Simple ''OK'')) \<and>
     slot_rel demo_env x (Some (AStr (stored_bytes demo_env ''new''), None)) \<and> vpeek demo_env 0 ''k'' w' = live demo_env x \<and>
     aof_sent w' = log_bytes demo_env CtxNormal [MultiGroup [Set ''k'' ''new'' None (Some NX)]]"
proof -
  have "aof_sent (Storage_new demo_env LRU) = []" "0 < DB_COUNT"
    by (simp_all add: Storage_new_def DB_COUNT_def)
  then obtain w' where w': "lua_engine demo_env demo_lua (Some 0) ''..'' [''k''] [] (Storage_new demo_env LRU) = Some (w', Inr (Simple ''OK''))"
    "\<forall>k. reachable demo_env [1] k \<longrightarrow> (\<exists>x. slot_rel demo_env x (demo_after k) \<and> vpeek demo_env 0 k w' = live demo_env x)"
    "aof_sent w' = log_bytes demo_env CtxNormal [MultiGroup [Set ''k'' ''new'' None (Some NX)]]"
    using scripts_are_atomic [OF demo_world_ok _ demo_lua_ok demo_script(1,3) demo_script_result(1), unfolded demo_script_result(2)] by auto
  show ?thesis
    using w'(1,3) w'(2) [rule_format, OF demo_script(2)] by (auto simp: demo_after_def)
qed

end
