(* ===== verification/Aof_Recovery.thy ===== *)
theory Aof_Recovery
  imports Storage
begin

text \<open>
  The append-only file: the writer task and the recovery at startup, \<^verbatim>\<open>src/src/core_aof.rs\<close>.

  The file is its content, a byte list. The writer takes messages off its channel in batches,
  appends them, hands them to the operating system and, by policy, forces them to disk; file
  operations succeed. Recovery reads the file into a buffer of \<open>FILE_DATA_LEN\<close> bytes, executes every
  complete command of what it holds, moves the incomplete rest to the front of the buffer and
  reads on. Of the buffer only its first \<^verbatim>\<open>tail_file_length\<close> bytes are looked at again: \<open>held\<close>. A
  read returns at least one byte when there is room and the file has not ended, and possibly fewer
  than asked for: \<open>rd\<close> gives the number offered at each position. The progress bar is output only and
  not modelled. \<open>None\<close> is a panic.
\<close>

section \<open>The writer\<close>

datatype AofFsync = Always | EverySec | No

record aof_file =
  content :: bytes
  synced :: nat

definition BATCH :: nat where
  "BATCH = 5000"

text \<open>One turn of the receiving branch: the message that woke the task and what is queued behind it, up
  to a full batch; the messages written, then the rest of the channel.\<close>

definition take_batch :: "bytes list \<Rightarrow> bytes list \<times> bytes list" where
  "take_batch chan = (take BATCH chan, drop BATCH chan)"

definition write_messages :: "bytes list \<Rightarrow> aof_file \<Rightarrow> aof_file" where
  "write_messages buffer f = fold (\<lambda>msg f. f\<lparr>content := content f @ msg\<rparr>) buffer f"

definition sync_data :: "aof_file \<Rightarrow> aof_file" where
  "sync_data f = f\<lparr>synced := length (content f)\<rparr>"

definition writer_receive :: "AofFsync \<Rightarrow> bytes list \<Rightarrow> aof_file \<Rightarrow> bytes list \<times> aof_file" where
  "writer_receive policy chan f =
     (case take_batch chan of (buffer, chan') \<Rightarrow>
        let f1 = write_messages buffer f in (chan', if policy = Always then sync_data f1 else f1))"

definition writer_tick :: "AofFsync \<Rightarrow> aof_file \<Rightarrow> aof_file" where
  "writer_tick policy f = (if policy = EverySec then sync_data f else f)"

definition writer_close :: "bytes list \<Rightarrow> aof_file \<Rightarrow> aof_file" where
  "writer_close chan f = sync_data (write_messages chan f)"

text \<open>The task among its surroundings: senders put messages on the channel, the task takes one of its
  branches. The loop ends when the channel is closed and empty.\<close>

record writer =
  chan :: "bytes list"
  disk :: aof_file
  sent :: "bytes list"

inductive writer_step :: "AofFsync \<Rightarrow> writer \<Rightarrow> writer \<Rightarrow> bool" for policy where
  send: "writer_step policy s (s\<lparr>chan := chan s @ [msg], sent := sent s @ [msg]\<rparr>)"
| receive: "chan s \<noteq> [] \<Longrightarrow> writer_receive policy (chan s) (disk s) = (c, f) \<Longrightarrow>
    writer_step policy s (s\<lparr>chan := c, disk := f\<rparr>)"
| tick: "writer_step policy s (s\<lparr>disk := writer_tick policy (disk s)\<rparr>)"

lemma write_messages_spec [simp]:
  "content (write_messages ms f) = content f @ concat ms" "synced (write_messages ms f) = synced f"
  by (induction ms arbitrary: f) (simp_all add: write_messages_def)

text \<open>What was in the file at the start, then the messages sent, as far as they left the channel; never
  more on disk than written, and all of it under \<^verbatim>\<open>Always\<close>.\<close>

definition writer_inv :: "AofFsync \<Rightarrow> bytes \<Rightarrow> writer \<Rightarrow> bool" where
  "writer_inv policy old s \<longleftrightarrow>
     content (disk s) @ concat (chan s) = old @ concat (sent s) \<and> synced (disk s) \<le> length (content (disk s)) \<and>
     (policy = Always \<longrightarrow> synced (disk s) = length (content (disk s)))"

lemma writer_step_inv:
  assumes "writer_step policy s s'" "writer_inv policy old s"
  shows "writer_inv policy old s'"
  using assms(1)
proof cases
  case (receive c f)
  then show ?thesis
    using assms(2) concat_append [of "take BATCH (chan s)" "drop BATCH (chan s)"]
    by (auto simp: writer_inv_def writer_receive_def take_batch_def Let_def sync_data_def simp del: concat_append)
qed (use assms(2) in \<open>auto simp: writer_inv_def writer_tick_def sync_data_def\<close>)

interpretation writer_run: step_invariant "writer_step policy" "writer_inv policy old" for policy old
  by unfold_locales (rule writer_step_inv)

section \<open>Replaying commands\<close>

datatype rec_error = RecKv KvError | RecMsg string

text \<open>The state of a recovery: the commands of an open transaction, and the store.\<close>

type_synonym 'j replay = "Command list option \<times> 'j world"

definition run_recovered ::
  "'j env \<Rightarrow> 'j engine \<Rightarrow> nat option \<Rightarrow> Command \<Rightarrow> 'j world \<Rightarrow> ('j world \<times> unit kvres) option" where
  "run_recovered e ev conn c w =
     do { (w1, r) \<leftarrow> execute_command e ev conn c w;
          (case r of
             Done (Inl er) \<Rightarrow> Some (w1, Inl er)
           | Done (Inr _) \<Rightarrow> Some (w1, Inr ())
           | Blocked _ \<Rightarrow> None) }"

fun run_transaction ::
  "'j env \<Rightarrow> 'j engine \<Rightarrow> nat option \<Rightarrow> Command list \<Rightarrow> 'j world \<Rightarrow> ('j world \<times> unit kvres) option" where
  "run_transaction e ev conn [] w = Some (w, Inr ())"
| "run_transaction e ev conn (c # cs) w =
     do { (w1, r) \<leftarrow> run_recovered e ev conn c w;
          (case r of Inl er \<Rightarrow> Some (w1, Inl er) | Inr _ \<Rightarrow> run_transaction e ev conn cs w1) }"

definition apply_aof_command ::
  "'j env \<Rightarrow> 'j engine \<Rightarrow> nat option \<Rightarrow> Command \<Rightarrow> 'j replay \<Rightarrow> ('j replay \<times> unit kvres) option" where
  "apply_aof_command e ev conn c st =
     (case st of (transaction_buffer, w) \<Rightarrow>
        (case c of
           Multi \<Rightarrow> Some ((Some [], w), Inr ())
         | Exec \<Rightarrow>
             (case transaction_buffer of
                Some cmds \<Rightarrow> map_option (\<lambda>(w', r). ((None, w'), r)) (run_transaction e ev conn cmds w)
              | None \<Rightarrow> Some ((None, w), Inr ()))
         | _ \<Rightarrow>
             (case transaction_buffer of
                Some buffer \<Rightarrow> Some ((Some (buffer @ [c]), w), Inr ())
              | None \<Rightarrow> map_option (\<lambda>(w', r). ((None, w'), r)) (run_recovered e ev conn c w))))"

section \<open>Recovery\<close>

text \<open>The inner loop, over the bytes in the buffer. It ends with nothing left, or with an incomplete
  command and the number of bytes before it.\<close>

function recover_pass ::
  "resp_env \<Rightarrow> 'j env \<Rightarrow> 'j engine \<Rightarrow> nat option \<Rightarrow> bytes \<Rightarrow> 'j replay \<Rightarrow> nat \<Rightarrow> nat \<Rightarrow>
   ('j replay \<times> (rec_error, nat option) res) option" where
  "recover_pass R e ev conn buf st exec_time tail_size =
     (if buf = [] then Some (st, Inr None)
      else
        case parse_frame R buf of
          ParsedFrame fr frame_size \<Rightarrow>
            (case try_from (ext_of e) fr of
               Inr c \<Rightarrow>
                 (case apply_aof_command e ev conn c st of
                    None \<Rightarrow> None
                  | Some (st1, Inl er) \<Rightarrow> Some (st1, Inl (RecKv er))
                  | Some (st1, Inr _) \<Rightarrow>
                      recover_pass R e ev conn (drop frame_size buf) st1 (Suc exec_time) (tail_size + frame_size))
             | Inl er \<Rightarrow> if er = Panicked then None else Some (st, Inl (RecKv er)))
        | NeedMore \<Rightarrow>
            if exec_time = 0 then Some (st, Inl (RecMsg ''string too large, over 512M''))
            else Some (st, Inr (Some tail_size))
        | ParseError er \<Rightarrow> Some (st, Inl (RecKv er))
        | ParsePanic \<Rightarrow> None
        | ParseFuel \<Rightarrow> None)"
  by pat_completeness auto

termination recover_pass
  by (relation "measure (\<lambda>(R, e, ev, conn, buf, st, n, t). length buf)")
    (auto dest!: parse_frame_consumed)

declare recover_pass.simps [simp del]

definition FILE_DATA_LEN :: nat where
  "FILE_DATA_LEN = 1024 * 1024 * 512"

definition read_file :: "(nat \<Rightarrow> nat) \<Rightarrow> nat \<Rightarrow> nat \<Rightarrow> bytes \<Rightarrow> bytes" where
  "read_file rd pos room file = take (min (max 1 (rd pos)) room) (drop pos file)"

text \<open>The outer loop. After a pass that consumed everything \<^verbatim>\<open>tail_file_length\<close> keeps its value, and the
  front of the buffer its bytes. At the end of the file the bytes of the tail are cut off it.\<close>

function recover_loop ::
  "resp_env \<Rightarrow> 'j env \<Rightarrow> 'j engine \<Rightarrow> nat option \<Rightarrow> (nat \<Rightarrow> nat) \<Rightarrow> nat \<Rightarrow> bytes \<Rightarrow> nat \<Rightarrow> bytes \<Rightarrow> 'j replay \<Rightarrow>
   ('j replay \<times> bytes \<times> (rec_error, unit) res) option" where
  "recover_loop R e ev conn rd cap file pos held st =
     (if length held = cap then
        Some (st, file, Inl (RecMsg ''a single command exceeds the 512MB buffer''))
      else
        let chunk = read_file rd pos (cap - length held) file
        in if chunk = [] then Some (st, take (length file - length held) file, Inr ())
           else
             case recover_pass R e ev conn (held @ chunk) st 0 0 of
               None \<Rightarrow> None
             | Some (st1, Inl er) \<Rightarrow> Some (st1, file, Inl er)
             | Some (st1, Inr None) \<Rightarrow> recover_loop R e ev conn rd cap file (pos + length chunk) held st1
             | Some (st1, Inr (Some tail_size)) \<Rightarrow>
                 recover_loop R e ev conn rd cap file (pos + length chunk) (drop tail_size (held @ chunk)) st1)"
  by pat_completeness auto

lemma read_file_advances:
  "read_file rd pos room file \<noteq> [] \<Longrightarrow>
   length file - (pos + length (read_file rd pos room file)) < length file - pos"
  by (simp add: read_file_def) linarith

termination recover_loop
  by (relation "measure (\<lambda>(R, e, ev, conn, rd, cap, file, pos, held, st). length file - pos)")
    (use read_file_advances in auto)

declare recover_loop.simps [simp del]

definition explain_execute_aofcommand ::
  "resp_env \<Rightarrow> 'j env \<Rightarrow> 'j engine \<Rightarrow> nat option \<Rightarrow> (nat \<Rightarrow> nat) \<Rightarrow> bytes option \<Rightarrow> 'j world \<Rightarrow>
   ('j world \<times> bytes option \<times> (rec_error, unit) res) option" where
  "explain_execute_aofcommand R e ev conn rd path w =
     (case path of
        None \<Rightarrow> Some (w, None, Inl (RecKv Io))
      | Some file \<Rightarrow>
          map_option (\<lambda>(st, file', r). (snd st, Some file', r))
            (recover_loop R e ev conn rd FILE_DATA_LEN file 0 [] (None, w)))"

text \<open>At startup an error of the recovery is a panic. The clock task has not started yet.\<close>

definition recover_at_startup ::
  "resp_env \<Rightarrow> 'j env \<Rightarrow> 'j engine \<Rightarrow> (nat \<Rightarrow> nat) \<Rightarrow> EvictionType \<Rightarrow> bytes option \<Rightarrow> 'j world option" where
  "recover_at_startup R e ev rd ty path =
     (case explain_execute_aofcommand R e ev (Some 0) rd path (Storage_new e ty) of
        Some (w, _, Inr _) \<Rightarrow> Some w
      | _ \<Rightarrow> None)"

section \<open>A log of complete commands\<close>

fun replay :: "'j env \<Rightarrow> 'j engine \<Rightarrow> nat option \<Rightarrow> Command list \<Rightarrow> 'j replay \<Rightarrow> ('j replay \<times> unit kvres) option" where
  "replay e ev conn [] st = Some (st, Inr ())"
| "replay e ev conn (c # cs) st =
     (case apply_aof_command e ev conn c st of
        Some (st1, Inr _) \<Rightarrow> replay e ev conn cs st1
      | x \<Rightarrow> x)"

lemma replay_append:
  "replay e ev conn cs st = Some (st1, Inr ()) \<Longrightarrow> replay e ev conn (cs @ ds) st = replay e ev conn ds st1"
  by (induction cs arbitrary: st) (auto split: option.splits sum.splits)

lemma recover_pass_commands:
  assumes "finder_ok R"
  shows "log_of R (ext_of e) fs cs \<Longrightarrow> replay e ev conn cs st = Some (st', Inr ()) \<Longrightarrow>
    recover_pass R e ev conn (wire fs @ rest) st n t = recover_pass R e ev conn rest st' (n + length fs) (t + length (wire fs))"
proof (induction fs arbitrary: cs st n t)
  case (Cons f fs)
  then obtain c cs' where c: "cs = c # cs'" "request_frame R f" "try_from (ext_of e) f = Inr c" "log_of R (ext_of e) fs cs'"
    by auto
  obtain st1 where st1: "apply_aof_command e ev conn c st = Some (st1, Inr ())" "replay e ev conn cs' st1 = Some (st', Inr ())"
    using Cons.prems(2) by (auto simp: c(1) split: option.splits sum.splits)
  have "recover_pass R e ev conn (serialize f @ wire fs @ rest) st n t =
      recover_pass R e ev conn (wire fs @ rest) st1 (Suc n) (t + length (serialize f))"
    using parse_frame_serialize [OF assms c(2), of "wire fs @ rest"] c(3) st1(1)
    by (subst recover_pass.simps) simp
  then show ?case
    using Cons.IH [OF c(4) st1(2), of "Suc n" "t + length (serialize f)"] by (simp add: add.assoc)
qed simp

text \<open>A file that is read at once.\<close>

lemma recover_loop_whole:
  assumes R: "finder_ok R" and fs: "log_of R (ext_of e) fs cs" "replay e ev conn cs st = Some (st', Inr ())"
    and torn: "torn = [] \<or> fs \<noteq> [] \<and> parse_frame R torn = NeedMore"
    and size: "length (wire fs @ torn) \<le> min (rd 0) cap"
  shows "recover_loop R e ev conn rd cap (wire fs @ torn) 0 [] st = Some (st', wire fs, Inr ()) \<or> cap = 0"
proof (cases "fs = []")
  case True
  then show ?thesis
    using torn fs by (subst recover_loop.simps) (simp add: read_file_def)
next
  case False
  let ?file = "wire fs @ torn"
  have ne: "wire fs \<noteq> []"
    using False by (cases fs) auto
  have chunk: "read_file rd 0 cap ?file = ?file"
  proof -
    have "length ?file \<le> min (max 1 (rd 0)) cap"
      using size by auto
    then show ?thesis
      by (simp only: read_file_def drop_0 take_all)
  qed
  have pass: "recover_pass R e ev conn ?file st 0 0 = recover_pass R e ev conn torn st' (length fs) (length (wire fs))"
    using recover_pass_commands [OF R fs, of torn 0 0] by simp
  have last: "recover_loop R e ev conn rd cap ?file (length ?file) torn st' = Some (st', wire fs, Inr ())"
    using size ne by (subst recover_loop.simps) (auto simp: read_file_def)
  show ?thesis
  proof (cases "torn = []")
    case True
    then have "recover_pass R e ev conn ?file st 0 0 = Some (st', Inr None)"
      unfolding pass by (subst recover_pass.simps) simp
    then show ?thesis
      using last chunk ne True by (subst recover_loop.simps) simp
  next
    case torn': False
    then have "recover_pass R e ev conn ?file st 0 0 = Some (st', Inr (Some (length (wire fs))))"
      unfolding pass using torn False by (subst recover_pass.simps) simp
    then show ?thesis
      using last chunk ne by (subst recover_loop.simps) simp
  qed
qed

lemma recover_whole:
  assumes "finder_ok R" and "log_of R (ext_of e) fs cs" "replay e ev conn cs (None, w) = Some ((tb, w'), Inr ())"
    and "torn = [] \<or> fs \<noteq> [] \<and> parse_frame R torn = NeedMore"
    and "length (wire fs @ torn) \<le> min (rd 0) FILE_DATA_LEN"
  shows "explain_execute_aofcommand R e ev conn rd (Some (wire fs @ torn)) w = Some (w', Some (wire fs), Inr ())"
  using recover_loop_whole [where rd = rd and cap = FILE_DATA_LEN, OF assms] by (simp add: explain_execute_aofcommand_def FILE_DATA_LEN_def)

section \<open>Torn and split logs\<close>

lemma wire_prefix:
  "n \<le> length (wire fs) \<Longrightarrow> \<exists>m k. m \<le> length fs \<and> take n (wire fs) = wire (take m fs) @ (if m < length fs then take k (serialize (fs ! m)) else []) \<and>
     (m < length fs \<longrightarrow> k < length (serialize (fs ! m))) \<and> n = length (wire (take m fs)) + (if m < length fs then k else 0)"
proof (induction fs arbitrary: n)
  case (Cons f fs)
  show ?case
  proof (cases "n < length (serialize f)")
    case True
    then show ?thesis
      by (intro exI [of _ 0] exI [of _ n]) simp
  next
    case False
    have "n - length (serialize f) \<le> length (wire fs)"
      using Cons.prems by simp
    from Cons.IH [OF this] obtain m k where mk: "m \<le> length fs"
      "take (n - length (serialize f)) (wire fs) = wire (take m fs) @ (if m < length fs then take k (serialize (fs ! m)) else [])"
      "m < length fs \<longrightarrow> k < length (serialize (fs ! m))"
      "n - length (serialize f) = length (wire (take m fs)) + (if m < length fs then k else 0)"
      by blast
    then show ?thesis
      using False by (intro exI [of _ "Suc m"] exI [of _ k]) (auto split: if_splits)
  qed
qed simp

lemma log_of_take: "log_of R E fs cs \<Longrightarrow> log_of R E (take m fs) (take m cs)"
  by (simp add: log_of_def list_all2_takeI)

lemma log_of_nth: "log_of R E fs cs \<Longrightarrow> m < length fs \<Longrightarrow> request_frame R (fs ! m)"
  by (auto simp: log_of_def list_all2_conv_all_nth)

lemma log_of_length: "log_of R E fs cs \<Longrightarrow> length cs = length fs"
  by (simp add: log_of_def list_all2_lengthD)

lemma replay_take:
  "replay e ev conn cs st = Some (st', Inr ()) \<Longrightarrow> \<exists>st1. replay e ev conn (take m cs) st = Some (st1, Inr ())"
  by (induction cs arbitrary: st m) (auto simp: take_Cons split: option.splits sum.splits nat.splits)

lemma replay_open:
  "\<forall>c \<in> set cs. c \<noteq> Multi \<and> c \<noteq> Exec \<Longrightarrow> replay e ev conn cs (Some buf, w) = Some ((Some (buf @ cs), w), Inr ())"
proof (induction cs arbitrary: buf)
  case (Cons c cs)
  then have "apply_aof_command e ev conn c (Some buf, w) = Some ((Some (buf @ [c]), w), Inr ())"
    by (cases c) (simp_all add: apply_aof_command_def)
  then show ?case
    using Cons by simp
qed simp

text \<open>Two reads that split a command, where the second pass consumes all it has.\<close>

lemma recover_loop_split:
  assumes R: "finder_ok R" and fs: "log_of R (ext_of e) fs cs" "replay e ev conn cs st = Some (st1, Inr ())" "fs \<noteq> []"
    and gs: "log_of R (ext_of e) (g # gs) ds" "replay e ev conn ds st1 = Some (st', Inr ())"
    and j: "0 < j" "j < length (serialize g)"
    and first: "min (rd 0) cap = length (wire fs) + j"
    and second: "length (wire (g # gs)) \<le> min (rd (length (wire fs) + j) + j) cap"
  shows "recover_loop R e ev conn rd cap (wire (fs @ g # gs)) 0 [] st =
    Some (st', take (length (wire (fs @ g # gs)) - j) (wire (fs @ g # gs)), Inr ())"
proof -
  let ?file = "wire (fs @ g # gs)" and ?p = "length (wire fs) + j" and ?rest = "drop j (serialize g) @ wire gs"
  let ?torn = "take j (serialize g)"
  have cap: "0 < cap" "j < cap"
    using first second j by auto
  have "min (max 1 (rd 0)) cap = ?p"
    using first j(1) cap(1) by (auto simp: min_def max_def split: if_splits)
  then have chunk1: "read_file rd 0 cap ?file = wire fs @ ?torn"
    using j(2) by (simp add: read_file_def)
  have g: "request_frame R g"
    using gs(1) by auto
  have pass1: "recover_pass R e ev conn (wire fs @ ?torn) st 0 0 = Some (st1, Inr (Some (length (wire fs))))"
    unfolding recover_pass_commands [OF R fs(1,2), of ?torn 0 0] using parse_frame_torn [OF R g j(2)] j fs(3)
    by (subst recover_pass.simps) auto
  have split: "?file = (wire fs @ ?torn) @ ?rest"
    using append_take_drop_id [of j "serialize g"] by (simp del: append_take_drop_id)
  have "length ?rest \<le> min (max 1 (rd ?p)) (cap - j)"
    using second j by auto
  moreover have "drop ?p ?file = ?rest"
    unfolding split using j(2) by simp
  ultimately have chunk2: "read_file rd ?p (cap - j) ?file = ?rest"
    by (simp only: read_file_def take_all)
  have "?torn @ ?rest = wire (g # gs) @ []"
    by (simp flip: append.assoc)
  then have pass2: "recover_pass R e ev conn (?torn @ ?rest) st1 0 0 = Some (st', Inr None)"
    by (simp only: recover_pass_commands [OF R gs]) (simp add: recover_pass.simps [of R e ev conn "[]"])
  have "recover_loop R e ev conn rd cap ?file 0 [] st = recover_loop R e ev conn rd cap ?file ?p ?torn st1"
    using chunk1 pass1 cap(1) j fs(3) by (subst recover_loop.simps) simp
  also have "\<dots> = recover_loop R e ev conn rd cap ?file (length ?file) ?torn st'"
    using chunk2 pass2 cap(2) j by (subst recover_loop.simps) (simp add: add.assoc)
  also have "\<dots> = Some (st', take (length ?file - j) ?file, Inr ())"
    using cap(2) j(2) by (subst recover_loop.simps) (simp add: read_file_def)
  finally show ?thesis .
qed

text \<open>A file that holds nothing but the torn beginning of a command keeps the server from starting: a
  first pass that executes nothing is taken for a command too large for the buffer.\<close>

lemma torn_first_command_panics:
  assumes "finder_ok R" "request_frame R f" "0 < k" "k < length (serialize f)" "k \<le> rd 0" "k \<le> FILE_DATA_LEN"
  shows "recover_at_startup R e ev rd ty (Some (take k (serialize f))) = None"
proof -
  let ?s = "take k (serialize f)"
  have s: "?s \<noteq> []" "length ?s = k"
    using assms(3,4) by auto
  have "read_file rd 0 FILE_DATA_LEN ?s = ?s"
    using assms(5,6) s(2) by (simp add: read_file_def)
  moreover have "recover_pass R e ev (Some 0) ?s st 0 0 = Some (st, Inl (RecMsg ''string too large, over 512M''))" for st
    using parse_frame_torn [OF assms(1,2,4)] s(1) by (subst recover_pass.simps) simp
  moreover have "0 < FILE_DATA_LEN"
    by (simp add: FILE_DATA_LEN_def)
  ultimately have "recover_loop R e ev (Some 0) rd FILE_DATA_LEN ?s 0 [] st = Some (st, ?s, Inl (RecMsg ''string too large, over 512M''))" for st
    using s(1) by (subst recover_loop.simps) simp
  then show ?thesis
    by (simp add: recover_at_startup_def explain_execute_aofcommand_def)
qed

section \<open>Properties\<close>

text \<open>The writer task loses and reorders nothing: whatever the interleaving of sends, batches and ticks, the file
  holds what it held before followed by a prefix of the messages sent, in order; under \<^verbatim>\<open>Always\<close> all of it is on
  disk after every batch; and when the channel is closed the task leaves every message in the file and on disk.\<close>

lemma aof_writer_drains:
  assumes "runs (writer_step policy) \<lparr>chan = [], disk = \<lparr>content = old, synced = length old\<rparr>, sent = []\<rparr> s"
  shows "content (disk s) @ concat (chan s) = old @ concat (sent s) \<and>
    (policy = Always \<longrightarrow> synced (disk s) = length (content (disk s))) \<and>
    content (writer_close (chan s) (disk s)) = old @ concat (sent s) \<and>
    synced (writer_close (chan s) (disk s)) = length (old @ concat (sent s))"
proof -
  have "writer_inv policy old s"
    by (rule writer_run.runs_keep [OF assms]) (simp add: writer_inv_def)
  then show ?thesis
    by (simp add: writer_inv_def writer_close_def sync_data_def flip: length_append)
qed

text \<open>Property C10: crash consistency of recovery. Cut the log of a sequence of commands at any byte after
  its first command: recovery of the prefix, read at once, executes exactly the commands that are
  complete in it, as a transaction replay does, reports success, and shortens the file to those
  commands, so that later entries follow a complete one.\<close>

theorem recovery_of_torn_log:
  assumes "finder_ok R" and "log_of R (ext_of e) fs cs" and "replay e ev conn cs (None, w) = Some (st, Inr ())"
    and "fs \<noteq> []" and "length (serialize (hd fs)) \<le> n" and "n \<le> length (wire fs)"
    and "n \<le> rd 0" and "n \<le> FILE_DATA_LEN"
  shows "\<exists>m tb w'. 0 < m \<and> m \<le> length fs \<and> length (wire (take m fs)) \<le> n \<and>
    (m < length fs \<longrightarrow> n < length (wire (take (Suc m) fs))) \<and>
    replay e ev conn (take m cs) (None, w) = Some ((tb, w'), Inr ()) \<and>
    explain_execute_aofcommand R e ev conn rd (Some (take n (wire fs))) w = Some (w', Some (wire (take m fs)), Inr ())"
proof -
  obtain m k where mk: "m \<le> length fs"
    "take n (wire fs) = wire (take m fs) @ (if m < length fs then take k (serialize (fs ! m)) else [])"
    "m < length fs \<longrightarrow> k < length (serialize (fs ! m))" "n = length (wire (take m fs)) + (if m < length fs then k else 0)"
    using wire_prefix [OF assms(6)] by blast
  let ?torn = "if m < length fs then take k (serialize (fs ! m)) else []"
  have m0: "0 < m"
    using mk assms(4,5) by (cases "m = 0"; cases fs) auto
  obtain tb w' where run: "replay e ev conn (take m cs) (None, w) = Some ((tb, w'), Inr ())"
    using replay_take [OF assms(3), of m] by auto
  have "?torn = [] \<or> take m fs \<noteq> [] \<and> parse_frame R ?torn = NeedMore"
    using m0 assms(4) parse_frame_torn [OF assms(1) log_of_nth [OF assms(2)]] mk(3) by auto
  moreover have "length (wire (take m fs) @ ?torn) \<le> min (rd 0) FILE_DATA_LEN"
    using assms(6,7,8) by (simp flip: mk(2))
  ultimately have "explain_execute_aofcommand R e ev conn rd (Some (take n (wire fs))) w = Some (w', Some (wire (take m fs)), Inr ())"
    unfolding mk(2) by (rule recover_whole [OF assms(1) log_of_take [OF assms(2)] run])
  moreover have "m < length fs \<longrightarrow> n < length (wire (take (Suc m) fs))"
    using mk(3,4) by (simp add: take_Suc_conv_app_nth)
  ultimately show ?thesis
    using m0 mk(1,4) run by (intro exI [of _ m] exI [of _ tb] exI [of _ w']) simp
qed

text \<open>A log of one \<^verbatim>\<open>LPUSH\<close> entry and its replay.\<close>

definition demo_entry :: "bytes \<Rightarrow> Frame" where
  "demo_entry v = Array [Bulk ''LPUSH'', Bulk ''k'', Bulk v]"

lemma demo_entry_log: "utf8_valid v \<Longrightarrow> length v < 100 \<Longrightarrow> log_of std_resp (ext_of demo_env) [demo_entry v] [LPush ''k'' [v]]"
  using try_from_command_frame [OF demo_ext_ok, of 0 "LPush ''k'' [v]"]
  by (simp add: demo_entry_def std_resp_def vec_capacity_ok_def USIZE_MAX_def ascii_utf8_valid nat_of_char_def)

lemma demo_entry_replay:
  assumes "world_ok demo_env w" "\<forall>k. (blocking_queues w ! 0) k = None" "slot_rel demo_env (peek demo_env 0 ''k'' w) cur"
    "cur = None \<or> cur = Some (AList xs, None)"
  shows "\<exists>w'. replay demo_env ev (Some 0) [LPush ''k'' [v]] (None, w) = Some ((None, w'), Inr ()) \<and> world_ok demo_env w' \<and>
    (\<forall>k. (blocking_queues w' ! 0) k = None) \<and>
    slot_rel demo_env (peek demo_env 0 ''k'' w') (Some (AList (case cur of None \<Rightarrow> [v] | _ \<Rightarrow> v # xs), None))"
proof -
  have live: "pred_option (unexpired (rt_of demo_env)) (peek demo_env 0 ''k'' w)"
    using assms(3,4) by (auto elim!: slot_relE simp: ent_rel_def unexpired_def expired_def)
  have "effect demo_env CtxRecovery 0 ''k'' w (execute demo_env ev CtxRecovery (Some 0) (LPush ''k'' [v]) w) (redis demo_env (LPush ''k'' [v]) cur)"
    by (rule execute_effect [OF assms(1) _ _ _ _ live assms(3)]) (use assms(2) in \<open>simp_all add: DB_COUNT_def get_key_def\<close>)
  then show ?thesis
    using assms(2,4) by (auto simp: effect_def on_list_def apply_aof_command_def run_recovered_def execute_command_def)
qed

theorem recovery_of_torn_log_witness:
  "\<exists>m w'. 0 < m \<and> explain_execute_aofcommand std_resp demo_env (\<lambda>_ _ _ _ _. None) (Some 0) (\<lambda>_. 4096)
     (Some (take 40 (wire [demo_entry ''a'', demo_entry ''b'']))) (Storage_new demo_env LRU) =
     Some (w', Some (wire (take m [demo_entry ''a'', demo_entry ''b''])), Inr ())"
proof -
  let ?ev = "\<lambda>_ _ _ _ _. None" and ?w = "Storage_new demo_env LRU" and ?fs = "[demo_entry ''a'', demo_entry ''b'']"
  have "\<forall>k. (blocking_queues ?w ! 0) k = None"
    by (simp add: Storage_new_def DB_COUNT_def)
  then obtain w1 where w1: "replay demo_env ?ev (Some 0) [LPush ''k'' [''a'']] (None, ?w) = Some ((None, w1), Inr ())"
    "world_ok demo_env w1" "\<forall>k. (blocking_queues w1 ! 0) k = None"
    "slot_rel demo_env (peek demo_env 0 ''k'' w1) (Some (AList [''a''], None))"
    using demo_entry_replay [OF demo_world_ok, where cur = None and ev = ?ev and v = "''a''"] by (auto simp: DB_COUNT_def)
  obtain w2 where w2: "replay demo_env ?ev (Some 0) [LPush ''k'' [''b'']] (None, w1) = Some ((None, w2), Inr ())"
    using demo_entry_replay [OF w1(2-4), where xs = "[''a'']" and ev = ?ev and v = "''b''"] by auto
  have log: "log_of std_resp (ext_of demo_env) ?fs [LPush ''k'' [''a''], LPush ''k'' [''b'']]"
    using demo_entry_log [of "''a''"] demo_entry_log [of "''b''"] by (simp add: ascii_utf8_valid nat_of_char_def)
  have run: "replay demo_env ?ev (Some 0) [LPush ''k'' [''a''], LPush ''k'' [''b'']] (None, ?w) = Some ((None, w2), Inr ())"
    using replay_append [OF w1(1), of "[LPush ''k'' [''b'']]"] w2 by simp
  have "length (serialize (hd ?fs)) \<le> 40" "40 \<le> length (wire ?fs)"
    by (simp_all add: demo_entry_def show_nat.simps crlf_def)
  moreover have "?fs \<noteq> []" "40 \<le> (\<lambda>_ :: nat. 4096 :: nat) 0" "40 \<le> FILE_DATA_LEN"
    by (simp_all add: FILE_DATA_LEN_def)
  ultimately show ?thesis
    using recovery_of_torn_log [OF std_resp_ok log run, of 40 "\<lambda>_. 4096"] by blast
qed

text \<open>Property C38: a crash inside a transaction group loses more than the group. The log ends in a
  \<^verbatim>\<open>MULTI\<close> and part of its commands; recovery rolls them back but leaves them in the file. The entries written after the restart land
  behind the open \<^verbatim>\<open>MULTI\<close>. Those up to the next \<^verbatim>\<open>MULTI\<close>, if there is one, are swallowed: the next recovery does exactly what it
  would do on a log that begins with that \<^verbatim>\<open>MULTI\<close>, and nothing if there is none. (The file is read at once.)\<close>

theorem torn_transaction_swallows_later_entries:
  assumes "ext_ok (ext_of e)" and "finder_ok R" and "vec_capacity_ok R 1"
    and "log_of R (ext_of e) gs cs" and "\<forall>c \<in> set cs. c \<noteq> Multi \<and> c \<noteq> Exec"
    and "log_of R (ext_of e) hs ds" and "\<forall>c \<in> set ds. c \<noteq> Multi \<and> c \<noteq> Exec"
    and "log_of R (ext_of e) fs bs" and "bs = [] \<or> hd bs = Multi" and "replay e ev conn bs (None, w) = Some ((tb, w'), Inr ())"
    and "length (encode_multi @ wire gs @ wire hs @ wire fs) \<le> min (rd 0) FILE_DATA_LEN"
  shows "explain_execute_aofcommand R e ev conn rd (Some (encode_multi @ wire gs)) w =
      Some (w, Some (encode_multi @ wire gs), Inr ()) \<and>
    explain_execute_aofcommand R e ev conn rd (Some (encode_multi @ wire gs @ wire hs @ wire fs)) w =
      Some (w', Some (encode_multi @ wire gs @ wire hs @ wire fs), Inr ()) \<and>
    explain_execute_aofcommand R e ev conn rd (Some (wire fs)) w = Some (w', Some (wire fs), Inr ())"
proof -
  let ?m = "Array [Bulk ''MULTI'']"
  have m: "request_frame R ?m" "try_from (ext_of e) ?m = Inr Multi"
    using assms(1,3) by (simp_all add: USIZE_MAX_def try_from_command dispatch_def command_names_def)
  have whole: "explain_execute_aofcommand R e ev conn rd (Some (wire xs)) w = Some (v, Some (wire xs), Inr ())"
    if "log_of R (ext_of e) xs as" "replay e ev conn as (None, w) = Some ((t, v), Inr ())" "length (wire xs) \<le> min (rd 0) FILE_DATA_LEN"
    for xs as t v
    using recover_whole [where rd = rd and torn = "[]", OF assms(2) that(1,2)] that(3) by simp
  have head: "replay e ev conn (Multi # as) (None, w) = Some ((Some as, w), Inr ())" if "\<forall>c \<in> set as. c \<noteq> Multi \<and> c \<noteq> Exec" for as
    using replay_open [OF that, of e ev conn "[]" w] by (simp add: apply_aof_command_def)
  have multi: "encode_multi @ wire xs = wire (?m # xs)" for xs
    by (simp add: encode_multi_def)
  have "explain_execute_aofcommand R e ev conn rd (Some (wire (?m # gs))) w = Some (w, Some (wire (?m # gs)), Inr ())"
    by (rule whole [OF _ head [OF assms(5)]]) (use m assms(4,11) in \<open>auto simp: encode_multi_def\<close>)
  moreover have "\<exists>t. replay e ev conn (Multi # (cs @ ds) @ bs) (None, w) = Some ((t, w'), Inr ())"
  proof (cases bs)
    case Nil
    then show ?thesis
      using head [of "cs @ ds"] assms(5,7,10) by auto
  next
    case (Cons c as)
    then have "replay e ev conn bs (Some (cs @ ds), w) = replay e ev conn bs (None, w)"
      using assms(9) by (simp add: apply_aof_command_def)
    then show ?thesis
      using replay_append [OF head, of "cs @ ds" bs] assms(5,7,10) by auto
  qed
  then obtain t where "replay e ev conn (Multi # (cs @ ds) @ bs) (None, w) = Some ((t, w'), Inr ())"
    by blast
  from whole [OF _ this, of "?m # gs @ hs @ fs"] have
    "explain_execute_aofcommand R e ev conn rd (Some (wire (?m # gs @ hs @ fs))) w = Some (w', Some (wire (?m # gs @ hs @ fs)), Inr ())"
    using m assms(4,6,8,11) by (simp add: encode_multi_def)
  moreover have "explain_execute_aofcommand R e ev conn rd (Some (wire fs)) w = Some (w', Some (wire fs), Inr ())"
    by (rule whole [OF assms(8,10)]) (use assms(11) in simp)
  ultimately show ?thesis
    by (simp add: encode_multi_def)
qed

theorem torn_transaction_swallows_later_entries_witness:
  "explain_execute_aofcommand std_resp demo_env (\<lambda>_ _ _ _ _. None) (Some 0) (\<lambda>_. 4096)
     (Some (encode_multi @ wire [demo_entry ''a''] @ wire [demo_entry ''b''])) (Storage_new demo_env LRU) =
   Some (Storage_new demo_env LRU, Some (encode_multi @ wire [demo_entry ''a''] @ wire [demo_entry ''b'']), Inr ())"
proof -
  have "utf8_valid ''a''" "utf8_valid ''b''"
    by (simp_all add: ascii_utf8_valid nat_of_char_def)
  note log = this [THEN demo_entry_log]
  have "ext_ok (ext_of demo_env)" "vec_capacity_ok std_resp 1"
    "length (encode_multi @ wire [demo_entry ''a''] @ wire [demo_entry ''b''] @ wire []) \<le> min ((\<lambda>_. 4096) 0) FILE_DATA_LEN"
    by (simp_all add: vec_capacity_ok_def std_resp_def FILE_DATA_LEN_def demo_entry_def encode_multi_def show_nat.simps crlf_def demo_ext_ok)
  then show ?thesis
    using torn_transaction_swallows_later_entries [where fs = "[]" and bs = "[]", OF _ std_resp_ok _ log(1) _ log(2)] by simp
qed

text \<open>Property C39: recovery can damage a complete log. When a first read ends inside a command and the
  next one completes the file, as it must for a file longer than the buffer, every command is executed and success reported, but
  the length of the tail of the first read is not reset: as many bytes are cut off the end of the
  file, although every command in it was complete.\<close>

theorem recovery_truncates_complete_log:
  assumes "finder_ok R" and "log_of R (ext_of e) fs cs" and "replay e ev conn cs (None, w) = Some (st1, Inr ())"
    and "fs \<noteq> []" and "log_of R (ext_of e) (g # gs) ds" and "replay e ev conn ds st1 = Some ((tb, w'), Inr ())"
    and "0 < j" and "j < length (serialize g)"
    and "min (rd 0) FILE_DATA_LEN = length (wire fs) + j"
    and "length (wire (g # gs)) \<le> min (rd (length (wire fs) + j) + j) FILE_DATA_LEN"
  shows "\<exists>file'. explain_execute_aofcommand R e ev conn rd (Some (wire (fs @ g # gs))) w = Some (w', Some file', Inr ()) \<and>
    length file' + j = length (wire (fs @ g # gs)) \<and> file' = take (length file') (wire (fs @ g # gs))"
  using recover_loop_split [OF assms] assms(8)
  by (simp add: explain_execute_aofcommand_def del: map_append concat_append) (simp add: min_def)

theorem recovery_truncates_complete_log_witness:
  "\<exists>w' file'. explain_execute_aofcommand std_resp demo_env (\<lambda>_ _ _ _ _. None) (Some 0) (\<lambda>p. if p = 0 then 34 else 4096)
     (Some (wire [demo_entry ''a'', demo_entry ''b''])) (Storage_new demo_env LRU) = Some (w', Some file', Inr ()) \<and>
   length file' + 5 = length (wire [demo_entry ''a'', demo_entry ''b''])"
proof -
  let ?ev = "\<lambda>_ _ _ _ _. None" and ?w = "Storage_new demo_env LRU" and ?rd = "\<lambda>p :: nat. if p = 0 then 34 else 4096 :: nat"
  have "\<forall>k. (blocking_queues ?w ! 0) k = None"
    by (simp add: Storage_new_def DB_COUNT_def)
  then obtain w1 where w1: "replay demo_env ?ev (Some 0) [LPush ''k'' [''a'']] (None, ?w) = Some ((None, w1), Inr ())"
    "world_ok demo_env w1" "\<forall>k. (blocking_queues w1 ! 0) k = None"
    "slot_rel demo_env (peek demo_env 0 ''k'' w1) (Some (AList [''a''], None))"
    using demo_entry_replay [OF demo_world_ok, where cur = None and ev = ?ev and v = "''a''"] by (auto simp: DB_COUNT_def)
  obtain w2 where w2: "replay demo_env ?ev (Some 0) [LPush ''k'' [''b'']] (None, w1) = Some ((None, w2), Inr ())"
    using demo_entry_replay [OF w1(2-4), where xs = "[''a'']" and ev = ?ev and v = "''b''"] by auto
  have utf8: "utf8_valid ''a''" "utf8_valid ''b''"
    by (simp_all add: ascii_utf8_valid nat_of_char_def)
  have len: "length (serialize (demo_entry ''a'')) = 29" "length (serialize (demo_entry ''b'')) = 29"
    by (simp_all add: demo_entry_def show_nat.simps crlf_def)
  show ?thesis
    using recovery_truncates_complete_log [OF std_resp_ok demo_entry_log [OF utf8(1)] w1(1) _ demo_entry_log [OF utf8(2)] w2, of 5 ?rd]
    by (auto simp: len FILE_DATA_LEN_def)
qed

end
