(* ===== verification/Durability.thy ===== *)
theory Durability
  imports Aof_Recovery
begin

text \<open>
  Durability: what clients wrote is what recovery finds. A run of a client is a sequence of
  commands, each with the environment (time, random draws) of its moment; \<open>astep\<close> is what the run does to an
  abstract database, a map from keys to abstract values. The executed run, the log it leaves and
  the replay of that log into an empty store with possibly another number of shards are related
  to the same abstract database.
\<close>

type_synonym 'j adb = "key \<Rightarrow> 'j aentry option"

definition astep :: "'j env \<Rightarrow> Command \<Rightarrow> 'j adb \<Rightarrow> 'j adb" where
  "astep e c A =
     (case c of
        MSet kvs \<Rightarrow> (\<lambda>k. case map_of (rev kvs) k of Some v \<Rightarrow> Some (AStr (stored_bytes e v), None) | None \<Rightarrow> A k)
      | _ \<Rightarrow> (case get_key c of None \<Rightarrow> A | Some k \<Rightarrow> A(k := fst (redis e c (A k)))))"

definition alog :: "'j env \<Rightarrow> Command \<Rightarrow> 'j adb \<Rightarrow> Command list" where
  "alog e c A =
     (case c of
        MSet kvs \<Rightarrow> [c]
      | _ \<Rightarrow> (case get_key c of None \<Rightarrow> [] | Some k \<Rightarrow> snd (snd (redis e c (A k)))))"

section \<open>Environments of one run\<close>

definition same_libs :: "'j env \<Rightarrow> 'j env \<Rightarrow> bool" where
  "same_libs e e' \<longleftrightarrow>
     ext_of e = ext_of e' \<and> lexical_parse_i64 e = lexical_parse_i64 e' \<and> json_from_str e = json_from_str e' \<and>
     json_pointer_set e = json_pointer_set e'"

definition same_conf :: "'j env \<Rightarrow> 'j env \<Rightarrow> bool" where
  "same_conf e e' \<longleftrightarrow> same_libs e e' \<and> fx_hash e = fx_hash e' \<and> num_shards e = num_shards e'"

lemma element_bytes_libs: "same_libs e e' \<Longrightarrow> element_bytes e = element_bytes e'"
proof
  show "same_libs e e' \<Longrightarrow> element_bytes e el = element_bytes e' el" for el
    by (cases el) (simp_all add: same_libs_def parse_int_from_bytes_def)
qed

lemma val_rel_libs: "same_libs e e' \<Longrightarrow> val_rel e v a = val_rel e' v a"
  by (cases v) (simp_all add: element_bytes_libs hash_view_def)

lemma slot_rel_libs: "same_libs e e' \<Longrightarrow> slot_rel e x a = slot_rel e' x a"
  by (cases x; cases a) (simp_all add: ent_rel_def val_rel_libs)

lemma same_conf_libs: "same_conf e e' \<Longrightarrow> same_libs e e'"
  by (simp add: same_conf_def)

lemma peek_conf: "same_conf e e' \<Longrightarrow> peek e d k w = peek e' d k w"
  by (simp add: peek_def get_shard_index_def same_conf_def)

lemma world_ok_conf: "same_conf e e' \<Longrightarrow> world_ok e w = world_ok e' w"
  by (simp add: world_ok_def same_conf_def)

section \<open>Stores and abstract databases\<close>

text \<open>Database 0 of the store holds the abstract database and nobody is blocked on it.\<close>

definition db_rel :: "'j env \<Rightarrow> 'j world \<Rightarrow> 'j adb \<Rightarrow> bool" where
  "db_rel e w A \<longleftrightarrow>
     world_ok e w \<and> (\<forall>k. (blocking_queues w ! 0) k = None) \<and> (\<forall>k. slot_rel e (peek e 0 k w) (A k))"

lemma db_rel_conf: "same_conf e e' \<Longrightarrow> db_rel e w A = db_rel e' w A"
  unfolding db_rel_def
  by (simp add: world_ok_conf [of e e'] peek_conf [of e e'] slot_rel_libs [OF same_conf_libs])

lemma db_rel_new: "0 < num_shards e \<Longrightarrow> db_rel e (Storage_new e ty) Map.empty"
proof -
  assume "0 < num_shards e"
  moreover have "peek e 0 k (Storage_new e ty) = None" for k
    using \<open>0 < num_shards e\<close>
    by (simp add: peek_def get_shard_index_def Storage_new_def MemoryCache_new_def MemoryCacheNode_new_def DB_COUNT_def)
  ultimately show ?thesis
    by (simp add: db_rel_def world_ok_new) (simp add: Storage_new_def DB_COUNT_def)
qed

definition fresh :: "'j env \<Rightarrow> 'j aentry option \<Rightarrow> bool" where
  "fresh e a \<longleftrightarrow> (\<forall>v t. a = Some (v, Some t) \<longrightarrow> env_now e \<le> t)"

lemma fresh_unexpired: "slot_rel e x a \<Longrightarrow> fresh e a \<Longrightarrow> pred_option (unexpired (rt_of e)) x"
  by (cases x; cases a) (auto simp: ent_rel_def unexpired_def expired_def fresh_def not_less split: option.splits)

lemma single_step:
  assumes "db_rel e w A" "single_key c" "get_key c = Some k" "fresh e (A k)" "accepts c (A k)" "ctx \<noteq> CtxLua"
    and "redis e c (A k) = (cur', reply, log)"
  shows "\<exists>w'. execute e ev ctx (Some 0) c w = Some (w', Done reply) \<and> db_rel e w' (A(k := cur')) \<and>
    aof_sent w' = aof_sent w @ log_bytes e ctx log"
proof -
  have rel: "world_ok e w" "(blocking_queues w ! 0) k = None" "slot_rel e (peek e 0 k w) (A k)"
    using assms(1) by (simp_all add: db_rel_def)
  have "effect e ctx 0 k w (execute e ev ctx (Some 0) c w) (redis e c (A k))"
    using execute_effect [OF rel(1) _ assms(6) assms(2,3) fresh_unexpired [OF rel(3) assms(4)] rel(3) assms(5) rel(2)]
    by (simp add: DB_COUNT_def)
  then obtain w' where w': "execute e ev ctx (Some 0) c w = Some (w', Done reply)" "world_ok e w'"
    "slot_rel e (peek e 0 k w') cur'" "\<forall>d k'. (d, k') \<noteq> (0, k) \<longrightarrow> peek e d k' w' = peek e d k' w"
    "aof_sent w' = aof_sent w @ log_bytes e ctx log" "blocking_queues w' = blocking_queues w"
    by (auto simp: effect_def assms(7))
  then have "db_rel e w' (A(k := cur'))"
    using assms(1) by (simp add: db_rel_def)
  then show ?thesis
    using w'(1,5) by blast
qed

lemma mset_step:
  assumes "db_rel e w A" "ctx \<noteq> CtxLua"
  shows "\<exists>w'. execute e ev ctx (Some 0) (MSet kvs) w = Some (w', Done (Inr (Simple ''OK''))) \<and>
    db_rel e w' (astep e (MSet kvs) A) \<and> aof_sent w' = aof_sent w @ log_bytes e ctx [MSet kvs]"
proof -
  have "world_ok e w"
    using assms(1) by (simp add: db_rel_def)
  from mset_effect [OF this _ assms(2), of 0 ev kvs] obtain w' where w':
    "execute e ev ctx (Some 0) (MSet kvs) w = Some (w', Done (Inr (Simple ''OK'')))" "world_ok e w'"
    "\<forall>k. peek e 0 k w' = (case map_of (rev kvs) k of Some v \<Rightarrow> Some (simple_entry e v None) | None \<Rightarrow> peek e 0 k w)"
    "aof_sent w' = aof_sent w @ log_bytes e ctx [MSet kvs]" "blocking_queues w' = blocking_queues w"
    by (auto simp: DB_COUNT_def)
  then have "db_rel e w' (astep e (MSet kvs) A)"
    using assms(1) by (simp add: db_rel_def astep_def simple_entry_rel split: option.splits)
  then show ?thesis
    using w'(1,4) by blast
qed

section \<open>A command and its log entry\<close>

lemma stored_bytes_libs: "same_libs e er \<Longrightarrow> stored_bytes e v = stored_bytes er v"
  by (simp add: stored_bytes_def same_libs_def split: option.split)

lemma logged_deadline:
  "\<forall>s. x \<noteq> Exp_EX s \<Longrightarrow> calculate_expiration_timestamp_ms now' (logged_expiration now x) = calculate_expiration_timestamp_ms now x"
  by (cases x) auto

fun no_relative_seconds :: "Command \<Rightarrow> bool" where
  "no_relative_seconds (Set k v (Some (Exp_EX s)) cond) \<longleftrightarrow> False"
| "no_relative_seconds _ \<longleftrightarrow> True"

lemma no_relative_seconds_Set:
  "no_relative_seconds (Set k v ex cond) \<longleftrightarrow> (\<forall>x. ex = Some x \<longrightarrow> (\<forall>s. x \<noteq> Exp_EX s))"
proof (cases ex)
  case (Some x)
  then show ?thesis
    by (cases x) auto
qed simp

text \<open>Either the command changes nothing and is not logged, or it is logged and its entry, replayed at
  any later time, has the same effect.\<close>

lemma redis_replay:
  assumes "single_key c" "command_ok c" "no_relative_seconds c" "same_libs e er" "\<forall>ex. cur \<noteq> Some (AList [], ex)"
    and "accepts c cur" "redis e c cur = (cur', reply, log)"
  shows "log = [] \<and> cur' = cur \<or>
    log = [c] \<and> (\<exists>c' r log'. logged (env_now e) c = Some c' \<and> single_key c' \<and> get_key c' = get_key c \<and> accepts c' cur \<and>
      redis er c' cur = (cur', Inr r, log') \<and> c' \<noteq> Multi \<and> c' \<noteq> Exec)"
proof (cases c)
  case (Set k v ex cond)
  have "map_option (calculate_expiration_timestamp_ms (env_now er)) (map_option (logged_expiration (env_now e)) ex) =
      map_option (calculate_expiration_timestamp_ms (env_now e)) ex"
    using assms(3) unfolding Set no_relative_seconds_Set by (cases ex) (simp_all add: logged_deadline)
  moreover have "stored_bytes e v = stored_bytes er v"
    by (rule stored_bytes_libs [OF assms(4)])
  ultimately show ?thesis
    using assms(7) by (auto simp: Set set_refused_def get_key_def split: if_splits)
next
  case (JsonSet k p v)
  then show ?thesis
    using assms(4,7) by (auto simp: same_libs_def on_json_def get_key_def split: option.splits prod.splits aval.splits if_splits)
next
  case (ZRem k m)
  then show ?thesis
    using assms(7) by (auto simp: on_zset_def get_key_def split: option.splits prod.splits aval.splits if_splits)
next
  case (LPop k)
  then show ?thesis
    using assms(5,7) by (auto simp: on_list_def get_key_def split: option.splits prod.splits aval.splits list.splits)
next
  case (ZAdd k sc m)
  then show ?thesis
    using assms(6,7) by (auto simp: on_zset_def get_key_def Let_def split: option.splits prod.splits aval.splits)
next
  case (LPush k vs)
  then show ?thesis
    using assms(2,7) by (auto simp: on_list_def get_key_def Let_def split: option.splits prod.splits aval.splits)
next
  case (HSet k fvs)
  then show ?thesis
    using assms(7) by (auto simp: on_hash_def get_key_def Let_def split: option.splits prod.splits aval.splits)
next
  case (HDel k fs)
  then show ?thesis
    using assms(7) by (auto simp: on_hash_def get_key_def split: option.splits prod.splits aval.splits)
qed (use assms in \<open>auto simp: on_hash_def on_zset_def on_json_def get_key_def split: option.splits prod.splits aval.splits\<close>)

lemma redis_no_empty_list:
  assumes "command_ok c" "\<forall>ex. cur \<noteq> Some (AList [], ex)"
  shows "fst (redis e c cur) \<noteq> Some (AList [], ex)"
  using assms
  by (cases c) (auto simp: on_hash_def on_list_def on_zset_def on_json_def Let_def
      split: option.splits prod.splits aval.splits list.splits if_splits)

section \<open>Runs\<close>

text \<open>What a command of a run must satisfy: it is a write or read of one key or an \<^verbatim>\<open>MSET\<close>, as
  the command parser accepts it; its key is not past its deadline; an expiry is not relative in
  seconds, and fits the log; the log entry fits the reader.\<close>

definition servable :: "resp_env \<Rightarrow> 'j env \<Rightarrow> Command \<Rightarrow> 'j adb \<Rightarrow> bool" where
  "servable R e c A \<longleftrightarrow>
     ((\<exists>kvs. c = MSet kvs) \<or> single_key c) \<and> command_ok c \<and> no_relative_seconds c \<and> log_survives (env_now e) c \<and>
     (\<forall>k. get_key c = Some k \<longrightarrow> fresh e (A k) \<and> accepts c (A k)) \<and>
     (\<forall>c'. logged (env_now e) c = Some c' \<longrightarrow> request_frame R (command_frame (ext_of e) c'))"

fun servable_run :: "resp_env \<Rightarrow> 'j env \<Rightarrow> ('j env \<times> Command) list \<Rightarrow> 'j adb \<Rightarrow> bool" where
  "servable_run R e0 [] A \<longleftrightarrow> True"
| "servable_run R e0 ((e, c) # run) A \<longleftrightarrow>
     same_conf e0 e \<and> servable R e c A \<and> servable_run R e0 run (astep e c A)"

fun arun :: "('j env \<times> Command) list \<Rightarrow> 'j adb \<Rightarrow> 'j adb" where
  "arun [] A = A"
| "arun ((e, c) # run) A = arun run (astep e c A)"

fun log_messages :: "('j env \<times> Command) list \<Rightarrow> 'j adb \<Rightarrow> bytes list" where
  "log_messages [] A = []"
| "log_messages ((e, c) # run) A = log_bytes e CtxNormal (alog e c A) @ log_messages run (astep e c A)"

fun client_run :: "'j engine \<Rightarrow> nat option \<Rightarrow> ('j env \<times> Command) list \<Rightarrow> 'j world \<Rightarrow> 'j world option" where
  "client_run ev conn [] w = Some w"
| "client_run ev conn ((e, c) # run) w =
     (case execute_command_normal e ev conn c w of
        Some (w1, Done _) \<Rightarrow> client_run ev conn run w1
      | _ \<Rightarrow> None)"

definition no_empty_lists :: "'j adb \<Rightarrow> bool" where
  "no_empty_lists A \<longleftrightarrow> (\<forall>k ex. A k \<noteq> Some (AList [], ex))"

lemma astep_single: "single_key c \<Longrightarrow> get_key c = Some k \<Longrightarrow> astep e c A = A(k := fst (redis e c (A k)))"
  by (cases c) (simp_all add: astep_def get_key_def)

lemma alog_single: "single_key c \<Longrightarrow> get_key c = Some k \<Longrightarrow> alog e c A = snd (snd (redis e c (A k)))"
  by (cases c) (simp_all add: alog_def get_key_def)

lemma servable_single: "servable R e c A \<Longrightarrow> \<nexists>kvs. c = MSet kvs \<Longrightarrow> \<exists>k. single_key c \<and> get_key c = Some k"
  unfolding servable_def by (cases c) (auto simp: get_key_def)

lemma astep_no_empty:
  assumes "no_empty_lists A" "servable R e c A"
  shows "no_empty_lists (astep e c A)"
proof (cases "\<exists>kvs. c = MSet kvs")
  case True
  then show ?thesis
    using assms(1) by (auto simp: no_empty_lists_def astep_def split: option.splits)
next
  case False
  then obtain k where k: "single_key c" "get_key c = Some k"
    using servable_single [OF assms(2)] by blast
  then show ?thesis
    using redis_no_empty_list [of c "A k" e] assms by (simp add: astep_single no_empty_lists_def servable_def)
qed

text \<open>One command: executed by a client it moves the store and the log, and the entry it logs, if any,
  moves a recovering store to the same abstract database.\<close>

lemma client_step:
  assumes "db_rel e w A" "servable R e c A"
  shows "\<exists>w' r. execute_command_normal e ev (Some 0) c w = Some (w', Done r) \<and> db_rel e w' (astep e c A) \<and>
    aof_sent w' = aof_sent w @ log_bytes e CtxNormal (alog e c A)"
proof (cases "\<exists>kvs. c = MSet kvs")
  case True
  then obtain kvs where "c = MSet kvs"
    by blast
  then show ?thesis
    using mset_step [OF assms(1), of CtxNormal ev kvs] by (auto simp: execute_command_normal_def alog_def)
next
  case False
  then obtain k where k: "single_key c" "get_key c = Some k"
    using servable_single [OF assms(2)] by blast
  obtain cur' reply log where rd: "redis e c (A k) = (cur', reply, log)"
    by (cases "redis e c (A k)")
  have "fresh e (A k)" "accepts c (A k)"
    using assms(2) k(2) by (simp_all add: servable_def)
  from single_step [OF assms(1) k this _ rd, of CtxNormal ev] show ?thesis
    by (auto simp: execute_command_normal_def astep_single [OF k] alog_single [OF k] rd)
qed

lemma logged_readable:
  assumes "ext_ok (ext_of er)" "same_libs e er" "servable R e c A" "logged (env_now e) c = Some c'"
  shows "log_of R (ext_of er) [command_frame (ext_of e) c'] [c'] \<and>
    encode_aof_command (ext_of e) (env_now e) c = [serialize (command_frame (ext_of e) c')]"
proof -
  have E: "ext_of er = ext_of e"
    using assms(2) by (simp add: same_libs_def)
  have "loggable (env_now e) c"
    using accepted_loggable [OF _ assms(4)] assms(3) by (simp add: servable_def)
  then have "try_from (ext_of e) (command_frame (ext_of e) c') = Inr c'"
    using try_from_command_frame [OF assms(1) [unfolded E], of "env_now e" c] assms(4) by auto
  then show ?thesis
    using assms(3,4) encode_log_frame(1) [OF assms(4)] by (simp add: E servable_def)
qed

lemma apply_outside:
  "c \<noteq> Multi \<Longrightarrow> c \<noteq> Exec \<Longrightarrow>
   apply_aof_command e ev conn c (None, w) = map_option (\<lambda>(w', r). ((None, w'), r)) (run_recovered e ev conn c w)"
  by (cases c) (simp_all add: apply_aof_command_def)

lemma fresh_at_start: "env_now e = 0 \<Longrightarrow> fresh e a"
  by (simp add: fresh_def)

lemma recovery_step:
  assumes "db_rel er wr A" "servable R e c A" "same_libs e er" "env_now er = 0" "no_empty_lists A" "ext_ok (ext_of er)"
  shows "\<exists>fs cs wr'. log_bytes e CtxNormal (alog e c A) = map serialize fs \<and> log_of R (ext_of er) fs cs \<and>
    replay er ev (Some 0) cs (None, wr) = Some ((None, wr'), Inr ()) \<and> db_rel er wr' (astep e c A) \<and> aof_sent wr' = aof_sent wr \<and>
    (\<forall>c \<in> set cs. c \<noteq> Multi \<and> c \<noteq> Exec)"
proof (cases "\<exists>kvs. c = MSet kvs")
  case True
  then obtain kvs where c: "c = MSet kvs"
    by blast
  have "astep er (MSet kvs) A = astep e (MSet kvs) A"
    by (simp add: astep_def fun_eq_iff stored_bytes_libs [OF assms(3)] split: option.split)
  then obtain wr' where "execute er ev CtxRecovery (Some 0) (MSet kvs) wr = Some (wr', Done (Inr (Simple ''OK'')))"
    "db_rel er wr' (astep e c A)" "aof_sent wr' = aof_sent wr"
    using mset_step [OF assms(1), of CtxRecovery ev kvs] c by (auto simp: log_bytes_def)
  then show ?thesis
    using logged_readable [OF assms(6,3,2), of c]
    by (intro exI [of _ "[command_frame (ext_of e) c]"] exI [of _ "[c]"] exI [of _ wr'])
      (simp add: c alog_def log_bytes_def apply_aof_command_def run_recovered_def execute_command_def)
next
  case False
  then obtain k where k: "single_key c" "get_key c = Some k"
    using servable_single [OF assms(2)] by blast
  obtain cur' reply log where rd: "redis e c (A k) = (cur', reply, log)"
    by (cases "redis e c (A k)")
  have step: "astep e c A = A(k := cur')" "alog e c A = log"
    by (simp_all add: astep_single [OF k] alog_single [OF k] rd)
  have "command_ok c" "no_relative_seconds c" "accepts c (A k)" "\<forall>ex. A k \<noteq> Some (AList [], ex)"
    using assms(2,5) k(2) by (auto simp: servable_def no_empty_lists_def)
  from redis_replay [OF k(1) this(1,2) assms(3) this(4,3) rd] consider "log = []" "cur' = A k"
    | c' r log' where "log = [c]" "logged (env_now e) c = Some c'" "single_key c'" "get_key c' = Some k" "accepts c' (A k)"
      "redis er c' (A k) = (cur', Inr r, log')" "c' \<noteq> Multi" "c' \<noteq> Exec"
    using k(2) by auto
  then show ?thesis
  proof cases
    case 1
    then show ?thesis
      using assms(1) by (intro exI [of _ "[]"] exI [of _ "[]"] exI [of _ wr]) (simp add: step log_bytes_def)
  next
    case 2
    obtain wr' where "execute er ev CtxRecovery (Some 0) c' wr = Some (wr', Done (Inr r))" "db_rel er wr' (A(k := cur'))"
      "aof_sent wr' = aof_sent wr"
      using single_step [OF assms(1) 2(3,4) fresh_at_start [OF assms(4)] 2(5) _ 2(6), of CtxRecovery ev] by (auto simp: log_bytes_def)
    then have "apply_aof_command er ev (Some 0) c' (None, wr) = Some ((None, wr'), Inr ())" "db_rel er wr' (A(k := cur'))"
      "aof_sent wr' = aof_sent wr"
      using 2(7,8) by (simp_all add: apply_outside run_recovered_def execute_command_def)
    then show ?thesis
      using logged_readable [OF assms(6,3,2) 2(2)] 2(1,7,8)
      by (intro exI [of _ "[command_frame (ext_of e) c']"] exI [of _ "[c']"] exI [of _ wr']) (simp add: step log_bytes_def)
  qed
qed

lemma client_run_tracks:
  "servable_run R e0 run A \<Longrightarrow> db_rel e0 w A \<Longrightarrow>
   \<exists>w'. client_run ev (Some 0) run w = Some w' \<and> db_rel e0 w' (arun run A) \<and> aof_sent w' = aof_sent w @ log_messages run A"
proof (induction run arbitrary: A w)
  case (Cons x run)
  obtain e c where x: "x = (e, c)"
    by (cases x)
  have e: "same_conf e0 e" "servable R e c A" "servable_run R e0 run (astep e c A)"
    using Cons.prems(1) by (simp_all add: x)
  obtain w1 r where w1: "execute_command_normal e ev (Some 0) c w = Some (w1, Done r)" "db_rel e0 w1 (astep e c A)"
    "aof_sent w1 = aof_sent w @ log_bytes e CtxNormal (alog e c A)"
    using client_step [OF Cons.prems(2) [unfolded db_rel_conf [OF e(1)]] e(2)] db_rel_conf [OF e(1)] by blast
  then show ?case
    using Cons.IH [OF e(3) w1(2)] by (auto simp: x)
qed simp

text \<open>A history of commands, of one or of several lives of the server: its log replays.\<close>

fun history_ok :: "resp_env \<Rightarrow> 'j env \<Rightarrow> ('j env \<times> Command) list \<Rightarrow> 'j adb \<Rightarrow> bool" where
  "history_ok R er [] A \<longleftrightarrow> True"
| "history_ok R er ((e, c) # run) A \<longleftrightarrow> same_libs e er \<and> servable R e c A \<and> history_ok R er run (astep e c A)"

lemma servable_history: "servable_run R e0 run A \<Longrightarrow> same_libs e0 er \<Longrightarrow> history_ok R er run A"
proof (induction run arbitrary: A)
  case (Cons x run)
  then show ?case
    by (cases x) (auto simp: same_conf_def same_libs_def)
qed simp

lemma arun_append [simp]: "arun (xs @ ys) A = arun ys (arun xs A)"
  by (induction xs arbitrary: A) auto

lemma log_messages_append [simp]: "log_messages (xs @ ys) A = log_messages xs A @ log_messages ys (arun xs A)"
  by (induction xs arbitrary: A) auto

lemma history_ok_append [simp]: "history_ok R er (xs @ ys) A \<longleftrightarrow> history_ok R er xs A \<and> history_ok R er ys (arun xs A)"
  by (induction xs arbitrary: A) auto

lemma history_replays:
  assumes "ext_ok (ext_of er)" "env_now er = 0"
  shows "history_ok R er run A \<Longrightarrow> db_rel er wr A \<Longrightarrow> no_empty_lists A \<Longrightarrow>
    \<exists>fs cs wr'. log_messages run A = map serialize fs \<and> log_of R (ext_of er) fs cs \<and>
      replay er ev (Some 0) cs (None, wr) = Some ((None, wr'), Inr ()) \<and> db_rel er wr' (arun run A) \<and> aof_sent wr' = aof_sent wr \<and>
      (\<forall>c \<in> set cs. c \<noteq> Multi \<and> c \<noteq> Exec)"
proof (induction run arbitrary: A wr)
  case Nil
  then show ?case
    by (intro exI [of _ "[]"] exI [of _ wr]) simp
next
  case (Cons x run)
  obtain e c where x: "x = (e, c)"
    by (cases x)
  have e: "same_libs e er" "servable R e c A" "history_ok R er run (astep e c A)"
    using Cons.prems(1) by (simp_all add: x)
  obtain fs cs wr1 where r1: "log_bytes e CtxNormal (alog e c A) = map serialize fs" "log_of R (ext_of er) fs cs"
    "replay er ev (Some 0) cs (None, wr) = Some ((None, wr1), Inr ())" "db_rel er wr1 (astep e c A)" "aof_sent wr1 = aof_sent wr"
    "\<forall>c \<in> set cs. c \<noteq> Multi \<and> c \<noteq> Exec"
    using recovery_step [OF Cons.prems(2) e(2,1) assms(2) Cons.prems(3) assms(1)] by blast
  obtain fs2 cs2 wr2 where r2: "log_messages run (astep e c A) = map serialize fs2"
    "log_of R (ext_of er) fs2 cs2" "replay er ev (Some 0) cs2 (None, wr1) = Some ((None, wr2), Inr ())"
    "db_rel er wr2 (arun run (astep e c A))" "aof_sent wr2 = aof_sent wr1" "\<forall>c \<in> set cs2. c \<noteq> Multi \<and> c \<noteq> Exec"
    using Cons.IH [OF e(3) r1(4) astep_no_empty [OF Cons.prems(3) e(2)]] by blast
  have "replay er ev (Some 0) (cs @ cs2) (None, wr) = Some ((None, wr2), Inr ())"
    using replay_append [OF r1(3)] r2(3) by simp
  then show ?case
    using r1(1,2,5,6) r2 by (intro exI [of _ "fs @ fs2"] exI [of _ "cs @ cs2"] exI [of _ wr2]) (auto simp: x)
qed

text \<open>Recovery of a file that holds the log of a history.\<close>

lemma history_recovers:
  assumes "ext_ok (ext_of er)" "env_now er = 0" "0 < num_shards er" "finder_ok R" "history_ok R er run Map.empty"
    and "length (concat (log_messages run Map.empty)) \<le> min (rd 0) FILE_DATA_LEN"
  shows "\<exists>w. explain_execute_aofcommand R er ev (Some 0) rd (Some (concat (log_messages run Map.empty))) (Storage_new er ty) =
      Some (w, Some (concat (log_messages run Map.empty)), Inr ()) \<and> db_rel er w (arun run Map.empty) \<and> aof_sent w = []"
proof -
  have "no_empty_lists (Map.empty :: 'a adb)"
    by (simp add: no_empty_lists_def)
  from history_replays [OF assms(1,2,5) db_rel_new [OF assms(3)] this] obtain fs cs w where w:
    "log_messages run Map.empty = map serialize fs" "log_of R (ext_of er) fs cs" "db_rel er w (arun run Map.empty)"
    "replay er ev (Some 0) cs (None, Storage_new er ty) = Some ((None, w), Inr ())" "aof_sent w = []"
    by (force simp: Storage_new_def)
  have "explain_execute_aofcommand R er ev (Some 0) rd (Some (wire fs @ [])) (Storage_new er ty) = Some (w, Some (wire fs), Inr ())"
    using assms(6) w(1) by (intro recover_whole [OF assms(4) w(2,4)]) simp_all
  then show ?thesis
    using w by auto
qed

section \<open>Properties\<close>

text \<open>Property C1: durability. Run any sequence of commands against an empty server, at any times and
  with any random draws; then start a server, with another number of shards, another hash and another
  eviction policy if one likes, on the file the first one wrote. Recovery succeeds and leaves the file as it is, and
  for every key both stores hold the same abstract value with the same deadline: the one the
  abstract commands compute. Relative expiries in seconds and keys past their deadline are
  excluded (the two defects stated elsewhere), and the file is read at once.\<close>

theorem aof_recovery_restores_store:
  assumes "0 < num_shards e0" and "0 < num_shards er" and "same_libs e0 er" and "env_now er = 0"
    and "ext_ok (ext_of e0)" and "finder_ok R" and "servable_run R e0 run Map.empty"
    and "length (concat (log_messages run Map.empty)) \<le> min (rd 0) FILE_DATA_LEN"
  shows "\<exists>w w'. client_run ev (Some 0) run (Storage_new e0 ty) = Some w \<and>
    aof_sent w = log_messages run Map.empty \<and>
    explain_execute_aofcommand R er ev' (Some 0) rd (Some (concat (aof_sent w))) (Storage_new er ty') =
      Some (w', Some (concat (aof_sent w)), Inr ()) \<and>
    world_ok e0 w \<and> world_ok er w' \<and>
    (\<forall>k. slot_rel e0 (peek e0 0 k w) (arun run Map.empty k) \<and> slot_rel er (peek er 0 k w') (arun run Map.empty k))"
proof -
  obtain w where w: "client_run ev (Some 0) run (Storage_new e0 ty) = Some w" "db_rel e0 w (arun run Map.empty)"
    "aof_sent w = log_messages run Map.empty"
    using client_run_tracks [OF assms(7) db_rel_new [OF assms(1)]] by (force simp: Storage_new_def)
  have "ext_ok (ext_of er)"
    using assms(3,5) by (simp add: same_libs_def)
  from history_recovers [where rd = rd and ev = ev' and ty = ty', OF this assms(4,2,6) servable_history [OF assms(7,3)] assms(8)]
  obtain w' where "explain_execute_aofcommand R er ev' (Some 0) rd (Some (concat (aof_sent w))) (Storage_new er ty') =
      Some (w', Some (concat (aof_sent w)), Inr ())" "db_rel er w' (arun run Map.empty)"
    using w(3) by auto
  then show ?thesis
    using w by (intro exI [of _ w] exI [of _ w']) (simp add: db_rel_def)
qed

definition demo_restart :: "unit env" where
  "demo_restart = demo_env\<lparr>rt_of := demo_rt\<lparr>cached_time_ms := 0\<rparr>, num_shards := 3\<rparr>"

definition demo_run :: "(unit env \<times> Command) list" where
  "demo_run = [(demo_env, LPush ''k'' [''a'', ''b'']), (demo_env, LPop ''k'')]"

lemma demo_run_ok:
  "servable_run std_resp demo_env demo_run Map.empty"
  "arun demo_run Map.empty ''k'' = Some (AList [''a''], None)"
  "length (concat (log_messages demo_run Map.empty)) \<le> 4096"
proof -
  have "utf8_valid ''k''"
    by (simp add: ascii_utf8_valid nat_of_char_def)
  then show "servable_run std_resp demo_env demo_run Map.empty"
    by (simp add: demo_run_def servable_def same_conf_def same_libs_def get_key_def astep_def on_list_def fresh_def
        std_resp_def vec_capacity_ok_def USIZE_MAX_def)
  show "arun demo_run Map.empty ''k'' = Some (AList [''a''], None)"
    by (simp add: demo_run_def get_key_def astep_def on_list_def)
  show "length (concat (log_messages demo_run Map.empty)) \<le> 4096"
    by (simp add: demo_run_def get_key_def astep_def alog_def on_list_def log_bytes_def encode_lpush_def encode_lpop_def
        show_nat.simps crlf_def)
qed

theorem aof_recovery_restores_store_witness:
  "\<exists>w w'. client_run (\<lambda>_ _ _ _ _. None) (Some 0) demo_run (Storage_new demo_env LRU) = Some w \<and>
     explain_execute_aofcommand std_resp demo_restart (\<lambda>_ _ _ _ _. None) (Some 0) (\<lambda>_. 4096) (Some (concat (aof_sent w)))
       (Storage_new demo_restart LFU) = Some (w', Some (concat (aof_sent w)), Inr ()) \<and>
     slot_rel demo_restart (peek demo_restart 0 ''k'' w') (Some (AList [''a''], None))"
proof -
  have "same_libs demo_env demo_restart" "0 < num_shards demo_env" "0 < num_shards demo_restart" "env_now demo_restart = 0"
    "ext_ok (ext_of demo_env)" "length (concat (log_messages demo_run Map.empty)) \<le> min ((\<lambda>_. 4096) 0) FILE_DATA_LEN"
    using demo_run_ok(3) by (simp_all add: same_libs_def demo_restart_def demo_ext_ok FILE_DATA_LEN_def)
  then show ?thesis
    using aof_recovery_restores_store [of demo_env demo_restart std_resp demo_run "\<lambda>_. 4096" "\<lambda>_ _ _ _ _. None" LRU
        "\<lambda>_ _ _ _ _. None" LFU] demo_run_ok(1,2)
    by (metis (no_types, lifting) std_resp_ok)
qed

text \<open>Property C34: a deadline in seconds does not survive a restart. Execute \<^verbatim>\<open>SET k v EX s\<close> on an empty store: the entry gets the right
  deadline. The log entry carries it in milliseconds under the keyword \<^verbatim>\<open>EXAT\<close>, which is read in seconds: after recovery of that log the
  key has a deadline a thousand times as large. (The product fits 64 bits, and the entry is read at once.)\<close>

theorem recovered_ex_deadline:
  assumes "0 < num_shards e" and "0 < num_shards er" and "ext_ok (ext_of e)" and "finder_ok R" and "same_libs e er" and "env_now er = 0"
    and "utf8_valid k" and "0 < unat s" and "(unat (env_now e) + unat s * 1000) * 1000 < 2 ^ 64"
    and "request_frame R (command_frame (ext_of e) (Set k v (Some (Exp_EXAT (env_now e + s * 1000))) None))"
    and "length (encode_set (ext_of e) (env_now e) k v (Some (Exp_EX s))) \<le> min (rd 0) FILE_DATA_LEN"
  shows "\<exists>w wr d d'. execute_command_normal e ev (Some 0) (Set k v (Some (Exp_EX s)) None) (Storage_new e ty) =
      Some (w, Done (Inr (Simple ''OK''))) \<and>
    aof_sent w = [encode_set (ext_of e) (env_now e) k v (Some (Exp_EX s))] \<and>
    explain_execute_aofcommand R er ev' (Some 0) rd (Some (concat (aof_sent w))) (Storage_new er ty') =
      Some (wr, Some (concat (aof_sent w)), Inr ()) \<and>
    map_option expires_at (peek e 0 k w) = Some (Some d) \<and> unat d = unat (env_now e) + unat s * 1000 \<and>
    map_option expires_at (peek er 0 k wr) = Some (Some d') \<and> unat d' = 1000 * unat d"
proof -
  let ?c = "Set k v (Some (Exp_EX s)) None" and ?d = "env_now e + s * 1000"
  let ?c' = "Set k v (Some (Exp_EXAT ?d)) None"
  let ?f = "command_frame (ext_of e) ?c'"
  have d: "unat ?d = unat (env_now e) + unat s * 1000"
    using assms(9) by (simp add: unat_word_ariths)
  then have d': "unat (saturating_mul_u64 ?d 1000) = 1000 * unat ?d"
    using assms(9) unat_saturating_mul [of ?d 1000] by simp
  have "loggable (env_now e) ?c"
    using assms(7-9) d by (simp add: expiration_loggable_def)
  then have f: "log_of R (ext_of er) [?f] [?c']" "encode_set (ext_of e) (env_now e) k v (Some (Exp_EX s)) = serialize ?f"
    using assms(5,10) try_from_command_frame [OF assms(3), of "env_now e" ?c] encode_log_frame(1) [of "env_now e" ?c ?c' "ext_of e"]
    by (simp_all add: same_libs_def del: command_frame.simps)
  obtain w where w: "execute e ev CtxNormal (Some 0) ?c (Storage_new e ty) = Some (w, Done (Inr (Simple ''OK'')))"
    "db_rel e w [k \<mapsto> (AStr (stored_bytes e v), Some ?d)]" "aof_sent w = aof_sent (Storage_new e ty) @ log_bytes e CtxNormal [?c]"
    using single_step [OF db_rel_new [OF assms(1), of ty], of ?c k CtxNormal "Some (AStr (stored_bytes e v), Some ?d)" "Inr (Simple ''OK'')" "[?c]" ev]
    by (auto simp: get_key_def set_refused_def fresh_def)
  obtain wr where wr: "execute er ev' CtxRecovery (Some 0) ?c' (Storage_new er ty') = Some (wr, Done (Inr (Simple ''OK'')))"
    "db_rel er wr [k \<mapsto> (AStr (stored_bytes er v), Some (saturating_mul_u64 ?d 1000))]"
    using single_step [OF db_rel_new [OF assms(2), of ty'], of ?c' k CtxRecovery
        "Some (AStr (stored_bytes er v), Some (saturating_mul_u64 ?d 1000))" "Inr (Simple ''OK'')" "[?c']" ev']
    by (auto simp: get_key_def set_refused_def fresh_def)
  have "replay er ev' (Some 0) [?c'] (None, Storage_new er ty') = Some ((None, wr), Inr ())"
    using wr(1) by (simp add: apply_outside run_recovered_def execute_command_def)
  from recover_whole [where rd = rd and torn = "[]", OF assms(4) f(1) this] have
    "explain_execute_aofcommand R er ev' (Some 0) rd (Some (serialize ?f)) (Storage_new er ty') = Some (wr, Some (serialize ?f), Inr ())"
    using assms(11) f(2) by simp
  moreover have sent: "aof_sent w = [encode_set (ext_of e) (env_now e) k v (Some (Exp_EX s))]"
    using w(3) by (simp add: log_bytes_def Storage_new_def)
  ultimately have rec: "explain_execute_aofcommand R er ev' (Some 0) rd (Some (concat (aof_sent w))) (Storage_new er ty') =
      Some (wr, Some (concat (aof_sent w)), Inr ())"
    by (simp only: f(2) concat.simps append_Nil2)
  have "map_option expires_at (peek e 0 k w) = Some (Some ?d)"
    "map_option expires_at (peek er 0 k wr) = Some (Some (saturating_mul_u64 ?d 1000))"
    using w(2) wr(2) by (auto simp: db_rel_def ent_rel_def dest!: spec [of _ k] elim!: slot_relE)
  then show ?thesis
    using w(1) [folded execute_command_normal_def] sent rec d d' by blast
qed

theorem recovered_ex_deadline_witness:
  "\<exists>w wr. execute_command_normal demo_env (\<lambda>_ _ _ _ _. None) (Some 0) (Set ''k'' ''v'' (Some (Exp_EX 10)) None) (Storage_new demo_env LRU) =
      Some (w, Done (Inr (Simple ''OK''))) \<and>
    explain_execute_aofcommand std_resp demo_restart (\<lambda>_ _ _ _ _. None) (Some 0) (\<lambda>_. 4096) (Some (concat (aof_sent w)))
      (Storage_new demo_restart LFU) = Some (wr, Some (concat (aof_sent w)), Inr ()) \<and>
    map_option expires_at (peek demo_env 0 ''k'' w) = Some (Some 10009) \<and>
    map_option expires_at (peek demo_restart 0 ''k'' wr) = Some (Some 10009000)"
proof -
  have k: "utf8_valid ''k''"
    by (simp add: ascii_utf8_valid nat_of_char_def)
  have s: "0 < unat (10 :: u64)" "(unat (env_now demo_env) + unat (10 :: u64) * 1000) * 1000 < 2 ^ 64"
    by simp_all
  have envs: "0 < num_shards demo_env" "0 < num_shards demo_restart" "env_now demo_restart = 0" "same_libs demo_env demo_restart"
    "ext_ok (ext_of demo_env)"
    by (simp_all add: same_libs_def demo_restart_def demo_ext_ok)
  have d: "itoa_format demo_ext 10009 = ''10009''"
    by (simp add: demo_ext_def show_int_def show_nat.simps)
  have frame: "request_frame std_resp (command_frame (ext_of demo_env) (Set ''k'' ''v'' (Some (Exp_EXAT (env_now demo_env + 10 * 1000))) None))"
    by (simp add: d std_resp_def vec_capacity_ok_def USIZE_MAX_def)
  have size: "length (encode_set (ext_of demo_env) (env_now demo_env) ''k'' ''v'' (Some (Exp_EX 10))) \<le> min ((\<lambda>_. 4096) 0) FILE_DATA_LEN"
    by (simp add: encode_set_def exchange_absolute_time_def parse_int_from_bytes_u64_def d show_nat.simps crlf_def FILE_DATA_LEN_def)
  from recovered_ex_deadline [where rd = "\<lambda>_. 4096" and ev = "\<lambda>_ _ _ _ _. None" and ev' = "\<lambda>_ _ _ _ _. None" and ty = LRU and ty' = LFU,
      OF envs(1,2,5) std_resp_ok envs(4,3) k s frame size]
  obtain w wr d d' where w: "execute_command_normal demo_env (\<lambda>_ _ _ _ _. None) (Some 0) (Set ''k'' ''v'' (Some (Exp_EX 10)) None)
      (Storage_new demo_env LRU) = Some (w, Done (Inr (Simple ''OK'')))"
    "explain_execute_aofcommand std_resp demo_restart (\<lambda>_ _ _ _ _. None) (Some 0) (\<lambda>_. 4096) (Some (concat (aof_sent w)))
      (Storage_new demo_restart LFU) = Some (wr, Some (concat (aof_sent w)), Inr ())"
    "map_option expires_at (peek demo_env 0 ''k'' w) = Some (Some d)" "unat d = unat (env_now demo_env) + unat (10 :: u64) * 1000"
    "map_option expires_at (peek demo_restart 0 ''k'' wr) = Some (Some d')" "unat d' = 1000 * unat d"
    by blast
  have "d = 10009" "d' = 10009000"
    using w(4,6) by (simp_all add: word_unat_eq_iff)
  then show ?thesis
    using w(1,2,3,5) by blast
qed

end
