(* ===== verification/Script_Log.thy ===== *)
theory Script_Log
  imports Script Durability
begin

text \<open>
  Scripts and the log: what a script committed is what recovery finds. The calls of a script are logged together, between
  \<^verbatim>\<open>MULTI\<close> and \<^verbatim>\<open>EXEC\<close>, when it has ended; recovery collects them and executes them at the \<^verbatim>\<open>EXEC\<close>.

  The log of a group is less careful than that of a client: a call is logged when it did not fail, with whatever
  effect it had, and \<^verbatim>\<open>BLPOP\<close> is never logged. \<open>clean_script\<close> says of a run that each call is one a client could
  have made with the same log: it excludes those cases, and the ones excluded for clients.
\<close>

section \<open>Calls\<close>

text \<open>Calls that change nothing and leave nothing in the log.\<close>

fun neutral :: "Command \<Rightarrow> bool" where
  "neutral (Ping v) \<longleftrightarrow> True"
| "neutral (Unimplemented n as) \<longleftrightarrow> True"
| "neutral (MGet ks) \<longleftrightarrow> True"
| "neutral Multi \<longleftrightarrow> True"
| "neutral Exec \<longleftrightarrow> True"
| "neutral _ \<longleftrightarrow> False"

text \<open>A call that is logged has had an effect.\<close>

definition call_logged :: "'j env \<Rightarrow> Command \<Rightarrow> 'j adb \<Rightarrow> bool" where
  "call_logged e c A \<longleftrightarrow> logged (env_now e) c = None \<or> alog e c A \<noteq> []"

primrec clean_script :: "resp_env \<Rightarrow> 'j env \<Rightarrow> nat list \<Rightarrow> script \<Rightarrow> 'j adb \<Rightarrow> bool" where
  "clean_script R e order (Return v) A \<longleftrightarrow> True"
| "clean_script R e order Raise A \<longleftrightarrow> True"
| "clean_script R e order (Call args k) A \<longleftrightarrow>
     (case those (map (lua_value_to_bulk_frame (ext_of e)) args) of
        None \<Rightarrow> clean_script R e order (k None) A
      | Some frames \<Rightarrow>
          (case try_from (ext_of e) (Array frames) of
             Inl er \<Rightarrow> clean_script R e order (k None) A
           | Inr c \<Rightarrow>
               (case acall e order c A of
                  None \<Rightarrow> True
                | Some (A', None) \<Rightarrow> (\<forall>kvs. c \<noteq> MSet kvs) \<and> clean_script R e order (k None) A'
                | Some (A', Some f) \<Rightarrow>
                    (neutral c \<or> servable R e c A \<and> call_logged e c A) \<and>
                    clean_script R e order (k (Some (into_lua f))) A')))"

text \<open>The part of a run that matters to the store.\<close>

definition effective :: "'j env \<Rightarrow> Command list \<Rightarrow> ('j env \<times> Command) list" where
  "effective e log = map (Pair e) (filter (\<lambda>c. \<not> neutral c) log)"

lemma redis_error_keeps: "redis e c cur = (a, Inl er, log) \<Longrightarrow> a = cur"
  by (cases c) (auto simp: on_hash_def on_list_def on_zset_def on_json_def Let_def
      split: if_splits option.splits prod.splits aval.splits list.splits)

lemma failed_call_keeps:
  assumes "acall e order c A = Some (A', None)" "\<forall>kvs. c \<noteq> MSet kvs"
  shows "A' = A"
proof (cases "single_key c")
  case True
  then show ?thesis
    using assms(1) redis_error_keeps [of e c]
    by (auto simp: acall_single fun_upd_idem split: option.splits if_splits prod.splits sum.splits)
next
  case False
  then show ?thesis
    using assms by (cases c) (auto simp: acall_def get_key_def split: if_splits prod.splits)
qed

lemma amset_store:
  "amset e order kvs A = (A', True) \<Longrightarrow>
   A' = (\<lambda>k. case map_of (rev kvs) k of Some v \<Rightarrow> Some (AStr (stored_bytes e v), None) | None \<Rightarrow> A k)"
proof (induction kvs arbitrary: A)
  case (Cons x kvs)
  then show ?case
    by (cases x) (auto simp: fun_eq_iff map_add_def split: if_splits option.splits)
qed simp

lemma call_is_step:
  assumes "acall e order c A = Some (A', Some f)" "servable R e c A"
  shows "A' = astep e c A"
proof (cases "\<exists>kvs. c = MSet kvs")
  case True
  then obtain kvs where c: "c = MSet kvs"
    by blast
  then have "amset e order (sort_key fst kvs) A = (A', True)"
    using assms(1) by (auto simp: acall_def split: prod.splits if_splits)
  then show ?thesis
    using amset_store [of e order "sort_key fst kvs" A A'] by (simp add: c astep_def map_of_sort_key)
next
  case False
  then obtain k where k: "single_key c" "get_key c = Some k"
    using servable_single [OF assms(2)] by blast
  then show ?thesis
    using assms(1) by (auto simp: acall_single astep_single split: if_splits prod.splits)
qed

lemma neutral_call: "acall e order c A = Some (A', Some f) \<Longrightarrow> neutral c \<Longrightarrow> A' = A \<and> encode_group_member E now c = []"
  by (cases c) (auto simp: acall_def get_key_def split: if_splits)

lemma unlogged_member: "logged now c = None \<Longrightarrow> encode_group_member E now c = []"
  by (cases c) auto

lemma client_logs_once:
  assumes "servable R e c A" "no_empty_lists A"
  shows "alog e c A = [] \<or> alog e c A = [c] \<and> (\<exists>c'. logged (env_now e) c = Some c')"
proof (cases "\<exists>kvs. c = MSet kvs")
  case False
  then obtain k where k: "single_key c" "get_key c = Some k"
    using servable_single [OF assms(1)] by blast
  obtain cur' reply log where r: "redis e c (A k) = (cur', reply, log)"
    by (cases "redis e c (A k)")
  have "same_libs e e"
    by (simp add: same_libs_def)
  then show ?thesis
    using redis_replay [OF k(1) _ _ _ _ _ r, of e] assms k r by (auto simp: servable_def no_empty_lists_def alog_single)
qed (auto simp: alog_def)

lemma member_log:
  assumes "servable R e c A" "call_logged e c A" "no_empty_lists A"
  shows "encode_group_member (ext_of e) (env_now e) c = concat (log_bytes e CtxNormal (alog e c A))"
  using client_logs_once [OF assms(1,3)] assms(2) encode_log_frame [of "env_now e" c]
  by (auto simp: call_logged_def log_bytes_def unlogged_member)

text \<open>A \<^verbatim>\<open>BLPOP\<close> in a script takes an element, and no byte of the log says so.\<close>

lemma script_blpop_unlogged:
  assumes "reachable e order k" "A k = Some (AList (b # bs), ex)"
  shows "acall e order (BLPop k t) A = Some (A(k := fst (blpop_spec (A k))), Some (blpop_reply k b))"
    "fst (blpop_spec (A k)) \<noteq> A k" "encode_group_member E now (BLPop k t) = []"
  using assms by (simp_all add: acall_def)

section \<open>Groups\<close>

text \<open>The log of a clean run is the log a client would have left, in a group.\<close>

lemma clean_script_log:
  assumes libs: "same_libs e er"
  shows "clean_script R e order s A \<Longrightarrow> ascript e order s A buf = Some (A', buf', v) \<Longrightarrow> no_empty_lists A \<Longrightarrow>
    \<exists>log. buf' = buf @ log \<and> history_ok R er (effective e log) A \<and> A' = arun (effective e log) A \<and>
      concat (map (encode_group_member (ext_of e) (env_now e)) log) = concat (log_messages (effective e log) A)"
proof (induction s arbitrary: A buf)
  case (Call args k)
  note IH = Call.IH [OF rangeI]
  have failed: ?case if "clean_script R e order (k None) A" "ascript e order (k None) A buf = Some (A', buf', v)"
    using IH [OF that Call.prems(3)] .
  show ?case
  proof (cases "those (map (lua_value_to_bulk_frame (ext_of e)) args)")
    case None
    then show ?thesis
      using Call.prems by (intro failed) auto
  next
    case frames: (Some frames)
    show ?thesis
    proof (cases "try_from (ext_of e) (Array frames)")
      case (Inl er')
      then show ?thesis
        using Call.prems frames by (intro failed) (auto split: if_splits)
    next
      case (Inr c)
      obtain A1 f where call: "acall e order c A = Some (A1, f)"
        using Call.prems(2) frames Inr by (auto split: option.splits)
      show ?thesis
      proof (cases f)
        case None
        then have "A1 = A"
          using Call.prems(1) frames Inr call failed_call_keeps by auto
        then show ?thesis
          using Call.prems frames Inr call None by (intro failed) auto
      next
        case (Some fr)
        have clean: "clean_script R e order (k (Some (into_lua fr))) A1"
          and run: "ascript e order (k (Some (into_lua fr))) A1 (buf @ [c]) = Some (A', buf', v)"
          and c: "neutral c \<or> servable R e c A \<and> call_logged e c A"
          using Call.prems(1,2) frames Inr call Some by auto
        show ?thesis
        proof (cases "neutral c")
          case True
          then have "A1 = A" "encode_group_member (ext_of e) (env_now e) c = []"
            using neutral_call [of e order c A A1 fr] call Some by auto
          then obtain log where "buf' = buf @ c # log" "history_ok R er (effective e log) A" "A' = arun (effective e log) A"
            "concat (map (encode_group_member (ext_of e) (env_now e)) (c # log)) = concat (log_messages (effective e log) A)"
            using IH [OF clean run] Call.prems(3) by auto
          then show ?thesis
            using True by (intro exI [of _ "c # log"]) (simp add: effective_def)
        next
          case False
          then have sv: "servable R e c A" "call_logged e c A"
            using c by auto
          have A1: "A1 = astep e c A"
            using call_is_step sv(1) call Some by blast
          obtain log where "buf' = buf @ c # log" "history_ok R er (effective e log) A1" "A' = arun (effective e log) A1"
            "concat (map (encode_group_member (ext_of e) (env_now e)) log) = concat (log_messages (effective e log) A1)"
            using IH [OF clean run] astep_no_empty [OF Call.prems(3) sv(1)] A1 by auto
          then show ?thesis
            using False sv libs A1 member_log [OF sv Call.prems(3)] by (intro exI [of _ "c # log"]) (simp add: effective_def)
        qed
      qed
    qed
  qed
qed (auto simp: effective_def)

text \<open>A group replays as its commands do.\<close>

lemma replay_transaction:
  "\<forall>c \<in> set cs. c \<noteq> Multi \<and> c \<noteq> Exec \<Longrightarrow> replay e ev conn cs (None, w) = Some ((None, w'), Inr ()) \<Longrightarrow>
   run_transaction e ev conn cs w = Some (w', Inr ())"
proof (induction cs arbitrary: w)
  case (Cons c cs)
  then show ?case
    by (auto simp: apply_outside split: option.splits sum.splits)
qed simp

lemma replay_group:
  assumes "\<forall>c \<in> set cs. c \<noteq> Multi \<and> c \<noteq> Exec" "replay e ev conn cs (None, w) = Some ((None, w'), Inr ())"
  shows "replay e ev conn (Multi # cs @ [Exec]) (None, w) = Some ((None, w'), Inr ())"
proof -
  have "replay e ev conn (cs @ [Exec]) (Some [], w) = replay e ev conn [Exec] (Some cs, w)"
    using replay_append [OF replay_open [OF assms(1), of e ev conn "[]" w]] by simp
  then show ?thesis
    using replay_transaction [OF assms] by (simp add: apply_aof_command_def)
qed

lemma group_frames:
  assumes "ext_ok (ext_of e)" "vec_capacity_ok R 1" "log_of R (ext_of e) fs cs"
  shows "log_of R (ext_of e) (Array [Bulk ''MULTI''] # fs @ [Array [Bulk ''EXEC'']]) (Multi # cs @ [Exec])"
    "encode_multi @ wire fs @ encode_exec = wire (Array [Bulk ''MULTI''] # fs @ [Array [Bulk ''EXEC'']])"
proof -
  have "request_frame R (Array [Bulk ''MULTI''])" "try_from (ext_of e) (Array [Bulk ''MULTI'']) = Inr Multi"
    "request_frame R (Array [Bulk ''EXEC''])" "try_from (ext_of e) (Array [Bulk ''EXEC'']) = Inr Exec"
    using assms(1,2) by (simp_all add: USIZE_MAX_def try_from_command dispatch_def command_names_def)
  then show "log_of R (ext_of e) (Array [Bulk ''MULTI''] # fs @ [Array [Bulk ''EXEC'']]) (Multi # cs @ [Exec])"
    using assms(3) by simp
qed (simp add: encode_multi_def encode_exec_def)

lemma history_no_empty: "history_ok R er run A \<Longrightarrow> no_empty_lists A \<Longrightarrow> no_empty_lists (arun run A)"
proof (induction run arbitrary: A)
  case (Cons x run)
  then show ?case
    by (cases x) (auto intro!: Cons.IH intro: astep_no_empty)
qed simp

lemma group_recovers:
  assumes er: "ext_ok (ext_of er)" "env_now er = 0" "same_libs e er" "0 < num_shards er" and R: "finder_ok R" "vec_capacity_ok R 1"
    and past: "history_ok R er past Map.empty"
    and script: "clean_script R e order s (arun past Map.empty)" "ascript e order s (arun past Map.empty) [] = Some (A', log, v)"
    and size: "length (concat (log_messages past Map.empty @ encode_aof_command (ext_of e) (env_now e) (MultiGroup log))) \<le> min (rd 0) FILE_DATA_LEN"
  shows "\<exists>w. explain_execute_aofcommand R er ev (Some 0) rd
      (Some (concat (log_messages past Map.empty @ log_bytes e CtxNormal (if log = [] then [] else [MultiGroup log])))) (Storage_new er ty) =
      Some (w, Some (concat (log_messages past Map.empty @ log_bytes e CtxNormal (if log = [] then [] else [MultiGroup log]))), Inr ()) \<and>
    db_rel er w A'"
proof -
  have empty: "no_empty_lists (Map.empty :: 'a adb)"
    by (simp add: no_empty_lists_def)
  note noempty = history_no_empty [OF past empty]
  from clean_script_log [OF er(3) script noempty] have group:
    "history_ok R er (effective e log) (arun past Map.empty)" "A' = arun (effective e log) (arun past Map.empty)"
    "concat (map (encode_group_member (ext_of e) (env_now e)) log) = concat (log_messages (effective e log) (arun past Map.empty))"
    by auto
  obtain fs cs w1 where p: "log_messages past Map.empty = map serialize fs" "log_of R (ext_of er) fs cs"
    "replay er ev (Some 0) cs (None, Storage_new er ty) = Some ((None, w1), Inr ())" "db_rel er w1 (arun past Map.empty)"
    using history_replays [OF er(1,2) past db_rel_new [OF er(4)] empty] by blast
  obtain gs ds w2 where g: "log_messages (effective e log) (arun past Map.empty) = map serialize gs" "log_of R (ext_of er) gs ds"
    "replay er ev (Some 0) ds (None, w1) = Some ((None, w2), Inr ())" "db_rel er w2 A'" "\<forall>c \<in> set ds. c \<noteq> Multi \<and> c \<noteq> Exec"
    using history_replays [OF er(1,2) group(1) p(4) noempty, folded group(2)] by blast
  let ?gs = "Array [Bulk ''MULTI''] # gs @ [Array [Bulk ''EXEC'']]"
  have whole: "\<exists>w. explain_execute_aofcommand R er ev (Some 0) rd (Some (wire hs)) (Storage_new er ty) = Some (w, Some (wire hs), Inr ()) \<and> db_rel er w A'"
    if "log_of R (ext_of er) hs es" "replay er ev (Some 0) es (None, Storage_new er ty) = Some ((None, w), Inr ())" "db_rel er w A'"
      "length (wire hs) \<le> min (rd 0) FILE_DATA_LEN" for hs es w
    using recover_whole [where rd = rd and torn = "[]", OF R(1) that(1,2)] that(3,4) by auto
  show ?thesis
  proof (cases "log = []")
    case True
    then show ?thesis
      using whole [OF p(2,3)] p(1,4) group(2) size by (simp add: effective_def log_bytes_def)
  next
    case False
    have bytes: "encode_aof_command (ext_of e) (env_now e) (MultiGroup log) = [wire ?gs]"
      using group_frames(2) [OF er(1) R(2) g(2)] group(3) g(1) by simp
    have "replay er ev (Some 0) (cs @ Multi # ds @ [Exec]) (None, Storage_new er ty) = Some ((None, w2), Inr ())"
      using replay_append [OF p(3)] replay_group [OF g(5,3)] by simp
    moreover have "log_of R (ext_of er) (fs @ ?gs) (cs @ Multi # ds @ [Exec])"
      using p(2) group_frames(1) [OF er(1) R(2) g(2)] by simp
    ultimately show ?thesis
      using whole [of "fs @ ?gs" _ w2] g(4) size False p(1) bytes by (simp add: log_bytes_def del: encode_aof_command.simps)
  qed
qed

section \<open>Properties\<close>

text \<open>Property C5: committed scripts survive a restart. Let the log hold any history, let the visible entries of the
  shards a script locks represent what the history computes, and let every call of the script be one that a client
  could have made with the same log. If the script returns a reply, its commit leaves the abstract result of its calls in
  the store, and recovery of the log written so far, group included, on a server of any size, restores exactly the abstract
  store after the script: all of its calls, in order.\<close>

theorem script_survives_restart:
  assumes "world_ok e w" and "drains_ok L" and "lock_order e keys = Some order"
    and "\<forall>k. reachable e order k \<longrightarrow> slot_rel e (vpeek e 0 k w) (arun past Map.empty k)"
    and "ascript e order (load_script L script keys args) (arun past Map.empty) [] = Some (A', log, v)"
    and "Option.bind v (from_lua (lua_tostring L)) = Some reply"
    and "clean_script R e order (load_script L script keys args) (arun past Map.empty)"
    and "ext_ok (ext_of er)" and "env_now er = 0" and "same_libs e er" and "0 < num_shards er"
    and "finder_ok R" and "vec_capacity_ok R 1" and "history_ok R er past Map.empty" and "aof_sent w = log_messages past Map.empty"
    and "length (concat (log_messages past Map.empty @ encode_aof_command (ext_of e) (env_now e) (MultiGroup log))) \<le> min (rd 0) FILE_DATA_LEN"
  shows "\<exists>w' wr. lua_engine e L (Some 0) script keys args w = Some (w', Inr reply) \<and>
    (\<forall>k. reachable e order k \<longrightarrow> (\<exists>x. slot_rel e x (A' k) \<and> vpeek e 0 k w' = live e x)) \<and>
    explain_execute_aofcommand R er ev (Some 0) rd (Some (concat (aof_sent w'))) (Storage_new er ty) =
      Some (wr, Some (concat (aof_sent w')), Inr ()) \<and>
    (\<forall>k. slot_rel er (peek er 0 k wr) (A' k))"
proof -
  obtain w' where w': "lua_engine e L (Some 0) script keys args w = Some (w', Inr reply)"
    "\<forall>k. reachable e order k \<longrightarrow> (\<exists>x. slot_rel e x (A' k) \<and> vpeek e 0 k w' = live e x)"
    "aof_sent w' = log_messages past Map.empty @ log_bytes e CtxNormal (if log = [] then [] else [MultiGroup log])"
    using script_commits [OF assms(1) _ assms(2-6)] assms(15) by (auto simp: DB_COUNT_def)
  obtain wr where "explain_execute_aofcommand R er ev (Some 0) rd (Some (concat (aof_sent w'))) (Storage_new er ty) =
      Some (wr, Some (concat (aof_sent w')), Inr ())" "db_rel er wr A'"
    using group_recovers [where rd = rd, OF assms(8-14) assms(7,5) assms(16)] unfolding w'(3) by blast
  then show ?thesis
    using w'(1,2) by (auto simp: db_rel_def)
qed

theorem script_survives_restart_witness:
  "\<exists>w wr. lua_engine demo_env demo_lua (Some 0) ''..'' [''k''] [] (Storage_new demo_env LRU) = Some (w, Inr (Simple ''OK'')) \<and>
     explain_execute_aofcommand std_resp demo_restart (\<lambda>_ _ _ _ _. None) (Some 0) (\<lambda>_. 4096) (Some (concat (aof_sent w)))
       (Storage_new demo_restart LFU) = Some (wr, Some (concat (aof_sent w)), Inr ()) \<and>
     slot_rel demo_restart (peek demo_restart 0 ''k'' wr) (Some (AStr (stored_bytes demo_env ''new''), None))"
proof -
  let ?c = "Set ''k'' ''new'' None (Some NX)" and ?s = "load_script demo_lua ''..'' [''k''] []" and ?rd = "\<lambda>_ :: nat. 4096 :: nat"
  have capacity: "vec_capacity_ok std_resp 1"
    by (simp add: vec_capacity_ok_def std_resp_def)
  have "utf8_valid ''k''"
    by (simp add: ascii_utf8_valid nat_of_char_def)
  then have "servable std_resp demo_env ?c Map.empty" "call_logged demo_env ?c Map.empty"
    by (simp_all add: servable_def call_logged_def get_key_def alog_def fresh_def set_refused_def std_resp_def vec_capacity_ok_def
        USIZE_MAX_def)
  then have clean: "clean_script std_resp demo_env [1] ?s Map.empty"
    using demo_script_call by (simp add: demo_lua_def set_nx_script_def del: those.simps list.map)
  have restart: "ext_ok (ext_of demo_restart)" "env_now demo_restart = 0" "same_libs demo_env demo_restart" "0 < num_shards demo_restart"
    by (simp_all add: same_libs_def demo_restart_def demo_ext_ok)
  have size: "length (concat (log_messages [] Map.empty @ encode_aof_command (ext_of demo_env) (env_now demo_env) (MultiGroup [?c])))
      \<le> min (?rd 0) FILE_DATA_LEN"
    by (simp add: encode_set_def encode_multi_def encode_exec_def show_nat.simps crlf_def FILE_DATA_LEN_def)
  have "\<forall>k. reachable demo_env [1] k \<longrightarrow> slot_rel demo_env (vpeek demo_env 0 k (Storage_new demo_env LRU)) (arun [] Map.empty k)"
    "history_ok std_resp demo_restart [] Map.empty" "aof_sent (Storage_new demo_env LRU) = log_messages [] Map.empty"
    using demo_script(3) by (simp_all add: Storage_new_def)
  then obtain w wr where w: "lua_engine demo_env demo_lua (Some 0) ''..'' [''k''] [] (Storage_new demo_env LRU) = Some (w, Inr (Simple ''OK''))"
    "explain_execute_aofcommand std_resp demo_restart (\<lambda>_ _ _ _ _. None) (Some 0) ?rd (Some (concat (aof_sent w)))
       (Storage_new demo_restart LFU) = Some (wr, Some (concat (aof_sent w)), Inr ())"
    "\<forall>k. slot_rel demo_restart (peek demo_restart 0 k wr) (demo_after k)"
    using script_survives_restart [where rd = ?rd and past = "[]" and ty = LFU and ev = "\<lambda>_ _ _ _ _. None",
        OF demo_world_ok demo_lua_ok demo_script(1) _ _ demo_script_result(2) _ restart std_resp_ok capacity _ _ size]
      demo_script_result(1) clean unfolding arun.simps by blast
  then show ?thesis
    using w(3) [rule_format, of "''k''"] by (auto simp: demo_after_def)
qed

end
