(* ===== verification/Replication.thy ===== *)
theory Replication
  imports Server
begin

text \<open>
  Replication and the election state, \<^verbatim>\<open>src/src/replication\<close>.

  The election loop reads the clock and a random timeout at each turn; its state is one record, as only
  this loop writes it. The replica reads what its master sends into a buffer and executes the commands in
  it; \<open>conn\<close> is the connection state of its task. The master greets a replica with a status line and then
  forwards the broadcast messages. The waits between attempts are not modelled.
\<close>

section \<open>Election\<close>

datatype Role = Master | Slave | Candidate

record ElectionState =
  role :: Role
  current_term :: u64
  leader_id :: "string option"
  voted_for :: "string option"
  last_heartbeat :: u64
  my_id :: string

definition ElectionState_new :: "Role \<Rightarrow> string \<Rightarrow> u64 \<Rightarrow> ElectionState" where
  "ElectionState_new initial_role me now =
     \<lparr>role = initial_role, current_term = 0, leader_id = None, voted_for = None, last_heartbeat = now, my_id = me\<rparr>"

definition update_heartbeat :: "u64 \<Rightarrow> ElectionState \<Rightarrow> ElectionState" where
  "update_heartbeat now st = st\<lparr>last_heartbeat := now\<rparr>"

definition saturating_sub_u64 :: "u64 \<Rightarrow> u64 \<Rightarrow> u64" where
  "saturating_sub_u64 x y = (if y \<le> x then x - y else 0)"

definition is_timeout :: "u64 \<Rightarrow> u64 \<Rightarrow> ElectionState \<Rightarrow> bool" where
  "is_timeout now timeout_ms st \<longleftrightarrow> saturating_sub_u64 now (last_heartbeat st) > timeout_ms"

definition initial_election :: "string option \<Rightarrow> string \<Rightarrow> u64 \<Rightarrow> ElectionState" where
  "initial_election replica_of addr now = ElectionState_new (if replica_of = None then Master else Slave) addr now"

definition election_turn :: "u64 \<Rightarrow> u64 \<Rightarrow> u64 \<Rightarrow> ElectionState \<Rightarrow> ElectionState" where
  "election_turn now now' random_timeout st =
     (if role st = Slave \<or> role st = Candidate then
        (if is_timeout now random_timeout st then
           update_heartbeat now' (st\<lparr>role := Candidate, current_term := current_term st + 1, voted_for := Some (my_id st)\<rparr>)
         else st)
      else st)"

inductive election_step :: "ElectionState \<Rightarrow> ElectionState \<Rightarrow> bool" where
  turn: "election_step st (election_turn now now' random_timeout st)"

text \<open>A node never becomes master by an election, a master stays one and its term does not move; a node votes
  for nobody but itself, and only as a candidate.\<close>

definition election_inv :: "string option \<Rightarrow> string \<Rightarrow> ElectionState \<Rightarrow> bool" where
  "election_inv rep addr st \<longleftrightarrow>
     my_id st = addr \<and> leader_id st = None \<and> (role st = Master \<longleftrightarrow> rep = None) \<and>
     (role st \<noteq> Candidate \<longrightarrow> current_term st = 0 \<and> voted_for st = None) \<and>
     (role st = Candidate \<longrightarrow> voted_for st = Some addr)"

interpretation election_run: step_invariant election_step "election_inv rep addr" for rep addr
  by unfold_locales (auto simp: election_inv_def election_turn_def update_heartbeat_def elim!: election_step.cases split: if_splits)

lemma election_invariant:
  assumes "runs election_step (initial_election rep addr now) st"
  shows "election_inv rep addr st"
  by (rule election_run.runs_keep [OF assms]) (simp add: election_inv_def initial_election_def ElectionState_new_def)

section \<open>The master\<close>

definition add_slave_count :: "'j world \<Rightarrow> 'j world" where
  "add_slave_count w = w\<lparr>replicas := replicas w + 1\<rparr>"

definition sub_slave_count :: "'j world \<Rightarrow> 'j world" where
  "sub_slave_count w = w\<lparr>replicas := replicas w - 1\<rparr>"

definition ok_resp :: bytes where
  "ok_resp = ''+FULLRESYNC 0000000000000000000000000000000000000000 0'' @ crlf"

text \<open>What the loop that serves a replica meets: a broadcast message it forwards, or fails to forward, the
  notice that it fell behind the hub and lost messages, the end of the hub, the shutdown signal. \<open>forward\<close>
  gives the bytes sent and whether the loop has ended.\<close>

datatype hub_event =
    Message bytes
  | WriteFails bytes
  | Lagged nat
  | HubClosed
  | HubShutdown

fun forward :: "hub_event list \<Rightarrow> bytes \<times> bool" where
  "forward [] = ([], False)"
| "forward (Message bs # evs) = (case forward evs of (out, ended) \<Rightarrow> (bs @ out, ended))"
| "forward (WriteFails bs # evs) = ([], True)"
| "forward (Lagged skipped # evs) = forward evs"
| "forward (HubClosed # evs) = ([], True)"
| "forward (HubShutdown # evs) = ([], True)"

text \<open>The socket of a replica: it counts as long as the loop runs. \<open>replicas\<close> is the number of subscriptions to
  the hub and the number of replicas counted: they change together.\<close>

definition handle_slave_psync :: "hub_event list \<Rightarrow> 'j world \<Rightarrow> 'j world \<times> bytes" where
  "handle_slave_psync evs w =
     (case forward evs of (out, ended) \<Rightarrow>
        (if ended then sub_slave_count (add_slave_count w) else add_slave_count w, ok_resp @ out))"

lemma replica_count_balanced:
  "snd (forward evs) \<Longrightarrow> fst (handle_slave_psync evs w) = w"
  by (cases "forward evs") (simp add: handle_slave_psync_def add_slave_count_def sub_slave_count_def)

section \<open>The replica\<close>

definition handshake_msg :: bytes where
  "handshake_msg = ''*1'' @ crlf @ ''$5'' @ crlf @ ''PSYNC'' @ crlf"

text \<open>The master recognises the handshake.\<close>

lemma handshake_recognised: "on_data R show_err e ev conn handshake_msg w = Some (w, HandOver)"
  by (simp add: on_data_def is_psync_request_def handshake_msg_def crlf_def CR_def LF_def)

text \<open>\<^verbatim>\<open>while let Ok(Some((frame, size))) = parse_frame(&buf)\<close>: the buffer that is left. \<open>None\<close> is a panic of
  the task, or a command that does not return.\<close>

function slave_apply ::
  "resp_env \<Rightarrow> 'j env \<Rightarrow> 'j engine \<Rightarrow> nat option \<Rightarrow> bytes \<Rightarrow> 'j world \<Rightarrow> ('j world \<times> bytes) option" where
  "slave_apply R e ev conn buf w =
     (case parse_frame R buf of
        ParsedFrame fr n \<Rightarrow>
          (case try_from (ext_of e) fr of
             Inr cmd \<Rightarrow>
               (case execute_command_normal e ev conn cmd w of
                  Some (w1, Done _) \<Rightarrow> slave_apply R e ev conn (drop n buf) w1
                | _ \<Rightarrow> None)
           | Inl er \<Rightarrow> if er = Panicked then None else slave_apply R e ev conn (drop n buf) w)
      | ParsePanic \<Rightarrow> None
      | _ \<Rightarrow> Some (w, buf))"
  by pat_completeness auto

termination slave_apply
  by (relation "measure (\<lambda>(R, e, ev, conn, buf, w). length buf)") (auto dest!: parse_frame_consumed)

declare slave_apply.simps [simp del]

text \<open>The stream of one connection, in the chunks the socket delivers.\<close>

fun slave_stream ::
  "resp_env \<Rightarrow> 'j env \<Rightarrow> 'j engine \<Rightarrow> nat option \<Rightarrow> bytes list \<Rightarrow> bytes \<Rightarrow> 'j world \<Rightarrow> ('j world \<times> bytes) option" where
  "slave_stream R e ev conn [] buf w = Some (w, buf)"
| "slave_stream R e ev conn (chunk # chunks) buf w =
     (case slave_apply R e ev conn (buf @ chunk) w of
        None \<Rightarrow> None
      | Some (w1, buf1) \<Rightarrow> slave_stream R e ev conn chunks buf1 w1)"

text \<open>The connections of a replica to its master, one after the other: the attempt fails, the handshake cannot be
  sent, or a stream is received until it breaks off; each starts with an empty buffer. The task is spawned
  without a connection state: \<^verbatim>\<open>CONN_STATE\<close> is not set in it.\<close>

datatype session = ConnectFails | HandshakeFails | Streams "bytes list"

fun start_slave_replication ::
  "resp_env \<Rightarrow> 'j env \<Rightarrow> 'j engine \<Rightarrow> session list \<Rightarrow> 'j world \<Rightarrow> 'j world option" where
  "start_slave_replication R e ev [] w = Some w"
| "start_slave_replication R e ev (ConnectFails # ss) w = start_slave_replication R e ev ss w"
| "start_slave_replication R e ev (HandshakeFails # ss) w = start_slave_replication R e ev ss w"
| "start_slave_replication R e ev (Streams chunks # ss) w =
     (case slave_stream R e ev None chunks [] w of
        None \<Rightarrow> None
      | Some (w1, _) \<Rightarrow> start_slave_replication R e ev ss w1)"

lemma slave_apply_stuck:
  assumes "hd buf = CHR ''+''" "buf \<noteq> []"
  shows "slave_apply R e ev conn buf w = Some (w, buf)"
  using parse_reply_prefix [of buf R] assms by (subst slave_apply.simps) simp

lemma slave_apply_empty: "slave_apply R e ev conn [] w = Some (w, [])"
  by (subst slave_apply.simps) (simp add: parse_frame_def)

lemma slave_stream_stuck:
  "buf \<noteq> [] \<Longrightarrow> hd buf = CHR ''+'' \<Longrightarrow> slave_stream R e ev conn chunks buf w = Some (w, buf @ concat chunks)"
  by (induction chunks arbitrary: buf) (simp_all add: slave_apply_stuck)

lemma slave_stream_plus:
  "concat chunks = CHR ''+'' # s \<Longrightarrow> slave_stream R e ev conn chunks [] w = Some (w, concat chunks)"
proof (induction chunks)
  case (Cons chunk chunks)
  show ?case
  proof (cases chunk)
    case Nil
    then show ?thesis
      using Cons by (simp add: slave_apply_empty)
  next
    case (Cons c t)
    then show ?thesis
      using Cons.prems slave_apply_stuck [of chunk R e ev conn w] slave_stream_stuck [of chunk R e ev conn chunks w] by simp
  qed
qed simp

lemma slave_stream_greeted:
  assumes "concat chunks @ rest = ok_resp @ s"
  shows "slave_stream R e ev conn chunks [] w = Some (w, concat chunks)"
proof (cases "concat chunks")
  case Nil
  then show ?thesis
    by (induction chunks) (simp_all add: slave_apply_empty)
next
  case (Cons c t)
  then show ?thesis
    using assms slave_stream_plus [of chunks t R e ev conn w] by (simp add: ok_resp_def)
qed

text \<open>Were the greeting skipped, the first forwarded command would panic: the shards are selected by the
  connection state, which the task of the replica does not have.\<close>

lemma replica_panics_on_command:
  assumes "finder_ok R" "ext_ok (ext_of e)" "utf8_valid k" "request_frame R (Array [Bulk ''LPOP'', Bulk k])"
  shows "slave_apply R e ev None (serialize (Array [Bulk ''LPOP'', Bulk k]) @ rest) w = None"
proof -
  have "try_from (ext_of e) (Array [Bulk ''LPOP'', Bulk k]) = Inr (LPop k)"
    using assms(2,3) by (simp add: try_from_command dispatch_def command_names_def parse_lpop_def extract_bulk_string_def)
  moreover have "execute_command_normal e ev None (LPop k) w = None"
    by (simp add: execute_command_normal_def execute_def run_single_def with_lock_def find_shard_def get_key_def split: option.splits)
  ultimately show ?thesis
    using parse_frame_serialize [OF assms(1,4), of rest] by (subst slave_apply.simps) simp
qed

section \<open>Properties\<close>

text \<open>Property C40: a replica applies nothing. The master greets a replica with a status line, which the
  request parser of the replica rejects; the rejected bytes stay in its buffer. So whatever the
  master forwards afterwards, in whatever chunks and however much of it arrives, through any sequence of failed and
  successful connections, the store of the replica never changes.\<close>

theorem replica_applies_nothing:
  assumes "\<forall>s \<in> set sessions. case s of
      Streams chunks \<Rightarrow> \<exists>evs rest. concat chunks @ rest = snd (handle_slave_psync evs master)
    | _ \<Rightarrow> True"
  shows "start_slave_replication R e ev sessions w = Some w"
  using assms
proof (induction sessions)
  case (Cons s sessions)
  then have rest: "start_slave_replication R e ev sessions w = Some w"
    by simp
  show ?case
  proof (cases s)
    case (Streams chunks)
    then obtain evs rest where "concat chunks @ rest = ok_resp @ fst (forward evs)"
      using Cons.prems by (auto simp: handle_slave_psync_def case_prod_unfold)
    from slave_stream_greeted [OF this, of R e ev None w] show ?thesis
      using Streams rest by simp
  qed (use rest in simp_all)
qed simp

theorem replica_applies_nothing_witness:
  "start_slave_replication std_resp demo_env (\<lambda>_ _ _ _ _. None)
     [ConnectFails, Streams [ok_resp @ ''*2'', crlf], HandshakeFails, Streams [ok_resp @ encode_lpop ''k'']]
     (Storage_new demo_env LRU) = Some (Storage_new demo_env LRU)"
proof (rule replica_applies_nothing [where master = "Storage_new demo_env LRU"])
  have sent: "\<exists>evs rest. (ok_resp @ m) @ rest = snd (handle_slave_psync evs (Storage_new demo_env LRU))" for m
    by (rule exI [of _ "[Message m]"]) (simp add: handle_slave_psync_def)
  show "\<forall>s \<in> set [ConnectFails, Streams [ok_resp @ ''*2'', crlf], HandshakeFails, Streams [ok_resp @ encode_lpop ''k'']].
      case s of
        Streams chunks \<Rightarrow> \<exists>evs rest. concat chunks @ rest = snd (handle_slave_psync evs (Storage_new demo_env LRU))
      | _ \<Rightarrow> True"
    using sent [of "''*2'' @ crlf"] sent [of "encode_lpop ''k''"] by simp
qed

end
