(* ===== verification/Eviction.thy ===== *)
theory Eviction
  imports Storage "HOL-Library.Product_Lexorder" "HOL-Library.Multiset"
begin

text \<open>
  The two background tasks of \<^verbatim>\<open>src/src/db/eviction/eviction_alo.rs\<close>.

  \<^verbatim>\<open>eviction_memory\<close> runs while the global counter exceeds its target: it picks the five shards with
  the largest accounts and has a task for each of them delete victims of its policy, in batches of
  at most 200 under the lock of the shard, until the counter is down, the shard has no victim or
  the time budget is spent. \<open>budget\<close> gives the number of further batches the clock allows a task. The tasks of
  a round are run one after the other: they hold the locks of different shards.

  \<^verbatim>\<open>eviction_ttl\<close> samples keys of the active shards and removes what has expired. \<open>rnd\<close> gives the random
  draws, \<open>j\<close> counting them. \<open>None\<close> is a panic.
\<close>

section \<open>Eviction by memory\<close>

definition EVICTION_MAX_NUMBER :: nat where
  "EVICTION_MAX_NUMBER = 5"

definition MAX_BATCH :: nat where
  "MAX_BATCH = 200"

text \<open>The heap of reversed tuples, as the ascending list of its elements: \<^verbatim>\<open>pop\<close> removes the least.\<close>

type_synonym candidate = "nat \<times> nat \<times> nat"

definition heap_push :: "candidate \<Rightarrow> candidate list \<Rightarrow> candidate list" where
  "heap_push x h = (let h1 = insort x h in if length h1 > EVICTION_MAX_NUMBER then tl h1 else h1)"

definition shard_memory :: "'j world \<Rightarrow> nat \<Rightarrow> nat \<Rightarrow> nat option" where
  "shard_memory w db i =
     map_option (\<lambda>(_, s). unat (locked_get_memory_usage (own_lock ForRead s))) (find_shard (Some db) i w)"

fun scan_shards :: "'j world \<Rightarrow> (nat \<times> nat) list \<Rightarrow> candidate list \<Rightarrow> candidate list option" where
  "scan_shards w [] h = Some h"
| "scan_shards w ((db, i) # ps) h =
     do { memory \<leftarrow> shard_memory w db i;
          scan_shards w ps (if memory = 0 then h else heap_push (memory, db, i) h) }"

definition all_shards :: "'j env \<Rightarrow> (nat \<times> nat) list" where
  "all_shards e = List.product [0..<16] [0..<num_shards e]"

text \<open>One turn of the inner loop: ask the policy for a victim, delete it.\<close>

definition evict_one :: "'j DirectCacheNode \<Rightarrow> ('j DirectCacheNode \<times> bool) option" where
  "evict_one shard_operator =
     (case shard_operator of
        Writeguard (g, n) \<Rightarrow>
          do { (ev, victim) \<leftarrow> strategy_pop_victim (evicition n);
               (let d = Writeguard (g, n\<lparr>evicition := ev\<rparr>)
                in case victim of
                     None \<Rightarrow> Some (d, False)
                   | Some k \<Rightarrow> map_option (\<lambda>d1. (d1, True)) (direct_delete k d)) }
      | Readguard _ \<Rightarrow> None)"

text \<open>The batch, \<open>left\<close> counting down from 200; the counter is read before each deletion.\<close>

fun evict_batch :: "nat \<Rightarrow> nat \<Rightarrow> nat \<Rightarrow> 'j DirectCacheNode \<Rightarrow> ('j DirectCacheNode \<times> nat) option" where
  "evict_batch target 0 deleted d = Some (d, deleted)"
| "evict_batch target (Suc left) deleted d =
     (if unat (fst (guarded d)) \<le> target then Some (d, deleted)
      else
        do { (d1, found) \<leftarrow> evict_one d;
             if found then evict_batch target left (Suc deleted) d1 else Some (d1, deleted) })"

fun evict_task :: "nat \<Rightarrow> nat \<Rightarrow> nat \<Rightarrow> nat \<Rightarrow> 'j world \<Rightarrow> 'j world option" where
  "evict_task target db i budget w =
     (if unat (global_memory w) \<le> target then Some w
      else
        do { (_, s) \<leftarrow> find_shard (Some db) i w;
             (d, deleted) \<leftarrow> evict_batch target MAX_BATCH 0 (Writeguard s);
             (let w1 = put_shard db i (guarded d) w
              in if deleted = 0 then Some w1
                 else case budget of 0 \<Rightarrow> Some w1 | Suc b \<Rightarrow> evict_task target db i b w1) })"

declare evict_task.simps [simp del]

fun evict_tasks :: "nat \<Rightarrow> (nat \<times> nat \<Rightarrow> nat) \<Rightarrow> candidate list \<Rightarrow> 'j world \<Rightarrow> 'j world option" where
  "evict_tasks target budget [] w = Some w"
| "evict_tasks target budget ((_, db, i) # xs) w =
     do { w1 \<leftarrow> evict_task target db i (budget (db, i)) w; evict_tasks target budget xs w1 }"

text \<open>One round of the loop; \<open>order\<close> is the order in which the heap yields its elements.\<close>

definition eviction_round ::
  "'j env \<Rightarrow> nat \<Rightarrow> (nat \<times> nat \<Rightarrow> nat) \<Rightarrow> (candidate list \<Rightarrow> candidate list) \<Rightarrow> 'j world \<Rightarrow> 'j world option" where
  "eviction_round e target budget order w =
     (if unat (global_memory w) \<le> target then Some w
      else do { h \<leftarrow> scan_shards w (all_shards e) []; evict_tasks target budget (order h) w })"

fun eviction_memory ::
  "'j env \<Rightarrow> nat \<Rightarrow> (nat \<times> nat \<Rightarrow> nat) \<Rightarrow> (candidate list \<Rightarrow> candidate list) \<Rightarrow> nat \<Rightarrow> 'j world \<Rightarrow> 'j world option" where
  "eviction_memory e target budget order 0 w = Some w"
| "eviction_memory e target budget order (Suc rounds) w =
     do { w1 \<leftarrow> eviction_round e target budget order w; eviction_memory e target budget order rounds w1 }"

section \<open>Eviction by age\<close>

text \<open>The shards that hold something, as the scan with the read locks sees them.\<close>

fun scan_active :: "'j world \<Rightarrow> (nat \<times> nat) list \<Rightarrow> (nat \<times> nat) list option" where
  "scan_active w [] = Some []"
| "scan_active w ((db, i) # ps) =
     do { memory \<leftarrow> shard_memory w db i;
          active \<leftarrow> scan_active w ps;
          Some (if memory > 0 then (db, i) # active else active) }"

text \<open>One sampled key, under the write lock of its shard: the new count of expired keys.\<close>

definition ttl_sample :: "'j env \<Rightarrow> (nat \<Rightarrow> nat) \<Rightarrow> nat \<Rightarrow> 'j LockedDb \<Rightarrow> ('j LockedDb \<times> nat) option" where
  "ttl_sample e g expired_count l =
     do { policy \<leftarrow> locked_get_eviction_policy l;
          (case strategy_get_random_sample_key g policy of
             None \<Rightarrow> Some (l, expired_count)
           | Some k \<Rightarrow>
               do { (l1, v) \<leftarrow> locked_select (rt_of e) k l;
                    (case v of
                       None \<Rightarrow> Some (l1, expired_count)
                     | Some en \<Rightarrow>
                         (case expires_at en of
                            None \<Rightarrow> Some (l1, expired_count)
                          | Some t \<Rightarrow>
                              if env_now e > t then
                                map_option (\<lambda>l2. (l2, Suc expired_count)) (locked_delete (rt_of e) k l1)
                              else Some (l1, expired_count))) }) }"

function ttl_pass ::
  "'j env \<Rightarrow> (nat \<Rightarrow> nat \<Rightarrow> nat) \<Rightarrow> nat \<Rightarrow> nat \<Rightarrow> (nat \<times> nat) list \<Rightarrow> nat \<Rightarrow> 'j world \<Rightarrow>
   ('j world \<times> (nat \<times> nat) list \<times> nat) option" where
  "ttl_pass e rnd j keys_check active expired_count w =
     (if keys_check = 0 \<or> active = [] then Some (w, active, expired_count)
      else
        let r = rnd j (length active) in
        (case nth_opt active r of
           None \<Rightarrow> None
         | Some (db, i) \<Rightarrow>
             (case find_shard (Some db) i w of
                None \<Rightarrow> None
              | Some (_, s) \<Rightarrow>
                  if locked_get_memory_usage (own_lock ForWrite s) = 0 then
                    (case swap_remove r active of
                       None \<Rightarrow> None
                     | Some active1 \<Rightarrow> ttl_pass e rnd (Suc j) keys_check active1 expired_count w)
                  else
                    (case ttl_sample e (rnd (Suc j)) expired_count (own_lock ForWrite s) of
                       None \<Rightarrow> None
                     | Some (l, n) \<Rightarrow>
                         ttl_pass e rnd (Suc (Suc j)) (keys_check - 1) active n
                           (put_shard db i (guarded (locked_direct l)) w)))))"
  by pat_completeness auto

termination ttl_pass
  by (relation "measure (\<lambda>(e, rnd, j, keys_check, active, n, w). keys_check + length active)")
    (auto simp: swap_remove_def split: if_splits)

declare ttl_pass.simps [simp del]

text \<open>The passes of one wake-up of the task: another one follows when at least five of the sampled entries had
  expired and the stopwatch allows it, \<open>budget\<close> times at most. \<open>rnd p\<close> are the draws of pass \<open>p\<close>.\<close>

fun ttl_passes ::
  "'j env \<Rightarrow> (nat \<Rightarrow> nat \<Rightarrow> nat \<Rightarrow> nat) \<Rightarrow> nat \<Rightarrow> nat \<Rightarrow> (nat \<times> nat) list \<Rightarrow> 'j world \<Rightarrow> 'j world option" where
  "ttl_passes e rnd p budget active w =
     do { (w1, active1, expired_count) \<leftarrow> ttl_pass e (rnd p) 0 20 active 0 w;
          if expired_count < 5 then Some w1
          else case budget of 0 \<Rightarrow> Some w1 | Suc b \<Rightarrow> ttl_passes e rnd (Suc p) b active1 w1 }"

declare ttl_passes.simps [simp del]

definition eviction_ttl :: "'j env \<Rightarrow> (nat \<Rightarrow> nat \<Rightarrow> nat \<Rightarrow> nat) \<Rightarrow> nat \<Rightarrow> 'j world \<Rightarrow> 'j world option" where
  "eviction_ttl e rnd budget w =
     do { active \<leftarrow> scan_active w (all_shards e);
          if active = [] then Some w else ttl_passes e rnd 0 budget active w }"

section \<open>The largest shards\<close>

definition last5 :: "'a list \<Rightarrow> 'a list" where
  "last5 xs = drop (length xs - 5) xs"

definition candidates :: "'j world \<Rightarrow> (nat \<times> nat) list \<Rightarrow> candidate list" where
  "candidates w ps = filter (\<lambda>x. fst x \<noteq> 0) (map (\<lambda>(db, i). (unat (approx_memory (store w ! db ! i)), db, i)) ps)"

lemma insort_late: "\<forall>u \<in> set us. u < x \<Longrightarrow> insort x (us @ vs) = us @ insort x vs"
  by (induction us) auto

lemma insort_early: "vs \<noteq> [] \<Longrightarrow> x \<le> hd vs \<Longrightarrow> insort x (us @ vs) = insort x us @ vs"
  by (induction us) (auto simp: neq_Nil_conv)

lemma heap_push_last5:
  assumes "sorted ys"
  shows "heap_push x (last5 ys) = last5 (insort x ys)"
proof (cases "length ys \<le> 5")
  case True
  then consider "length ys = 5" | "length ys < 5"
    by linarith
  then show ?thesis
    by cases (simp_all add: heap_push_def last5_def Let_def EVICTION_MAX_NUMBER_def drop_Suc)
next
  case False
  define us vs where "us = take (length ys - 5) ys" and "vs = drop (length ys - 5) ys"
  have split: "ys = us @ vs" "length vs = 5" "vs \<noteq> []" "last5 ys = vs"
    using False by (auto simp: us_def vs_def last5_def)
  have srt: "\<forall>u \<in> set us. \<forall>v \<in> set vs. u \<le> v"
    using assms unfolding split(1) sorted_append by blast
  show ?thesis
  proof (cases "x \<le> hd vs")
    case True
    then have "insort x vs = x # vs"
      using split(3) by (cases vs) auto
    moreover have "insort x ys = insort x us @ vs"
      unfolding split(1) by (rule insort_early [OF split(3) True])
    ultimately show ?thesis
      using split(2,4) by (simp add: heap_push_def last5_def EVICTION_MAX_NUMBER_def)
  next
    case False
    then have "\<forall>u \<in> set us. u < x"
      using srt split(3) by (metis hd_in_set le_less_trans not_le)
    then have "insort x ys = us @ insort x vs"
      unfolding split(1) by (rule insort_late)
    then show ?thesis
      using split(2,4) by (simp add: heap_push_def last5_def EVICTION_MAX_NUMBER_def drop_Suc)
  qed
qed

lemma shard_memory_eq:
  assumes "world_ok e w" "db < DB_COUNT" "i < num_shards e"
  shows "shard_memory w db i = Some (unat (approx_memory (store w ! db ! i)))"
  using world_ok_shard(1) [OF assms]
  by (simp add: shard_memory_def own_lock_def locked_get_memory_usage_def direct_get_memory_usage_def)

lemma scan_shards_spec:
  assumes "world_ok e w"
  shows "\<forall>(db, i) \<in> set ps. db < DB_COUNT \<and> i < num_shards e \<Longrightarrow> sorted ys \<Longrightarrow>
    scan_shards w ps (last5 ys) = Some (last5 (sort (candidates w ps @ ys)))"
proof (induction ps arbitrary: ys)
  case Nil
  then show ?case
    by (simp add: candidates_def sorted_sort_id)
next
  case (Cons x ps)
  obtain db i where x: "x = (db, i)"
    by (cases x)
  let ?m = "unat (approx_memory (store w ! db ! i))"
  have mem: "shard_memory w db i = Some ?m"
    using shard_memory_eq [OF assms] Cons.prems(1) by (auto simp: x)
  show ?case
  proof (cases "?m = 0")
    case True
    then show ?thesis
      using Cons mem by (simp add: x candidates_def)
  next
    case False
    have "sort (candidates w ps @ insort (?m, db, i) ys) = sort (candidates w (x # ps) @ ys)"
      using False by (intro properties_for_sort [symmetric]) (auto simp: x candidates_def)
    then show ?thesis
      using False mem Cons.IH [of "insort (?m, db, i) ys"] Cons.prems heap_push_last5 [OF Cons.prems(2)]
      by (simp add: x sorted_insort)
  qed
qed

lemma all_shards_bound: "(db, i) \<in> set (all_shards e) \<longleftrightarrow> db < DB_COUNT \<and> i < num_shards e"
  by (simp add: all_shards_def DB_COUNT_def)

lemma scan_all_shards:
  assumes "world_ok e w"
  shows "scan_shards w (all_shards e) [] = Some (last5 (sort (candidates w (all_shards e))))"
  using scan_shards_spec [OF assms, of "all_shards e" "[]"] by (force simp: all_shards_bound last5_def)

section \<open>Batches\<close>

definition shard_acct :: "'j shard \<Rightarrow> usize" where
  "shard_acct s = fst s - approx_memory (snd s)"

lemma evict_one_spec:
  assumes "node_ok n"
  shows "\<exists>g' n' found. evict_one (Writeguard (g, n)) = Some (Writeguard (g', n'), found) \<and> node_ok n' \<and>
    shard_acct (g', n') = shard_acct (g, n) \<and> db_store n' \<subseteq>\<^sub>m db_store n \<and> (found \<longleftrightarrow> dom (db_store n) \<noteq> {}) \<and>
    card (dom (db_store n')) + (if found then 1 else 0) = card (dom (db_store n))"
proof -
  have ok: "strategy_ok (evicition n)" "strategy_keys (evicition n) = dom (db_store n)" "finite (dom (db_store n))"
    using assms by (simp_all add: node_ok_def)
  obtain ev v where ev: "strategy_pop_victim (evicition n) = Some (ev, v)" "strategy_ok ev"
    "strategy_keys ev = dom (db_store n)" "v = None \<longleftrightarrow> dom (db_store n) = {}" "\<forall>k. v = Some k \<longrightarrow> k \<in> dom (db_store n)"
    using strategy.victim_law [OF ok(1)] ok(2) by auto
  let ?n = "n\<lparr>evicition := ev\<rparr>"
  have n: "node_ok ?n"
    using assms ev(2,3) by (simp add: node_ok_def)
  show ?thesis
  proof (cases v)
    case None
    then show ?thesis
      using n ev(1,4) by (auto simp: evict_one_def shard_acct_def)
  next
    case (Some k)
    obtain n' where n': "remove_entry k (g, ?n) = Some ((g + (approx_memory n' - approx_memory ?n), n'), db_store n k)"
      "node_ok n'" "db_store n' = (db_store n)(k := None)"
      using remove_entry_spec [OF n, of k g] by auto
    have k: "k \<in> dom (db_store n)"
      using ev(5) Some by blast
    then have "card (dom (db_store n')) + 1 = card (dom (db_store n))"
      using ok(3) n'(3) card_Suc_Diff1 by fastforce
    moreover have "db_store n' \<subseteq>\<^sub>m db_store n"
      by (auto simp: n'(3) map_le_def)
    ultimately show ?thesis
      using n'(1,2) ev(1) Some k by (auto simp: evict_one_def shard_acct_def)
  qed
qed

lemma evict_batch_spec:
  assumes "node_ok n"
  shows "\<exists>g' n' d. evict_batch target left m (Writeguard (g, n)) = Some (Writeguard (g', n'), m + d) \<and> node_ok n' \<and>
    shard_acct (g', n') = shard_acct (g, n) \<and> db_store n' \<subseteq>\<^sub>m db_store n \<and>
    card (dom (db_store n')) + d = card (dom (db_store n)) \<and>
    (0 < left \<longrightarrow> target < unat g \<longrightarrow> dom (db_store n) \<noteq> {} \<longrightarrow> 0 < d)"
  using assms
proof (induction left arbitrary: m g n)
  case (Suc left)
  show ?case
  proof (cases "unat g \<le> target")
    case True
    then show ?thesis
      using Suc.prems by (intro exI [of _ g] exI [of _ n] exI [of _ 0]) simp
  next
    case False
    obtain g1 n1 found where one: "evict_one (Writeguard (g, n)) = Some (Writeguard (g1, n1), found)" "node_ok n1"
      "shard_acct (g1, n1) = shard_acct (g, n)" "db_store n1 \<subseteq>\<^sub>m db_store n" "found \<longleftrightarrow> dom (db_store n) \<noteq> {}"
      "card (dom (db_store n1)) + (if found then 1 else 0) = card (dom (db_store n))"
      using evict_one_spec [OF Suc.prems, of g] by blast
    show ?thesis
    proof (cases found)
      case True
      obtain g2 n2 d where two: "evict_batch target left (Suc m) (Writeguard (g1, n1)) = Some (Writeguard (g2, n2), Suc m + d)"
        "node_ok n2" "shard_acct (g2, n2) = shard_acct (g1, n1)" "db_store n2 \<subseteq>\<^sub>m db_store n1"
        "card (dom (db_store n2)) + d = card (dom (db_store n1))"
        using Suc.IH [OF one(2), of "Suc m" g1] by blast
      have "db_store n2 \<subseteq>\<^sub>m db_store n"
        using two(4) one(4) by (rule map_le_trans)
      then show ?thesis
        using False one two True by (intro exI [of _ g2] exI [of _ n2] exI [of _ "Suc d"]) simp
    next
      case nf: False
      then show ?thesis
        using False one by (intro exI [of _ g1] exI [of _ n1] exI [of _ 0]) simp
    qed
  qed
qed simp

section \<open>Tasks and rounds\<close>

definition key_count :: "'j world \<Rightarrow> nat" where
  "key_count w = sum_list (map (\<lambda>nodes. sum_list (map (\<lambda>n. card (dom (db_store n))) nodes)) (store w))"

text \<open>Nothing but entries disappears.\<close>

definition shrinks :: "'j world \<Rightarrow> 'j world \<Rightarrow> bool" where
  "shrinks w w' \<longleftrightarrow>
     same_rest w w' \<and> lua_sessions w' = lua_sessions w \<and> key_count w' \<le> key_count w \<and>
     (\<forall>db i. db < length (store w) \<longrightarrow> i < length (store w ! db) \<longrightarrow>
        db_store (store w' ! db ! i) \<subseteq>\<^sub>m db_store (store w ! db ! i)) \<and>
     map length (store w') = map length (store w)"

lemma shrinks_refl [simp]: "shrinks w w"
  by (simp add: shrinks_def same_rest_def)

lemma shrinks_trans:
  assumes "shrinks w1 w2" "shrinks w2 w3"
  shows "shrinks w1 w3"
proof -
  have rest: "same_rest w1 w3"
  proof -
    obtain s g l where "w2 = w1\<lparr>store := s, global_memory := g, lua_sessions := l\<rparr>"
      using assms(1) unfolding shrinks_def same_rest_def by blast
    moreover obtain s' g' l' where "w3 = w2\<lparr>store := s', global_memory := g', lua_sessions := l'\<rparr>"
      using assms(2) unfolding shrinks_def same_rest_def by blast
    ultimately show ?thesis
      by (simp add: same_rest_def)
  qed
  have len: "length (store w2) = length (store w1)"
    using assms(1) unfolding shrinks_def by (metis length_map)
  have len2: "length (store w2 ! db) = length (store w1 ! db)" if "db < length (store w1)" for db
    using assms(1) that len unfolding shrinks_def by (metis nth_map)
  have "db_store (store w3 ! db ! i) \<subseteq>\<^sub>m db_store (store w1 ! db ! i)"
    if b: "db < length (store w1)" "i < length (store w1 ! db)" for db i
  proof (rule map_le_trans)
    show "db_store (store w2 ! db ! i) \<subseteq>\<^sub>m db_store (store w1 ! db ! i)"
      using assms(1) b by (simp add: shrinks_def)
    show "db_store (store w3 ! db ! i) \<subseteq>\<^sub>m db_store (store w2 ! db ! i)"
      using assms(2) b len len2 by (simp add: shrinks_def)
  qed
  then show ?thesis
    using assms rest unfolding shrinks_def by simp
qed

lemma put_shrinks:
  assumes w: "world_ok e w" "db < DB_COUNT" "i < num_shards e"
    and n: "db_store n \<subseteq>\<^sub>m db_store (store w ! db ! i)" "card (dom (db_store n)) + d = card (dom (db_store (store w ! db ! i)))"
  shows "shrinks w (put_shard db i (g, n) w) \<and> key_count (put_shard db i (g, n) w) + d = key_count w"
proof -
  let ?w = "put_shard db i (g, n) w"
  have len: "db < length (store w)" "i < length (store w ! db)"
    using world_ok_lengths [OF w(1,2)] w(3) by auto
  have upd: "sum_list (xs[j := y]) + x = sum_list xs + y" if "j < length xs" "xs ! j = x" for xs :: "nat list" and j x y
    using that by (induction xs arbitrary: j) (auto split: nat.splits simp: nth_Cons')
  let ?c = "\<lambda>n. card (dom (db_store n))"
  let ?f = "\<lambda>nodes. sum_list (map ?c nodes)"
  have "?f ((store w ! db)[i := n]) + ?c (store w ! db ! i) = ?f (store w ! db) + ?c n"
    using upd [of i "map ?c (store w ! db)"] len by (simp add: map_update)
  moreover have "sum_list (map ?f (store ?w)) + ?f (store w ! db) = sum_list (map ?f (store w)) + ?f ((store w ! db)[i := n])"
    using upd [of db "map ?f (store w)"] len by (simp add: put_shard_def map_update)
  ultimately have count: "key_count ?w + d = key_count w"
    using n(2) by (simp add: key_count_def)
  moreover have "map length (store ?w) = map length (store w)"
    using len by (simp add: put_shard_def map_update list_update_id)
      (metis len(1) length_map list_update_id nth_map)
  moreover have "same_rest w ?w" "lua_sessions ?w = lua_sessions w"
    by (simp_all add: same_rest_def put_shard_def)
  ultimately show ?thesis
    using n(1) len by (auto simp: shrinks_def put_shard_def nth_list_update)
qed

lemma evict_task_step:
  assumes w: "world_ok e w" "db < DB_COUNT" "i < num_shards e" and over: "target < unat (global_memory w)"
  shows "\<exists>w1 d. evict_task target db i budget w =
      (if d = 0 then Some w1 else case budget of 0 \<Rightarrow> Some w1 | Suc b \<Rightarrow> evict_task target db i b w1) \<and>
    world_ok e w1 \<and> shrinks w w1 \<and> key_count w1 + d = key_count w \<and> (dom (db_store (store w ! db ! i)) \<noteq> {} \<longrightarrow> 0 < d)"
proof -
  let ?n = "store w ! db ! i"
  note sh = world_ok_shard [OF w]
  have "node_ok ?n"
    using sh(2) by (simp add: shard_ok_def)
  from evict_batch_spec [OF this, of target MAX_BATCH 0 "global_memory w"] obtain g n d where b:
    "evict_batch target MAX_BATCH 0 (Writeguard (global_memory w, ?n)) = Some (Writeguard (g, n), d)" "node_ok n"
    "shard_acct (g, n) = shard_acct (global_memory w, ?n)" "db_store n \<subseteq>\<^sub>m db_store ?n"
    "card (dom (db_store n)) + d = card (dom (db_store ?n))" "dom (db_store ?n) \<noteq> {} \<longrightarrow> 0 < d"
    using over by (auto simp: MAX_BATCH_def)
  have "shard_ok n"
    using b(2) sh(2) vals_ok_le [OF _ b(4)] by (simp add: shard_ok_def)
  then have "world_ok e (put_shard db i (g, n) w)"
    using b(3) by (intro world_ok_put [OF w]) (simp_all add: shard_acct_def)
  moreover note put_shrinks [OF w b(4,5), of g]
  moreover have "evict_task target db i budget w =
      (if d = 0 then Some (put_shard db i (g, n) w)
       else case budget of 0 \<Rightarrow> Some (put_shard db i (g, n) w) | Suc b \<Rightarrow> evict_task target db i b (put_shard db i (g, n) w))"
    using over sh(1) b(1) by (subst evict_task.simps) (simp add: Let_def split: nat.split)
  ultimately show ?thesis
    using b(6) by blast
qed

lemma evict_task_spec:
  assumes "world_ok e w" "db < DB_COUNT" "i < num_shards e"
  shows "\<exists>w'. evict_task target db i budget w = Some w' \<and> world_ok e w' \<and> shrinks w w' \<and>
    (target < unat (global_memory w) \<longrightarrow> dom (db_store (store w ! db ! i)) \<noteq> {} \<longrightarrow> key_count w' < key_count w)"
  using assms(1)
proof (induction budget arbitrary: w)
  case 0
  then show ?case
    using evict_task_step [OF 0 assms(2,3), of target 0]
    by (cases "target < unat (global_memory w)") (force, simp add: evict_task.simps)
next
  case (Suc budget)
  show ?case
  proof (cases "target < unat (global_memory w)")
    case True
    obtain w1 d where w1: "evict_task target db i (Suc budget) w = (if d = 0 then Some w1 else evict_task target db i budget w1)"
      "world_ok e w1" "shrinks w w1" "key_count w1 + d = key_count w" "dom (db_store (store w ! db ! i)) \<noteq> {} \<longrightarrow> 0 < d"
      using evict_task_step [OF Suc.prems assms(2,3) True, of "Suc budget"] unfolding nat.case by blast
    obtain w2 where w2: "evict_task target db i budget w1 = Some w2" "world_ok e w2" "shrinks w1 w2"
      using Suc.IH [OF w1(2)] by blast
    have "key_count w2 \<le> key_count w1"
      using w2(3) by (simp add: shrinks_def)
    then show ?thesis
      using w1 w2 shrinks_trans [OF w1(3) w2(3)] by (cases "d = 0") auto
  next
    case False
    then show ?thesis
      using Suc.prems by (simp add: evict_task.simps)
  qed
qed

lemma evict_tasks_spec:
  assumes "world_ok e w" "\<forall>x \<in> set xs. fst (snd x) < DB_COUNT \<and> snd (snd x) < num_shards e"
  shows "\<exists>w'. evict_tasks target budget xs w = Some w' \<and> world_ok e w' \<and> shrinks w w'"
  using assms
proof (induction xs arbitrary: w)
  case (Cons x xs)
  obtain m db i where x: "x = (m, db, i)"
    by (cases x)
  obtain w1 where w1: "evict_task target db i (budget (db, i)) w = Some w1" "world_ok e w1" "shrinks w w1"
    using evict_task_spec [OF Cons.prems(1), of db i target "budget (db, i)"] Cons.prems(2) by (auto simp: x)
  obtain w2 where "evict_tasks target budget xs w1 = Some w2" "world_ok e w2" "shrinks w1 w2"
    using Cons.IH [OF w1(2)] Cons.prems(2) by auto
  then show ?case
    using w1 shrinks_trans by (auto simp: x)
qed simp

lemma sum_list_zero: "(\<And>x. x \<in> set xs \<Longrightarrow> f x = (0 :: 'a :: monoid_add)) \<Longrightarrow> sum_list (map f xs) = 0"
  by (induction xs) auto

text \<open>While the counter is above a target, some shard has an account, hence an entry.\<close>

lemma over_target_candidate:
  assumes "world_ok e w" "global_memory w \<noteq> 0"
  shows "candidates w (all_shards e) \<noteq> []"
proof
  assume none: "candidates w (all_shards e) = []"
  have "approx_memory (store w ! db ! i) = 0" if "db < DB_COUNT" "i < num_shards e" for db i
  proof -
    have "(db, i) \<in> set (all_shards e)"
      using that by (simp add: all_shards_bound)
    then have "unat (approx_memory (store w ! db ! i)) = 0"
      using none unfolding candidates_def filter_empty_conv by fastforce
    then show ?thesis
      by (simp add: unat_eq_0)
  qed
  then have "approx_memory n = 0" if "nodes \<in> set (store w)" "n \<in> set nodes" for nodes n
    using assms(1) that by (auto simp: world_ok_def in_set_conv_nth)
  then have "total_memory (store w) = 0"
    by (simp add: total_memory_def sum_list_zero)
  then show False
    using assms by (simp add: world_ok_def)
qed

lemma candidate_nonempty:
  assumes "world_ok e w" "(m, db, i) \<in> set (candidates w (all_shards e))"
  shows "db < DB_COUNT \<and> i < num_shards e \<and> dom (db_store (store w ! db ! i)) \<noteq> {}"
proof -
  have b: "db < DB_COUNT" "i < num_shards e" "approx_memory (store w ! db ! i) \<noteq> 0"
    using assms(2) by (auto simp: candidates_def all_shards_bound)
  moreover have "node_ok (store w ! db ! i)"
    using world_ok_shard(2) [OF assms(1) b(1,2)] by (simp add: shard_ok_def)
  ultimately show ?thesis
    by (auto simp: node_ok_def)
qed

lemma eviction_round_spec:
  assumes "world_ok e w" "\<And>h. set (order h) = set h"
  shows "\<exists>w'. eviction_round e target budget order w = Some w' \<and> world_ok e w' \<and> shrinks w w' \<and>
    (target < unat (global_memory w) \<longrightarrow> key_count w' < key_count w)"
proof (cases "target < unat (global_memory w)")
  case True
  let ?h = "last5 (sort (candidates w (all_shards e)))"
  have sub: "set ?h \<subseteq> set (candidates w (all_shards e))"
    unfolding last5_def by (metis set_drop_subset set_sort)
  have "global_memory w \<noteq> 0"
    using True by auto
  then have "sort (candidates w (all_shards e)) \<noteq> []"
    using over_target_candidate [OF assms(1)] by (metis length_0_conv length_sort)
  then have "?h \<noteq> []"
    by (cases "sort (candidates w (all_shards e))") (auto simp: last5_def)
  then have "order ?h \<noteq> []"
    using assms(2) by (metis set_empty)
  then obtain m db i xs where ord: "order ?h = (m, db, i) # xs"
    by (metis neq_Nil_conv prod_cases3)
  have all: "x \<in> set (candidates w (all_shards e))" if "x \<in> set (order ?h)" for x
    using that sub assms(2) by blast
  have "(m, db, i) \<in> set (candidates w (all_shards e))"
    by (rule all) (simp add: ord)
  note cand = candidate_nonempty [OF assms(1) this]
  then have first: "db < DB_COUNT" "i < num_shards e" "dom (db_store (store w ! db ! i)) \<noteq> {}"
    by blast+
  obtain w1 where w1: "evict_task target db i (budget (db, i)) w = Some w1" "world_ok e w1" "shrinks w w1" "key_count w1 < key_count w"
    using evict_task_spec [OF assms(1) first(1,2), of target "budget (db, i)"] True first(3) by blast
  have "\<forall>x \<in> set xs. fst (snd x) < DB_COUNT \<and> snd (snd x) < num_shards e"
    using all candidate_nonempty [OF assms(1)] ord by fastforce
  then obtain w2 where w2: "evict_tasks target budget xs w1 = Some w2" "world_ok e w2" "shrinks w1 w2"
    using evict_tasks_spec [OF w1(2)] by blast
  have "key_count w2 \<le> key_count w1"
    using w2(3) by (simp add: shrinks_def)
  then show ?thesis
    using True w1 w2 shrinks_trans [OF w1(3) w2(3)] scan_all_shards [OF assms(1)] by (simp add: eviction_round_def ord)
qed (use assms(1) in \<open>simp add: eviction_round_def\<close>)

lemma eviction_memory_spec:
  assumes "\<And>h. set (order h) = set h"
  shows "world_ok e w \<Longrightarrow> key_count w \<le> rounds \<Longrightarrow>
    \<exists>w'. eviction_memory e target budget order rounds w = Some w' \<and> world_ok e w' \<and> shrinks w w' \<and> unat (global_memory w') \<le> target"
proof (induction rounds arbitrary: w)
  case 0
  then show ?case
    using eviction_round_spec [OF 0(1) assms, of target budget] by (auto simp: not_less)
next
  case (Suc rounds)
  obtain w1 where w1: "eviction_round e target budget order w = Some w1" "world_ok e w1" "shrinks w w1"
    "target < unat (global_memory w) \<longrightarrow> key_count w1 < key_count w"
    using eviction_round_spec [OF Suc.prems(1) assms] by blast
  show ?case
  proof (cases "target < unat (global_memory w)")
    case True
    then obtain w2 where "eviction_memory e target budget order rounds w1 = Some w2" "world_ok e w2" "shrinks w1 w2"
      "unat (global_memory w2) \<le> target"
      using Suc.IH [OF w1(2)] w1(4) Suc.prems(2) by auto
    then show ?thesis
      using w1 shrinks_trans by auto
  next
    case False
    have "eviction_memory e target budget order n w = Some w" for n
      using False by (induction n) (simp_all add: eviction_round_def)
    then show ?thesis
      using False Suc.prems(1) by (intro exI [of _ w]) (simp del: eviction_memory.simps)
  qed
qed

section \<open>Sampling\<close>

text \<open>The removal of entries past their deadline, and of nothing else.\<close>

definition purges :: "'j env \<Rightarrow> 'j world \<Rightarrow> 'j world \<Rightarrow> bool" where
  "purges e w w' \<longleftrightarrow>
     (\<forall>db k. peek e db k w' = peek e db k w \<or>
        peek e db k w' = None \<and> (\<exists>en. peek e db k w = Some en \<and> expired (rt_of e) en))"

lemma purges_refl [simp]: "purges e w w"
  by (simp add: purges_def)

lemma purges_trans: "purges e w1 w2 \<Longrightarrow> purges e w2 w3 \<Longrightarrow> purges e w1 w3"
  unfolding purges_def by metis

lemma ttl_sample_spec:
  assumes "node_ok n" "range_ok r"
  shows "\<exists>g' n'. ttl_sample e r c (own_lock ForWrite (g, n)) = Some (WriteNormal (Writeguard (g', n')), c) \<and> node_ok n' \<and>
    shard_acct (g', n') = shard_acct (g, n) \<and>
    (db_store n' = db_store n \<or> (\<exists>k en. db_store n k = Some en \<and> expired (rt_of e) en \<and> db_store n' = (db_store n)(k := None)))"
proof (cases "strategy_get_random_sample_key r (evicition n)")
  case None
  then show ?thesis
    using assms(1) by (simp add: ttl_sample_def own_lock_def locked_get_eviction_policy_def)
next
  case (Some k)
  have ok: "direct_ok (Writeguard (g, n))"
    using assms(1) by simp
  obtain d where d: "direct_select (rt_of e) k (Writeguard (g, n)) = Some (d, seen_of (direct_tk (Writeguard (g, n))) (unexpired (rt_of e)) k)"
    "direct_ok d" "direct_tk d = (direct_tk (Writeguard (g, n)))(k := seen_of (direct_tk (Writeguard (g, n))) (unexpired (rt_of e)) k)"
    "direct_acct d = direct_acct (Writeguard (g, n))"
    using direct.select_law [OF ok, of "rt_of e" k] by auto
  obtain g' n' where n': "d = Writeguard (g', n')" "node_ok n'"
    using d(2) by (rule direct_okE)
  have live: "\<not> env_now e > t" if "seen_of (db_store n) (unexpired (rt_of e)) k = Some en" "expires_at en = Some t" for en t
    using that by (auto simp: seen_of_def unexpired_def expired_def split: option.splits if_splits)
  have "ttl_sample e r c (own_lock ForWrite (g, n)) = Some (WriteNormal (Writeguard (g', n')), c)"
    using d(1) Some n'(1) live
    by (auto simp: ttl_sample_def own_lock_def locked_get_eviction_policy_def direct_tk_def split: option.splits)
  moreover have "db_store n' = (db_store n)(k := seen_of (db_store n) (unexpired (rt_of e)) k)"
    using d(3) n'(1) by (simp add: direct_tk_def)
  then have "db_store n' = db_store n \<or> (\<exists>k en. db_store n k = Some en \<and> expired (rt_of e) en \<and> db_store n' = (db_store n)(k := None))"
    by (cases "db_store n k") (auto simp: seen_of_def unexpired_def fun_upd_idem)
  ultimately show ?thesis
    using n' d(4) by (auto simp: direct_acct_def shard_acct_def)
qed

lemma put_purges:
  assumes w: "world_ok e w" "db < DB_COUNT" "i < num_shards e"
    and n: "db_store n = db_store (store w ! db ! i) \<or>
      (\<exists>k en. db_store (store w ! db ! i) k = Some en \<and> expired (rt_of e) en \<and> db_store n = (db_store (store w ! db ! i))(k := None))"
  shows "purges e w (put_shard db i (g, n) w)"
proof -
  have len: "db < length (store w)" "i < length (store w ! db)"
    using world_ok_lengths [OF w(1,2)] w(3) by auto
  show ?thesis
    using n len by (auto simp: purges_def peek_def put_shard_def nth_list_update split: option.splits if_splits)
qed

lemma set_swap_remove:
  assumes "r < length xs"
  shows "\<exists>ys. swap_remove r xs = Some ys \<and> set ys \<subseteq> set xs \<and> length ys < length xs"
proof -
  have "set (xs[r := last xs]) \<subseteq> set xs"
    using assms set_update_subset_insert [of xs r "last xs"] last_in_set [of xs] by (cases "xs = []") auto
  then show ?thesis
    using assms by (auto simp: swap_remove_def dest!: in_set_butlastD)
qed

lemma ttl_pass_spec:
  assumes "\<forall>j. range_ok (rnd j)"
  shows "world_ok e w \<Longrightarrow> \<forall>x \<in> set active. fst x < DB_COUNT \<and> snd x < num_shards e \<Longrightarrow>
    \<exists>w' active'. ttl_pass e rnd j keys_check active c w = Some (w', active', c) \<and> world_ok e w' \<and> purges e w w'"
proof (induction "keys_check + length active" arbitrary: j keys_check active w rule: less_induct)
  case less
  show ?case
  proof (cases "keys_check = 0 \<or> active = []")
    case True
    then show ?thesis
      using less.prems by (simp add: ttl_pass.simps)
  next
    case False
    let ?r = "rnd j (length active)"
    have r: "?r < length active"
      using assms False by (simp add: range_ok_def)
    obtain db i where x: "active ! ?r = (db, i)"
      by (cases "active ! ?r")
    have b: "db < DB_COUNT" "i < num_shards e"
      using less.prems(2) r x nth_mem by fastforce+
    note sh = world_ok_shard [OF less.prems(1) b]
    let ?n = "store w ! db ! i"
    have mem: "locked_get_memory_usage (own_lock ForWrite (global_memory w, ?n)) = approx_memory ?n"
      by (simp add: locked_get_memory_usage_def own_lock_def direct_get_memory_usage_def)
    show ?thesis
    proof (cases "approx_memory ?n = 0")
      case True
      obtain ys where ys: "swap_remove ?r active = Some ys" "set ys \<subseteq> set active" "length ys < length active"
        using set_swap_remove [OF r] by blast
      then have "keys_check + length ys < keys_check + length active" "\<forall>x \<in> set ys. fst x < DB_COUNT \<and> snd x < num_shards e"
        using less.prems(2) by auto
      from less.hyps [OF this(1) less.prems(1) this(2), of "Suc j"] show ?thesis
        using False r x sh(1) mem True ys(1) by (subst ttl_pass.simps) (simp add: Let_def nth_opt_def)
    next
      case busy: False
      have "node_ok ?n"
        using sh(2) by (simp add: shard_ok_def)
      then obtain g n where n: "ttl_sample e (rnd (Suc j)) c (own_lock ForWrite (global_memory w, ?n)) = Some (WriteNormal (Writeguard (g, n)), c)"
        "node_ok n" "shard_acct (g, n) = shard_acct (global_memory w, ?n)"
        "db_store n = db_store ?n \<or> (\<exists>k en. db_store ?n k = Some en \<and> expired (rt_of e) en \<and> db_store n = (db_store ?n)(k := None))"
        using ttl_sample_spec [of ?n "rnd (Suc j)" e c "global_memory w"] assms by blast
      let ?w = "put_shard db i (g, n) w"
      have "db_store n \<subseteq>\<^sub>m db_store ?n"
        using n(4) by (auto simp: map_le_def split: if_splits)
      then have "shard_ok n"
        using n(2) sh(2) vals_ok_le by (auto simp: shard_ok_def)
      then have ok: "world_ok e ?w"
        using n(3) by (intro world_ok_put [OF less.prems(1) b]) (simp_all add: shard_acct_def)
      have "keys_check - 1 + length active < keys_check + length active"
        using False by simp
      from less.hyps [OF this ok less.prems(2), of "Suc (Suc j)"] obtain w' active' where
        "ttl_pass e rnd (Suc (Suc j)) (keys_check - 1) active c ?w = Some (w', active', c)" "world_ok e w'" "purges e ?w w'"
        by blast
      then show ?thesis
        using False r x sh(1) mem busy n(1) purges_trans [OF put_purges [OF less.prems(1) b n(4)]]
        by (subst ttl_pass.simps) (auto simp: Let_def nth_opt_def)
    qed
  qed
qed

lemma scan_active_ok:
  assumes "world_ok e w" "\<forall>x \<in> set ps. fst x < DB_COUNT \<and> snd x < num_shards e"
  shows "\<exists>active. scan_active w ps = Some active \<and> set active \<subseteq> set ps"
  using assms(2)
proof (induction ps)
  case (Cons x ps)
  obtain db i where x: "x = (db, i)"
    by (cases x)
  then have "db < DB_COUNT" "i < num_shards e"
    using Cons.prems by auto
  note sh = world_ok_shard [OF assms(1) this]
  obtain active where "scan_active w ps = Some active" "set active \<subseteq> set ps"
    using Cons by auto
  then show ?case
    using sh(1) x by (auto simp: shard_memory_def)
qed simp

text \<open>A wake-up of the expiry task is its first pass, whatever the budget.\<close>

lemma eviction_ttl_spec:
  assumes "world_ok e w" "\<forall>p j. range_ok (rnd p j)"
  shows "\<exists>w'. eviction_ttl e rnd budget w = Some w' \<and> eviction_ttl e rnd 0 w = Some w' \<and> world_ok e w' \<and> purges e w w'"
proof -
  have all: "\<forall>x \<in> set (all_shards e). fst x < DB_COUNT \<and> snd x < num_shards e"
    by (auto simp: all_shards_bound)
  then obtain active where active: "scan_active w (all_shards e) = Some active" "set active \<subseteq> set (all_shards e)"
    using scan_active_ok [OF assms(1)] by blast
  then have "\<forall>x \<in> set active. fst x < DB_COUNT \<and> snd x < num_shards e"
    using all by blast
  then obtain w' active' where "ttl_pass e (rnd 0) 0 20 active 0 w = Some (w', active', 0)" "world_ok e w'" "purges e w w'"
    using ttl_pass_spec [of "rnd 0" e w active 0 20 0] assms by blast
  then show ?thesis
    using active(1) assms(1) by (auto simp: eviction_ttl_def ttl_passes.simps)
qed

section \<open>Properties\<close>

text \<open>Property C19: the bounded heap is equivalent to sorting. The scan over all shards of all databases
  with a heap that never grows beyond five elements returns exactly the last five of the sorted
  list of non-empty shards: those with the largest accounts.\<close>

theorem eviction_picks_largest_shards:
  assumes "world_ok e w"
  shows "scan_shards w (all_shards e) [] =
    Some (let xs = sort (filter (\<lambda>x. fst x \<noteq> 0) (map (\<lambda>(db, i). (unat (approx_memory (store w ! db ! i)), db, i)) (all_shards e)))
          in drop (length xs - 5) xs)"
  using scan_all_shards [OF assms] by (simp add: last5_def candidates_def)

theorem eviction_picks_largest_shards_witness:
  "scan_shards (Storage_new demo_env LRU) (all_shards demo_env) [] = Some []"
proof -
  have "approx_memory (store (Storage_new demo_env LRU) ! db ! i) = 0" if "(db, i) \<in> set (all_shards demo_env)" for db i
    using that by (simp add: all_shards_bound Storage_new_def MemoryCache_new_def MemoryCacheNode_new_def)
  then have "filter (\<lambda>x. fst x \<noteq> 0) (map (\<lambda>(db, i). (unat (approx_memory (store (Storage_new demo_env LRU) ! db ! i)), db, i))
      (all_shards demo_env)) = []"
    by (auto simp: filter_empty_conv)
  then show ?thesis
    using eviction_picks_largest_shards [OF demo_world_ok] by (simp only: Let_def) simp
qed

text \<open>Property C18: eviction brings the memory down. From any sound store and for any target, whatever the
  time budgets of the tasks and the order in which they run, at most as many rounds as there are
  stored keys leave the global counter at or below the target; no round panics, and nothing changes
  but that entries disappear and the accounts with them.\<close>

theorem eviction_reaches_target:
  assumes "world_ok e w" and "\<forall>h. set (order h) = set h"
  shows "\<exists>w'. eviction_memory e target budget order (key_count w) w = Some w' \<and> world_ok e w' \<and>
    unat (global_memory w') \<le> target \<and> same_rest w w' \<and>
    (\<forall>db i. db < DB_COUNT \<and> i < num_shards e \<longrightarrow> db_store (store w' ! db ! i) \<subseteq>\<^sub>m db_store (store w ! db ! i))"
proof -
  obtain w' where w': "eviction_memory e target budget order (key_count w) w = Some w'" "world_ok e w'" "shrinks w w'"
    "unat (global_memory w') \<le> target"
    using eviction_memory_spec [OF _ assms(1) order_refl] assms(2) by blast
  moreover have "db_store (store w' ! db ! i) \<subseteq>\<^sub>m db_store (store w ! db ! i)" if "db < DB_COUNT" "i < num_shards e" for db i
    using w'(3) that world_ok_lengths [OF assms(1) that(1)] by (simp add: shrinks_def)
  ultimately show ?thesis
    by (auto simp: shrinks_def)
qed

theorem eviction_reaches_target_witness:
  "\<exists>w w'. peek demo_env 0 ''k'' w \<noteq> None \<and> eviction_memory demo_env 0 (\<lambda>_. 3) rev (key_count w) w = Some w' \<and> global_memory w' = 0"
proof -
  let ?w = "Storage_new demo_env LRU"
  have "(blocking_queues ?w ! 0) ''k'' = None"
    by (simp add: Storage_new_def DB_COUNT_def)
  then have "effect demo_env CtxNormal 0 ''k'' ?w (execute demo_env (\<lambda>_ _ _ _ _. None) CtxNormal (Some 0) (LPush ''k'' [''a'']) ?w)
      (redis demo_env (LPush ''k'' [''a'']) None)"
    by (intro execute_effect [OF demo_world_ok]) (simp_all add: DB_COUNT_def get_key_def)
  then obtain w where "world_ok demo_env w" "peek demo_env 0 ''k'' w \<noteq> None"
    by (auto simp: effect_def on_list_def elim!: slot_relE)
  then show ?thesis
    using eviction_reaches_target [of demo_env w rev 0 "\<lambda>_. 3"] by (auto simp: unat_eq_0)
qed

text \<open>The fast path of the expiry task is dead. A sampled entry past its deadline is already
  removed by the lookup, so it is never counted (the clock being the same for the lookup and the test that
  follows it): a wake-up of the task is one pass over at most twenty sampled keys, however many expired entries it
  met and however much time is left. The wake-up itself is sound: from any sound store it does not panic, it
  keeps the accounts, and it removes entries past their deadline and nothing else.\<close>

lemma expiry_task_stops_after_one_pass:
  assumes "world_ok e w" and "\<forall>p j. range_ok (rnd p j)"
  shows "eviction_ttl e rnd budget w = eviction_ttl e rnd 0 w \<and>
    (\<exists>w'. eviction_ttl e rnd budget w = Some w' \<and> world_ok e w' \<and>
      (\<forall>db k. peek e db k w' = peek e db k w \<or>
         peek e db k w' = None \<and> (\<exists>en. peek e db k w = Some en \<and> expired (rt_of e) en)))"
  using eviction_ttl_spec [OF assms, of budget] eviction_ttl_spec [OF assms, of 0]
  by (auto simp: purges_def)

end
