(* ===== verification/Clock.thy ===== *)
theory Clock
  imports Aof_Encoder Types
begin

text \<open>
  The cached clock, \<^verbatim>\<open>src/src/core_time.rs\<close>: a cell that every reader of the time loads, and the task that
  copies the system clock into it. The cell is zero until the task has run for the first time; \<^verbatim>\<open>run\<close> spawns the task
  after recovery and does not wait for it.

  The system clock is an integer number of milliseconds since the epoch. \<^verbatim>\<open>SystemTime\<close> is not monotonic: between
  two steps of the task it may be set to any value, back as well as forward. \<open>clock_step n\<close> is a step of
  the clock when \<open>n\<close> stop signals have been sent on the channel of the task; a subscription is the count at the moment it was made.
\<close>

section \<open>The task\<close>

datatype clock_task =
    ClockSpawned
  | LoopSpawned
  | Sleeping nat
  | ClockStopped

record clock =
  wall_ms :: int
  CACHED_TIME_MS :: u64
  clock_task :: clock_task

definition boot_clock :: "int \<Rightarrow> clock" where
  "boot_clock t = \<lparr>wall_ms = t, CACHED_TIME_MS = 0, clock_task = ClockSpawned\<rparr>"

text \<open>Before the epoch \<^verbatim>\<open>duration_since\<close> fails and the task panics: \<open>None\<close>.\<close>

definition system_time_ms :: "int \<Rightarrow> u64 option" where
  "system_time_ms t = (if t < 0 then None else Some (of_int t))"

definition store_time :: "clock_task \<Rightarrow> clock \<Rightarrow> clock" where
  "store_time cont c =
     (case system_time_ms (wall_ms c) of
        None \<Rightarrow> c\<lparr>clock_task := ClockStopped\<rparr>
      | Some t \<Rightarrow> c\<lparr>CACHED_TIME_MS := t, clock_task := cont\<rparr>)"

definition get_cached_time_ms :: "clock \<Rightarrow> u64" where
  "get_cached_time_ms c = CACHED_TIME_MS c"

inductive clock_step :: "nat \<Rightarrow> clock \<Rightarrow> clock \<Rightarrow> bool" for n where
  system_time: "clock_step n c (c\<lparr>wall_ms := t\<rparr>)"
| first_store: "clock_task c = ClockSpawned \<Longrightarrow> clock_step n c (store_time LoopSpawned c)"
| loop_subscribes: "clock_task c = LoopSpawned \<Longrightarrow> clock_step n c (c\<lparr>clock_task := Sleeping n\<rparr>)"
| sleep_over: "clock_task c = Sleeping p \<Longrightarrow> clock_step n c (store_time (Sleeping p) c)"
| clock_signalled: "clock_task c = Sleeping p \<Longrightarrow> p < n \<Longrightarrow> clock_step n c (c\<lparr>clock_task := ClockStopped\<rparr>)"

section \<open>The cell follows the system clock\<close>

lemma store_time_sel [simp]:
  "wall_ms (store_time k c) = wall_ms c"
  "CACHED_TIME_MS (store_time k c) = (if wall_ms c < 0 then CACHED_TIME_MS c else of_int (wall_ms c))"
  by (simp_all add: store_time_def system_time_ms_def)

text \<open>A step that changes the cell stores what the system clock shows.\<close>

lemma clock_step_cell:
  "clock_step n c c' \<Longrightarrow> CACHED_TIME_MS c' = CACHED_TIME_MS c \<or> 0 \<le> wall_ms c' \<and> CACHED_TIME_MS c' = of_int (wall_ms c')"
  by (induction rule: clock_step.induct) auto

text \<open>So at every moment the cell holds what it held at an earlier one, or a reading of the system clock since then.\<close>

lemma cell_is_reading:
  assumes "runs (clock_step n) c0 c"
  shows "CACHED_TIME_MS c = CACHED_TIME_MS c0 \<or>
    (\<exists>c1. runs (clock_step n) c0 c1 \<and> runs (clock_step n) c1 c \<and> 0 \<le> wall_ms c1 \<and> CACHED_TIME_MS c = of_int (wall_ms c1))"
  using assms
proof induction
  case (run_step c0 c c')
  note whole = runs.run_step [where step = "clock_step n", OF run_step(1,2)]
  from clock_step_cell [OF run_step(2)] show ?case
  proof
    assume "0 \<le> wall_ms c' \<and> CACHED_TIME_MS c' = of_int (wall_ms c')"
    then show ?thesis
      using whole run_refl [of "clock_step n" c'] by blast
  next
    assume same: "CACHED_TIME_MS c' = CACHED_TIME_MS c"
    have "runs (clock_step n) c1 c'" if "runs (clock_step n) c1 c" for c1
      using runs.run_step [where step = "clock_step n", OF that run_step(2)] .
    then show ?thesis
      using run_step(3) same by metis
  qed
qed simp

lemma uint_wall: "0 \<le> t \<Longrightarrow> uint (of_int t :: u64) \<le> t"
  by (simp add: of_int_uint unsigned_of_int take_bit_int_less_eq_self_iff)

lemma uint_wall_eq: "0 \<le> t \<Longrightarrow> t < 2 ^ 64 \<Longrightarrow> uint (of_int t :: u64) = t"
  by (simp add: of_int_uint unsigned_of_int take_bit_int_eq_self)

text \<open>While the system clock does not fall to a bound, nor the cell, the cell stays above it.\<close>

definition clock_above :: "int \<Rightarrow> clock \<Rightarrow> bool" where
  "clock_above d c \<longleftrightarrow> d < wall_ms c \<and> wall_ms c < 2 ^ 64"

lemma cell_above:
  assumes "runs (\<lambda>a b. clock_step n a b \<and> clock_above d a \<and> clock_above d b) c c'" "d < uint (CACHED_TIME_MS c)"
  shows "d < uint (CACHED_TIME_MS c')"
  using assms
proof induction
  case (run_step c0 c c')
  then show ?case
    using clock_step_cell [of n c c'] uint_wall_eq [of "wall_ms c'"] by (auto simp: clock_above_def)
qed simp

section \<open>Properties\<close>



end
