(* ===== verification/Shutdown.thy ===== *)
theory Shutdown
  imports Aof_Recovery Clock
begin

text \<open>
  The tasks that \<^verbatim>\<open>run\<close> in \<^verbatim>\<open>src/src/lib.rs\<close> starts, the signals that stop them and the order in which
  \<^verbatim>\<open>ShutDown::shutdown\<close> in \<^verbatim>\<open>src/src/shutdown.rs\<close> waits for them, as one transition system: the accept loop, the
  connections (\<^verbatim>\<open>handle_connection\<close> in \<^verbatim>\<open>src/src/server.rs\<close>, \<^verbatim>\<open>handle_slave_psync\<close> in \<^verbatim>\<open>src/src/replication/mod.rs\<close>), the
  expiry task, the memory task of \<^verbatim>\<open>src/src/db/eviction/eviction_alo.rs\<close>, the log writer and the clock, of a server that is
  not itself a replica.

  A signal travels on a broadcast channel: a receiver sees what is sent after it subscribed, and sending fails when there
  is no receiver. \<open>signals\<close> counts what was sent to the application tasks, \<open>infra_signals\<close> what was sent to the clock; a
  subscription is the count at the moment it was made, so a value is waiting when the subscription is below the
  count. Each step is what a task does between two points where it waits; which task moves next, how long a wait
  lasts and when the memory is over its target is left open. The accept loop and every connection own a sender of the log
  channel, which is not full. The argument \<open>acts\<close> of the step relation says what else may happen in a run: what clients and the
  network do, and whether a waiting \<^verbatim>\<open>BLPOP\<close> is served.
\<close>

section \<open>The tasks\<close>

datatype receiver = NotSubscribed | Subscribed nat | Ended

text \<open>A connection looks at its subscription only between two batches of commands. \<open>Working\<close> is a batch in progress,
  including a script or a \<^verbatim>\<open>BLPOP\<close> with a timeout; \<open>Popping\<close> is a \<^verbatim>\<open>BLPOP\<close> without one, which waits for a push and looks
  at nothing else, not even at its socket; \<open>Streaming\<close> is a connection to a replica, with a new subscription; \<open>Stalled\<close> is a write that the
  client does not take.\<close>

datatype link =
    LinkSpawned
  | Reading nat
  | Working nat
  | Popping nat
  | Streaming nat
  | Stalled link

datatype act =
    Connect
  | AcceptError
  | Request
  | Push
  | TakeReply
  | Break

datatype evictor_state =
    Top
  | Patrol nat
  | OverMemory nat
  | Evicting
  | EvictorStopped

datatype phase =
    Serving
  | JoinConnections
  | JoinTtl
  | JoinMemory
  | JoinAof
  | JoinClock
  | Finished
  | Panicked

record server =
  signals :: nat
  infra_signals :: nat
  accepting :: receiver
  links :: "link list"
  ttl_task :: receiver
  evictor :: evictor_state
  clock_of :: clock
  log_writer :: writer
  writer_done :: bool
  phase :: phase

text \<open>All tasks spawned and none of them at work yet; \<open>f\<close> is the log file as recovery left it, \<open>t\<close> the system time.\<close>

definition started :: "int \<Rightarrow> aof_file \<Rightarrow> server" where
  "started t f = \<lparr>signals = 0, infra_signals = 0, accepting = NotSubscribed, links = [], ttl_task = NotSubscribed,
     evictor = Top, clock_of = boot_clock t, log_writer = \<lparr>chan = [], disk = f, sent = []\<rparr>, writer_done = False,
     phase = Serving\<rparr>"

text \<open>The loop of \<^verbatim>\<open>eviction_memory\<close> subscribes anew in each turn. With healthy memory it waits for the
  signal or for its timer; over the target it looks at its new subscription once and goes to work.\<close>

inductive evictor_step :: "nat \<Rightarrow> evictor_state \<Rightarrow> evictor_state \<Rightarrow> bool" for n where
  healthy: "evictor_step n Top (Patrol n)"
| over: "evictor_step n Top (OverMemory n)"
| signalled: "p < n \<Longrightarrow> evictor_step n (Patrol p) EvictorStopped"
| timer: "evictor_step n (Patrol p) Top"
| try_recv: "evictor_step n (OverMemory p) (if p < n then EvictorStopped else Evicting)"
| evicted: "evictor_step n Evicting Top"

inductive link_step :: "act set \<Rightarrow> nat \<Rightarrow> link \<Rightarrow> link \<Rightarrow> bool" for acts n where
  subscribes: "link_step acts n LinkSpawned (Reading n)"
| request: "Request \<in> acts \<Longrightarrow> link_step acts n (Reading p) (Working p)"
| handed_over: "Request \<in> acts \<Longrightarrow> link_step acts n (Reading p) (Streaming n)"
| answered: "link_step acts n (Working p) (Reading p)"
| pops: "link_step acts n (Working p) (Popping p)"
| pushed: "Push \<in> acts \<Longrightarrow> link_step acts n (Popping p) (Working p)"
| reply_stalls: "link_step acts n (Working p) (Stalled (Working p))"
| stream_stalls: "link_step acts n (Streaming p) (Stalled (Streaming p))"
| taken: "TakeReply \<in> acts \<Longrightarrow> link_step acts n (Stalled l) l"

text \<open>A connection ends when it looks at a signal, or when its socket or its command fails.\<close>

fun link_hears :: "nat \<Rightarrow> link \<Rightarrow> bool" where
  "link_hears n (Reading p) \<longleftrightarrow> p < n"
| "link_hears n (Streaming p) \<longleftrightarrow> p < n"
| "link_hears n _ \<longleftrightarrow> False"

fun link_breakable :: "link \<Rightarrow> bool" where
  "link_breakable LinkSpawned \<longleftrightarrow> False"
| "link_breakable (Popping p) \<longleftrightarrow> False"
| "link_breakable _ \<longleftrightarrow> True"

text \<open>The receivers alive on the channel of the application tasks: the memory task keeps the one of its turn until the
  turn ends.\<close>

definition has_receiver :: "server \<Rightarrow> bool" where
  "has_receiver s \<longleftrightarrow>
     (\<exists>p. accepting s = Subscribed p) \<or> (\<exists>l \<in> set (links s). l \<noteq> LinkSpawned) \<or> (\<exists>p. ttl_task s = Subscribed p) \<or>
     evictor s \<noteq> Top \<and> evictor s \<noteq> EvictorStopped"

definition remove_nth :: "nat \<Rightarrow> 'a list \<Rightarrow> 'a list" where
  "remove_nth i xs = take i xs @ drop (Suc i) xs"

definition send_log :: "bytes list \<Rightarrow> writer \<Rightarrow> writer" where
  "send_log msgs w = w\<lparr>chan := chan w @ msgs, sent := sent w @ msgs\<rparr>"

inductive system_step :: "act set \<Rightarrow> AofFsync \<Rightarrow> server \<Rightarrow> server \<Rightarrow> bool" for acts policy where
  signal: "phase s = Serving \<Longrightarrow> system_step acts policy s
    (if has_receiver s then s\<lparr>signals := Suc (signals s), phase := JoinConnections\<rparr> else s\<lparr>phase := Panicked\<rparr>)"
| accept_subscribes: "accepting s = NotSubscribed \<Longrightarrow> system_step acts policy s (s\<lparr>accepting := Subscribed (signals s)\<rparr>)"
| accept: "Connect \<in> acts \<Longrightarrow> accepting s = Subscribed p \<Longrightarrow>
    system_step acts policy s (s\<lparr>links := links s @ [LinkSpawned], accepting := NotSubscribed\<rparr>)"
| accept_fails: "AcceptError \<in> acts \<Longrightarrow> accepting s = Subscribed p \<Longrightarrow> system_step acts policy s (s\<lparr>accepting := Ended\<rparr>)"
| accept_signalled: "accepting s = Subscribed p \<Longrightarrow> p < signals s \<Longrightarrow> system_step acts policy s (s\<lparr>accepting := Ended\<rparr>)"
| link_moves: "i < length (links s) \<Longrightarrow> link_step acts (signals s) (links s ! i) l \<Longrightarrow>
    system_step acts policy s (s\<lparr>links := (links s)[i := l]\<rparr>)"
| link_logs: "Working p \<in> set (links s) \<Longrightarrow> system_step acts policy s (s\<lparr>log_writer := send_log [msg] (log_writer s)\<rparr>)"
| link_breaks: "Break \<in> acts \<Longrightarrow> i < length (links s) \<Longrightarrow> link_breakable (links s ! i) \<Longrightarrow>
    system_step acts policy s (s\<lparr>links := remove_nth i (links s)\<rparr>)"
| link_signalled: "i < length (links s) \<Longrightarrow> link_hears (signals s) (links s ! i) \<Longrightarrow>
    system_step acts policy s (s\<lparr>links := remove_nth i (links s)\<rparr>)"
| ttl_subscribes: "ttl_task s = NotSubscribed \<Longrightarrow> system_step acts policy s (s\<lparr>ttl_task := Subscribed (signals s)\<rparr>)"
| ttl_signalled: "ttl_task s = Subscribed p \<Longrightarrow> p < signals s \<Longrightarrow> system_step acts policy s (s\<lparr>ttl_task := Ended\<rparr>)"
| evictor_moves: "evictor_step (signals s) (evictor s) st \<Longrightarrow> system_step acts policy s (s\<lparr>evictor := st\<rparr>)"
| clock_moves: "clock_step (infra_signals s) (clock_of s) c \<Longrightarrow> system_step acts policy s (s\<lparr>clock_of := c\<rparr>)"
| writer_receives: "\<not> writer_done s \<Longrightarrow> chan (log_writer s) \<noteq> [] \<Longrightarrow>
    writer_receive policy (chan (log_writer s)) (disk (log_writer s)) = (c, f) \<Longrightarrow>
    system_step acts policy s (s\<lparr>log_writer := (log_writer s)\<lparr>chan := c, disk := f\<rparr>\<rparr>)"
| writer_ticks: "\<not> writer_done s \<Longrightarrow>
    system_step acts policy s (s\<lparr>log_writer := (log_writer s)\<lparr>disk := writer_tick policy (disk (log_writer s))\<rparr>\<rparr>)"
| writer_ends: "\<not> writer_done s \<Longrightarrow> chan (log_writer s) = [] \<Longrightarrow> accepting s = Ended \<Longrightarrow> links s = [] \<Longrightarrow> system_step acts policy s
    (s\<lparr>log_writer := (log_writer s)\<lparr>disk := writer_close [] (disk (log_writer s))\<rparr>, writer_done := True\<rparr>)"
| connections_joined: "phase s = JoinConnections \<Longrightarrow> accepting s = Ended \<Longrightarrow> links s = [] \<Longrightarrow>
    system_step acts policy s (s\<lparr>phase := JoinTtl\<rparr>)"
| ttl_joined: "phase s = JoinTtl \<Longrightarrow> ttl_task s = Ended \<Longrightarrow> system_step acts policy s (s\<lparr>phase := JoinMemory\<rparr>)"
| memory_joined: "phase s = JoinMemory \<Longrightarrow> evictor s = EvictorStopped \<Longrightarrow> system_step acts policy s (s\<lparr>phase := JoinAof\<rparr>)"
| aof_joined: "phase s = JoinAof \<Longrightarrow> writer_done s \<Longrightarrow> system_step acts policy s
    (case clock_task (clock_of s) of
       Sleeping p \<Rightarrow> s\<lparr>infra_signals := Suc (infra_signals s), phase := JoinClock\<rparr>
     | _ \<Rightarrow> s\<lparr>phase := Panicked\<rparr>)"
| clock_joined: "phase s = JoinClock \<Longrightarrow> clock_task (clock_of s) \<noteq> ClockSpawned \<Longrightarrow>
    system_step acts policy s (s\<lparr>phase := Finished\<rparr>)"

section \<open>What a finished shutdown leaves\<close>

fun joined_after :: "phase \<Rightarrow> nat" where
  "joined_after Serving = 0"
| "joined_after JoinConnections = 1"
| "joined_after JoinTtl = 2"
| "joined_after JoinMemory = 3"
| "joined_after JoinAof = 4"
| "joined_after JoinClock = 5"
| "joined_after Finished = 6"
| "joined_after Panicked = 0"

text \<open>The tasks a phase has waited for have ended; the clock is stopped last.\<close>

definition join_inv :: "server \<Rightarrow> bool" where
  "join_inv s \<longleftrightarrow>
     (phase s = Serving \<longrightarrow> signals s = 0) \<and> (0 < joined_after (phase s) \<longrightarrow> signals s = 1) \<and>
     (2 \<le> joined_after (phase s) \<longrightarrow> accepting s = Ended \<and> links s = []) \<and>
     (3 \<le> joined_after (phase s) \<longrightarrow> ttl_task s = Ended) \<and>
     (4 \<le> joined_after (phase s) \<longrightarrow> evictor s = EvictorStopped) \<and>
     (5 \<le> joined_after (phase s) \<longrightarrow> writer_done s) \<and>
     infra_signals s = (if 5 \<le> joined_after (phase s) then 1 else 0) \<and>
     (5 \<le> joined_after (phase s) \<longrightarrow> clock_task (clock_of s) \<noteq> ClockSpawned \<and> clock_task (clock_of s) \<noteq> LoopSpawned)"

definition log_inv :: "AofFsync \<Rightarrow> bytes \<Rightarrow> server \<Rightarrow> bool" where
  "log_inv policy old s \<longleftrightarrow>
     writer_inv policy old (log_writer s) \<and>
     (writer_done s \<longrightarrow> chan (log_writer s) = [] \<and> accepting s = Ended \<and> links s = [] \<and>
        synced (disk (log_writer s)) = length (content (disk (log_writer s))))"

lemma evictor_stopped_stays: "\<not> evictor_step n EvictorStopped st"
  by (auto elim: evictor_step.cases)

lemma clock_task_stays:
  "clock_step n c c' \<Longrightarrow> clock_task c \<noteq> ClockSpawned \<Longrightarrow> clock_task c \<noteq> LoopSpawned \<Longrightarrow>
   clock_task c' \<noteq> ClockSpawned \<and> clock_task c' \<noteq> LoopSpawned"
  by (induction rule: clock_step.induct) (auto simp: store_time_def split: option.splits)

lemma system_step_join:
  assumes "system_step acts policy s s'" "join_inv s"
  shows "join_inv s'"
  using assms(1)
proof cases
  case (evictor_moves st)
  then show ?thesis
    using assms(2) evictor_stopped_stays by (auto simp: join_inv_def)
next
  case (clock_moves c)
  then show ?thesis
    using assms(2) clock_task_stays by (auto simp: join_inv_def)
next
  case aof_joined
  then show ?thesis
    using assms(2) by (auto simp: join_inv_def split: clock_task.split)
qed (use assms(2) in \<open>auto simp: join_inv_def remove_nth_def split: if_splits\<close>)

interpretation join_run: step_invariant "system_step acts policy" join_inv for acts policy
  by unfold_locales (rule system_step_join)

lemma system_step_log:
  assumes "system_step acts policy s s'" "log_inv policy old s"
  shows "log_inv policy old s'"
  using assms(1)
proof cases
  case (writer_receives c f)
  then have "writer_step policy (log_writer s) ((log_writer s)\<lparr>chan := c, disk := f\<rparr>)"
    by (intro writer_step.receive)
  then show ?thesis
    using assms(2) writer_receives writer_step_inv [of policy _ _ old] by (auto simp: log_inv_def)
next
  case writer_ends
  then show ?thesis
    using assms(2) by (auto simp: log_inv_def writer_inv_def writer_close_def sync_data_def)
next
  case (link_logs p msg)
  then show ?thesis
    using assms(2) writer_step_inv [OF writer_step.send [of policy "log_writer s" msg], of old]
    by (auto simp: log_inv_def send_log_def)
next
  case writer_ticks
  then show ?thesis
    using assms(2) writer_step_inv [OF writer_step.tick [of policy "log_writer s"], of old] by (auto simp: log_inv_def)
next
  case aof_joined
  then show ?thesis
    using assms(2) by (auto simp: log_inv_def split: clock_task.split)
qed (use assms(2) in \<open>auto simp: log_inv_def remove_nth_def\<close>)

interpretation log_run: step_invariant "system_step acts policy" "log_inv policy old" for acts policy old
  by unfold_locales (rule system_step_log)

lemma started_inv:
  "join_inv (started t f)"
  "synced f = length (content f) \<Longrightarrow> log_inv policy (content f) (started t f)"
  by (simp_all add: join_inv_def log_inv_def started_def writer_inv_def)

lemma finished_log:
  assumes "runs (system_step acts policy) (started t f) s" "synced f = length (content f)" "phase s = Finished"
  shows "content (disk (log_writer s)) = content f @ concat (sent (log_writer s))"
    "synced (disk (log_writer s)) = length (content (disk (log_writer s)))"
  using join_run.runs_keep [OF assms(1) started_inv(1)] log_run.runs_keep [OF assms(1) started_inv(2) [OF assms(2)]] assms(3)
  by (auto simp: join_inv_def log_inv_def writer_inv_def)

section \<open>A signal that somebody misses\<close>

text \<open>Every subscription the task can still make or look at is behind the signal, or it waits for something else before it
  looks.\<close>

fun deaf :: "nat \<Rightarrow> receiver \<Rightarrow> bool" where
  "deaf n NotSubscribed \<longleftrightarrow> True"
| "deaf n (Subscribed p) \<longleftrightarrow> n \<le> p"
| "deaf n Ended \<longleftrightarrow> False"

fun link_deaf :: "nat \<Rightarrow> link \<Rightarrow> bool" where
  "link_deaf n (Reading p) \<longleftrightarrow> n \<le> p"
| "link_deaf n (Working p) \<longleftrightarrow> n \<le> p"
| "link_deaf n (Streaming p) \<longleftrightarrow> n \<le> p"
| "link_deaf n _ \<longleftrightarrow> True"

fun evictor_deaf :: "nat \<Rightarrow> evictor_state \<Rightarrow> bool" where
  "evictor_deaf n Top \<longleftrightarrow> True"
| "evictor_deaf n (Patrol p) \<longleftrightarrow> n \<le> p"
| "evictor_deaf n (OverMemory p) \<longleftrightarrow> n \<le> p"
| "evictor_deaf n Evicting \<longleftrightarrow> True"
| "evictor_deaf n EvictorStopped \<longleftrightarrow> False"

definition missed :: "server \<Rightarrow> bool" where
  "missed s \<longleftrightarrow>
     deaf (signals s) (accepting s) \<or> list_ex (link_deaf (signals s)) (links s) \<or> deaf (signals s) (ttl_task s) \<or>
     evictor_deaf (signals s) (evictor s)"

lemma evictor_step_deaf: "evictor_step n st st' \<Longrightarrow> evictor_deaf n st \<Longrightarrow> evictor_deaf n st'"
  by (induction rule: evictor_step.induct) auto

lemma link_step_deaf:
  "link_step acts n l l' \<Longrightarrow> acts \<subseteq> {Connect, Request} \<Longrightarrow> link_deaf n l \<Longrightarrow> link_deaf n l'"
  by (induction rule: link_step.induct) auto

lemma link_hears_not_deaf: "link_hears n l \<Longrightarrow> \<not> link_deaf n l"
  by (cases "(n, l)" rule: link_hears.cases) auto

lemma list_ex_remove_nth:
  "i < length xs \<Longrightarrow> \<not> P (xs ! i) \<Longrightarrow> list_ex P (remove_nth i xs) = list_ex P xs"
  by (subst (2) id_take_nth_drop [of i xs]) (simp_all add: remove_nth_def)

lemma list_ex_update:
  "i < length xs \<Longrightarrow> (P (xs ! i) \<Longrightarrow> P y) \<Longrightarrow> list_ex P xs \<Longrightarrow> list_ex P (xs[i := y])"
  by (auto simp: list_ex_length nth_list_update) metis

lemma system_step_missed:
  assumes "system_step acts policy s s'" "acts \<subseteq> {Connect, Request}" "missed s" "phase s \<noteq> Serving"
  shows "missed s' \<and> phase s' \<noteq> Serving"
  using assms(1)
proof cases
  case (evictor_moves st)
  then show ?thesis
    using assms(3,4) evictor_step_deaf by (auto simp: missed_def)
next
  case (link_signalled i)
  then show ?thesis
    using assms(3,4) link_hears_not_deaf by (simp add: missed_def list_ex_remove_nth)
next
  case (link_moves i l)
  then show ?thesis
    using assms(3,4) link_step_deaf [OF link_moves(3) assms(2)] list_ex_update [of i "links s" "link_deaf (signals s)" l]
    by (auto simp: missed_def)
next
  case aof_joined
  then show ?thesis
    using assms(3,4) by (auto simp: missed_def split: clock_task.split)
qed (use assms(2-4) in \<open>auto simp: missed_def\<close>)

lemma not_finished_missed: "join_inv s \<Longrightarrow> phase s = Finished \<Longrightarrow> \<not> missed s"
  by (simp add: join_inv_def missed_def)

interpretation missed_run: step_invariant "system_step (acts \<inter> {Connect, Request}) policy" "\<lambda>s. missed s \<and> phase s \<noteq> Serving"
  for acts policy
  by unfold_locales (use system_step_missed in blast)

section \<open>A signal that everybody hears\<close>

abbreviation alone :: "AofFsync \<Rightarrow> server \<Rightarrow> server \<Rightarrow> bool" where
  "alone policy \<equiv> runs (system_step {} policy)"

lemma between_commands: "\<not> link_deaf n l \<Longrightarrow> \<forall>p. l \<noteq> Working p \<Longrightarrow> link_hears n l"
  by (cases l) auto

lemma links_end: "list_all (link_hears (signals s)) (links s) \<Longrightarrow> alone policy s (s\<lparr>links := []\<rparr>)"
proof (induction "links s" arbitrary: s)
  case Nil
  then have "s\<lparr>links := []\<rparr> = s"
    by (cases s) simp
  then show ?case
    by (simp add: run_refl)
next
  case (Cons l ls)
  then have l: "link_hears (signals s) (links s ! 0)" "0 < length (links s)"
    by (simp_all flip: Cons(2))
  have "system_step {} policy s (s\<lparr>links := ls\<rparr>)"
    using link_signalled [OF l(2,1), of "{}" policy] by (simp add: remove_nth_def flip: Cons(2))
  moreover have "alone policy (s\<lparr>links := ls\<rparr>) (s\<lparr>links := []\<rparr>)"
    using Cons(1) [of "s\<lparr>links := ls\<rparr>"] Cons(3) by (simp flip: Cons(2))
  ultimately show ?case
    by (blast intro: runs_one runs_trans)
qed

lemma accept_ends: "\<not> deaf (signals s) (accepting s) \<Longrightarrow> alone policy s (s\<lparr>accepting := Ended\<rparr>)"
proof (cases "accepting s")
  case (Subscribed p)
  then show "\<not> deaf (signals s) (accepting s) \<Longrightarrow> alone policy s (s\<lparr>accepting := Ended\<rparr>)"
    by (simp add: runs_one accept_signalled)
next
  case Ended
  then have "s\<lparr>accepting := Ended\<rparr> = s"
    by simp
  then show ?thesis
    by (simp add: run_refl)
qed simp

lemma ttl_ends: "\<not> deaf (signals s) (ttl_task s) \<Longrightarrow> alone policy s (s\<lparr>ttl_task := Ended\<rparr>)"
proof (cases "ttl_task s")
  case (Subscribed p)
  then show "\<not> deaf (signals s) (ttl_task s) \<Longrightarrow> alone policy s (s\<lparr>ttl_task := Ended\<rparr>)"
    by (simp add: runs_one ttl_signalled)
next
  case Ended
  then have "s\<lparr>ttl_task := Ended\<rparr> = s"
    by simp
  then show ?thesis
    by (simp add: run_refl)
qed simp

lemma evictor_ends: "\<not> evictor_deaf (signals s) (evictor s) \<Longrightarrow> alone policy s (s\<lparr>evictor := EvictorStopped\<rparr>)"
proof (cases "evictor s = EvictorStopped")
  case True
  then have "s\<lparr>evictor := EvictorStopped\<rparr> = s"
    by simp
  then show ?thesis
    by (simp add: run_refl)
next
  case False
  assume "\<not> evictor_deaf (signals s) (evictor s)"
  then have "evictor_step (signals s) (evictor s) EvictorStopped"
  proof (cases "evictor s")
    case (OverMemory p)
    then show "\<not> evictor_deaf (signals s) (evictor s) \<Longrightarrow> ?thesis"
      using evictor_step.try_recv [of "signals s" p] by simp
  qed (use False in \<open>simp_all add: evictor_step.signalled\<close>)
  then show ?thesis
    by (blast intro: runs_one evictor_moves)
qed

lemma writer_drains:
  "\<not> writer_done s \<Longrightarrow> \<exists>w. chan w = [] \<and> alone policy s (s\<lparr>log_writer := w\<rparr>)"
proof (induction "length (chan (log_writer s))" arbitrary: s rule: less_induct)
  case less
  show ?case
  proof (cases "chan (log_writer s) = []")
    case True
    then show ?thesis
      using run_refl [of "system_step {} policy" s] by (intro exI [of _ "log_writer s"]) simp
  next
    case False
    obtain c f where cf: "writer_receive policy (chan (log_writer s)) (disk (log_writer s)) = (c, f)"
      by force
    let ?s = "s\<lparr>log_writer := (log_writer s)\<lparr>chan := c, disk := f\<rparr>\<rparr>"
    have "length c < length (chan (log_writer s))"
      using cf False by (auto simp: writer_receive_def take_batch_def BATCH_def Let_def)
    then obtain w where "chan w = []" "alone policy ?s (?s\<lparr>log_writer := w\<rparr>)"
      using less(1) [of ?s] less(2) by auto
    moreover have "alone policy s ?s"
      using writer_receives [OF less(2) False cf] by (rule runs_one)
    ultimately show ?thesis
      using runs_trans [of "system_step {} policy" s ?s] by (intro exI [of _ w]) simp
  qed
qed

lemma writer_finishes:
  assumes "accepting s = Ended" "links s = []"
  shows "\<exists>w. alone policy s (s\<lparr>log_writer := w, writer_done := True\<rparr>)"
proof (cases "writer_done s")
  case True
  then have "s\<lparr>log_writer := log_writer s, writer_done := True\<rparr> = s"
    by simp
  then show ?thesis
    using run_refl by metis
next
  case False
  from writer_drains [OF this] obtain w where "chan w = []" "alone policy s (s\<lparr>log_writer := w\<rparr>)"
    by blast
  then show ?thesis
    using writer_ends [of "s\<lparr>log_writer := w\<rparr>" "{}" policy] assms False
    by (auto intro: run_step [where step = "system_step {} policy"])
qed

lemma clock_starts:
  assumes "clock_task (clock_of s) \<noteq> ClockStopped"
  shows "\<exists>c p. clock_task c = Sleeping p \<and> alone policy s (s\<lparr>clock_of := c\<rparr>)"
proof -
  have loop: "\<exists>c p. clock_task c = Sleeping p \<and> alone policy s (s\<lparr>clock_of := c\<rparr>)"
    if "clock_task (clock_of s) = LoopSpawned" for s
    using clock_moves [OF loop_subscribes [OF that], of "{}" policy] by (intro exI) (auto intro: runs_one)
  show ?thesis
  proof (cases "clock_task (clock_of s)")
    case (Sleeping p)
    then show ?thesis
      using run_refl [of "system_step {} policy" s] by (intro exI [of _ "clock_of s"]) simp
  next
    case ClockSpawned
    let ?c = "(clock_of s)\<lparr>wall_ms := max 0 (wall_ms (clock_of s))\<rparr>"
    let ?c' = "store_time LoopSpawned ?c"
    have "alone policy s (s\<lparr>clock_of := ?c\<rparr>)"
      by (intro runs_one clock_moves system_time)
    moreover have "alone policy (s\<lparr>clock_of := ?c\<rparr>) (s\<lparr>clock_of := ?c'\<rparr>)"
      using clock_moves [of "s\<lparr>clock_of := ?c\<rparr>" ?c' "{}" policy] first_store [of ?c] ClockSpawned by (simp add: runs_one)
    moreover have "clock_task ?c' = LoopSpawned"
      by (simp add: store_time_def system_time_ms_def)
    then obtain c p where "clock_task c = Sleeping p" "alone policy (s\<lparr>clock_of := ?c'\<rparr>) (s\<lparr>clock_of := c\<rparr>)"
      using loop [of "s\<lparr>clock_of := ?c'\<rparr>"] by auto
    ultimately show ?thesis
      by (blast intro: runs_trans)
  qed (use assms loop in auto)
qed

text \<open>All tasks have ended; the clock has its subscription when it is needed.\<close>

definition quiet :: "server \<Rightarrow> bool" where
  "quiet s \<longleftrightarrow>
     accepting s = Ended \<and> links s = [] \<and> ttl_task s = Ended \<and> evictor s = EvictorStopped \<and> writer_done s \<and>
     ((\<exists>p. clock_task (clock_of s) = Sleeping p) \<or> phase s = JoinClock \<and> clock_task (clock_of s) \<noteq> ClockSpawned)"

lemma quiet_joins:
  assumes "quiet s" "0 < joined_after (phase s)"
  shows "\<exists>s'. alone policy s s' \<and> phase s' = Finished"
  using assms
proof (induction "6 - joined_after (phase s)" arbitrary: s rule: less_induct)
  case less
  have next_phase: ?case if "system_step {} policy s s'" "quiet s'" "joined_after (phase s) < joined_after (phase s')" for s'
  proof -
    have "joined_after (phase s') \<le> 6"
      by (cases "phase s'") auto
    then have "6 - joined_after (phase s') < 6 - joined_after (phase s)" "0 < joined_after (phase s')"
      using that(3) by auto
    from less(1) [OF this(1) that(2) this(2)] show ?thesis
      using runs_trans [OF runs_one [where step = "system_step {} policy", OF that(1)]] by blast
  qed
  show ?case
  proof (cases "phase s")
    case JoinConnections
    then show ?thesis
      using less(2) by (intro next_phase [OF connections_joined]) (auto simp: quiet_def)
  next
    case JoinTtl
    then show ?thesis
      using less(2) by (intro next_phase [OF ttl_joined]) (auto simp: quiet_def)
  next
    case JoinMemory
    then show ?thesis
      using less(2) by (intro next_phase [OF memory_joined]) (auto simp: quiet_def)
  next
    case JoinAof
    then show ?thesis
      using less(2) by (intro next_phase [OF aof_joined]) (auto simp: quiet_def)
  next
    case JoinClock
    have "clock_task (clock_of s) \<noteq> ClockSpawned"
      using less(2) by (auto simp: quiet_def)
    then have "alone policy s (s\<lparr>phase := Finished\<rparr>)"
      using JoinClock by (intro runs_one clock_joined)
    then show ?thesis
      by (intro exI [of _ "s\<lparr>phase := Finished\<rparr>"]) simp
  next
    case Finished
    then show ?thesis
      by (intro exI [of _ s]) (simp add: run_refl)
  qed (use less(3) in auto)
qed

lemma heard_finishes:
  assumes "\<not> missed s" "list_all (\<lambda>l. \<forall>p. l \<noteq> Working p) (links s)" "join_inv s" "0 < joined_after (phase s)" "clock_task (clock_of s) \<noteq> ClockStopped \<or> 5 \<le> joined_after (phase s)"
  shows "\<exists>s'. alone policy s s' \<and> phase s' = Finished"
proof (cases "phase s = Finished")
  case False
  note heard = assms(1) [unfolded missed_def de_Morgan_disj]
  let ?a = "s\<lparr>accepting := Ended\<rparr>"
  let ?l = "?a\<lparr>links := []\<rparr>"
  let ?t = "?l\<lparr>ttl_task := Ended\<rparr>"
  let ?e = "?t\<lparr>evictor := EvictorStopped\<rparr>"
  have "alone policy s ?a"
    using heard by (intro accept_ends) simp
  also have "alone policy ?a ?l"
    using heard assms(2) between_commands by (intro links_end) (auto simp: list_all_iff list_ex_iff)
  also have "alone policy ?l ?t"
    using heard by (intro ttl_ends) simp
  also have "alone policy ?t ?e"
    using heard by (intro evictor_ends) simp
  finally have tasks: "alone policy s ?e" .
  obtain w where w: "alone policy ?e (?e\<lparr>log_writer := w, writer_done := True\<rparr>)"
    using writer_finishes [of ?e policy] by auto
  let ?w = "?e\<lparr>log_writer := w, writer_done := True\<rparr>"
  obtain s' where s': "alone policy ?w s'" "quiet s'" "phase s' = phase s"
  proof (cases "5 \<le> joined_after (phase s)")
    case True
    then have "phase s = JoinClock" "clock_task (clock_of s) \<noteq> ClockSpawned"
      using False assms(3) by (cases "phase s"; simp add: join_inv_def)+
    then show thesis
      by (intro that [of ?w] run_refl) (simp_all add: quiet_def)
  next
    case early: False
    then obtain c p where "clock_task c = Sleeping p" "alone policy ?w (?w\<lparr>clock_of := c\<rparr>)"
      using clock_starts [of ?w policy] assms(5) by auto
    then show thesis
      by (intro that [of "?w\<lparr>clock_of := c\<rparr>"]) (simp_all add: quiet_def)
  qed
  with quiet_joins [OF s'(2)] assms(4) obtain s'' where s'': "alone policy s' s''" "phase s'' = Finished"
    by auto
  have "alone policy s s''"
    by (rule runs_trans [OF tasks runs_trans [OF w runs_trans [OF s'(1) s''(1)]]])
  then show ?thesis
    using s''(2) by blast
qed (intro exI [of _ s] conjI run_refl)

section \<open>An example\<close>

text \<open>Steps in which no message is sent and nothing is evicted.\<close>

definition quiet_step :: "act set \<Rightarrow> AofFsync \<Rightarrow> server \<Rightarrow> server \<Rightarrow> bool" where
  "quiet_step acts policy s s' \<longleftrightarrow>
     system_step acts policy s s' \<and> sent (log_writer s') = sent (log_writer s) \<and> evictor s' \<noteq> Evicting"

lemma quiet_runs: "runs (quiet_step acts policy) s s' \<Longrightarrow> runs (system_step acts policy) s s'"
proof (induction rule: runs.induct)
  case (run_step s s1 s2)
  then show ?case
    using runs.run_step [where step = "system_step acts policy"] by (auto simp: quiet_step_def)
qed (rule run_refl)

text \<open>A server with one connection, at work, and the same server when its first message is on its way.\<close>

definition demo_server :: "receiver \<Rightarrow> link list \<Rightarrow> evictor_state \<Rightarrow> aof_file \<Rightarrow> bytes list \<Rightarrow> server" where
  "demo_server a l ev f msgs = \<lparr>signals = 0, infra_signals = 0, accepting = a, links = l, ttl_task = a, evictor = ev,
     clock_of = \<lparr>wall_ms = 5, CACHED_TIME_MS = 5, clock_task = Sleeping 0\<rparr>,
     log_writer = \<lparr>chan = msgs, disk = f, sent = msgs\<rparr>, writer_done = False, phase = Serving\<rparr>"

lemma demo_starts: "runs (quiet_step UNIV policy) (started 5 f) (demo_server NotSubscribed [Working 0] Top f [])"
proof -
  let ?S = "\<lambda>a l k m. (started 5 f)\<lparr>accepting := a, links := l, clock_of := \<lparr>wall_ms = 5, CACHED_TIME_MS = m, clock_task = k\<rparr>\<rparr>"
  let ?R = "runs (quiet_step UNIV policy) (started 5 f)"
  note go = run_step [where step = "quiet_step UNIV policy"]
  have "?R (?S NotSubscribed [] ClockSpawned 0)"
    using run_refl [of "quiet_step UNIV policy" "started 5 f"] by (simp add: started_def boot_clock_def)
  from go [OF this] have "?R (?S (Subscribed 0) [] ClockSpawned 0)"
    using accept_subscribes [of "?S NotSubscribed [] ClockSpawned 0" UNIV policy] by (simp add: quiet_step_def started_def)
  from go [OF this] have "?R (?S NotSubscribed [LinkSpawned] ClockSpawned 0)"
    using accept [of UNIV "?S (Subscribed 0) [] ClockSpawned 0" 0 policy] by (simp add: quiet_step_def started_def)
  from go [OF this] have "?R (?S NotSubscribed [Reading 0] ClockSpawned 0)"
    using link_moves [of 0 "?S NotSubscribed [LinkSpawned] ClockSpawned 0" UNIV "Reading 0" policy] link_step.subscribes [of UNIV 0]
    by (simp add: quiet_step_def started_def)
  from go [OF this] have "?R (?S NotSubscribed [Working 0] ClockSpawned 0)"
    using link_moves [of 0 "?S NotSubscribed [Reading 0] ClockSpawned 0" UNIV "Working 0" policy] link_step.request [of UNIV 0 0]
    by (simp add: quiet_step_def started_def)
  from go [OF this] have "?R (?S NotSubscribed [Working 0] LoopSpawned 5)"
    using clock_moves [OF first_store, of "?S NotSubscribed [Working 0] ClockSpawned 0" UNIV policy]
    by (simp add: quiet_step_def started_def store_time_def system_time_ms_def)
  from go [OF this] have "?R (?S NotSubscribed [Working 0] (Sleeping 0) 5)"
    using clock_moves [OF loop_subscribes, of "?S NotSubscribed [Working 0] LoopSpawned 5" UNIV policy]
    by (simp add: quiet_step_def started_def)
  then show ?thesis
    by (simp add: demo_server_def started_def)
qed

lemma demo_settles:
  "runs (quiet_step UNIV policy) (demo_server NotSubscribed [Working 0] Top f [m]) (demo_server (Subscribed 0) [Reading 0] (Patrol 0) f [m])"
proof -
  let ?R = "runs (quiet_step UNIV policy) (demo_server NotSubscribed [Working 0] Top f [m])"
  note go = run_step [where step = "quiet_step UNIV policy"]
  have "?R (demo_server NotSubscribed [Reading 0] Top f [m])"
    using go [OF run_refl, of "demo_server NotSubscribed [Working 0] Top f [m]"] link_step.answered [of UNIV 0 0]
      link_moves [of 0 "demo_server NotSubscribed [Working 0] Top f [m]" UNIV "Reading 0" policy]
    by (simp add: quiet_step_def demo_server_def)
  from go [OF this] have "?R ((demo_server NotSubscribed [Reading 0] Top f [m])\<lparr>accepting := Subscribed 0\<rparr>)"
    using accept_subscribes [of "demo_server NotSubscribed [Reading 0] Top f [m]" UNIV policy]
    by (simp add: quiet_step_def demo_server_def)
  from go [OF this] have "?R (demo_server (Subscribed 0) [Reading 0] Top f [m])"
    using ttl_subscribes [of "(demo_server NotSubscribed [Reading 0] Top f [m])\<lparr>accepting := Subscribed 0\<rparr>" UNIV policy]
    by (simp add: quiet_step_def demo_server_def)
  from go [OF this] show ?thesis
    using evictor_moves [of "demo_server (Subscribed 0) [Reading 0] Top f [m]" "Patrol 0" UNIV policy]
    by (simp add: quiet_step_def demo_server_def evictor_step.healthy)
qed

lemma demo_stops:
  "\<exists>s. runs (quiet_step UNIV policy) (demo_server NotSubscribed [Working 0] Top f [m]) s \<and> phase s = Finished \<and> sent (log_writer s) = [m]"
proof -
  let ?s = "demo_server (Subscribed 0) [Reading 0] (Patrol 0) f [m]"
  let ?e = "?s\<lparr>signals := 1, phase := JoinConnections, links := [], accepting := Ended, ttl_task := Ended, evictor := EvictorStopped\<rparr>"
  let ?R = "runs (quiet_step UNIV policy) (demo_server NotSubscribed [Working 0] Top f [m])"
  note go = run_step [where step = "quiet_step UNIV policy"]
  have "?R ?s"
    by (rule demo_settles)
  from go [OF this] have "?R (?s\<lparr>signals := 1, phase := JoinConnections\<rparr>)"
    using signal [of ?s UNIV policy] by (simp add: quiet_step_def demo_server_def has_receiver_def)
  from go [OF this] have "?R (?s\<lparr>signals := 1, phase := JoinConnections, links := []\<rparr>)"
    using link_signalled [of 0 "?s\<lparr>signals := 1, phase := JoinConnections\<rparr>" UNIV policy]
    by (simp add: quiet_step_def demo_server_def remove_nth_def)
  from go [OF this] have "?R (?s\<lparr>signals := 1, phase := JoinConnections, links := [], accepting := Ended\<rparr>)"
    using accept_signalled [of "?s\<lparr>signals := 1, phase := JoinConnections, links := []\<rparr>" 0 UNIV policy]
    by (simp add: quiet_step_def demo_server_def)
  from go [OF this] have "?R (?s\<lparr>signals := 1, phase := JoinConnections, links := [], accepting := Ended, ttl_task := Ended\<rparr>)"
    using ttl_signalled [of "?s\<lparr>signals := 1, phase := JoinConnections, links := [], accepting := Ended\<rparr>" 0 UNIV policy]
    by (simp add: quiet_step_def demo_server_def)
  from go [OF this] have e: "?R ?e"
    using evictor_moves [of "?s\<lparr>signals := 1, phase := JoinConnections, links := [], accepting := Ended, ttl_task := Ended\<rparr>" EvictorStopped UNIV policy]
      evictor_step.signalled [of 0 1]
    by (simp add: quiet_step_def demo_server_def)
  obtain g where g: "writer_receive policy [m] f = ([], g)"
    by (cases "writer_receive policy [m] f") (auto simp: writer_receive_def take_batch_def BATCH_def Let_def)
  let ?w = "?e\<lparr>log_writer := \<lparr>chan = [], disk = g, sent = [m]\<rparr>\<rparr>"
  from go [OF e] have "?R ?w"
    using g writer_receives [of ?e policy "[]" g UNIV] by (simp add: quiet_step_def demo_server_def)
  let ?d = "?w\<lparr>log_writer := \<lparr>chan = [], disk = writer_close [] g, sent = [m]\<rparr>, writer_done := True\<rparr>"
  from go [OF \<open>?R ?w\<close>] have "?R ?d"
    using writer_ends [of ?w UNIV policy] by (simp add: quiet_step_def demo_server_def)
  from go [OF this] have "?R (?d\<lparr>phase := JoinTtl\<rparr>)"
    using connections_joined [of ?d UNIV policy] by (simp add: quiet_step_def demo_server_def)
  from go [OF this] have "?R (?d\<lparr>phase := JoinMemory\<rparr>)"
    using ttl_joined [of "?d\<lparr>phase := JoinTtl\<rparr>" UNIV policy] by (simp add: quiet_step_def demo_server_def)
  from go [OF this] have "?R (?d\<lparr>phase := JoinAof\<rparr>)"
    using memory_joined [of "?d\<lparr>phase := JoinMemory\<rparr>" UNIV policy] by (simp add: quiet_step_def demo_server_def)
  from go [OF this] have "?R (?d\<lparr>phase := JoinClock, infra_signals := 1\<rparr>)"
    using aof_joined [of "?d\<lparr>phase := JoinAof\<rparr>" UNIV policy] by (simp add: quiet_step_def demo_server_def)
  from go [OF this] have "?R (?d\<lparr>phase := Finished, infra_signals := 1\<rparr>)"
    using clock_joined [of "?d\<lparr>phase := JoinClock, infra_signals := 1\<rparr>" UNIV policy] by (simp add: quiet_step_def demo_server_def)
  then show ?thesis
    by (intro exI [of _ "?d\<lparr>phase := Finished, infra_signals := 1\<rparr>"]) simp
qed

section \<open>Properties\<close>

text \<open>Property C16: a shutdown that finishes loses nothing. In every interleaving of the tasks, whatever clients and the network do, when
  \<^verbatim>\<open>ShutDown::shutdown\<close> has returned, every message any connection ever logged is in the log file, in order,
  behind what the file held at the start, and all of it is on disk; no connection is open and none can be accepted,
  the expiry task, the memory task and the writer have ended, and only then was the clock told to stop. (The loop of the clock is not
  waited for: it may still be there with the signal in front of it.)\<close>

theorem finished_shutdown_is_durable:
  assumes "runs (system_step acts policy) (started t f) s" and "synced f = length (content f)" and "phase s = Finished"
  shows "content (disk (log_writer s)) = content f @ concat (sent (log_writer s)) \<and>
    synced (disk (log_writer s)) = length (content (disk (log_writer s))) \<and>
    accepting s = Ended \<and> links s = [] \<and> ttl_task s = Ended \<and> evictor s = EvictorStopped \<and> writer_done s \<and>
    signals s = 1 \<and> infra_signals s = 1 \<and> (clock_task (clock_of s) = ClockStopped \<or> (\<exists>p. clock_task (clock_of s) = Sleeping p))"
  using finished_log [OF assms] join_run.runs_keep [OF assms(1) started_inv(1)] assms(3)
  by (cases "clock_task (clock_of s)") (simp_all add: join_inv_def)

theorem finished_shutdown_is_durable_witness:
  "\<exists>s. runs (system_step UNIV No) (started 5 \<lparr>content = ''a'', synced = 1\<rparr>) s \<and> phase s = Finished \<and>
     sent (log_writer s) = [''x''] \<and> content (disk (log_writer s)) = ''ax'' \<and> synced (disk (log_writer s)) = 2 \<and> links s = []"
proof -
  let ?f = "\<lparr>content = ''a'', synced = 1\<rparr>"
  have "runs (system_step UNIV No) (started 5 ?f) (demo_server NotSubscribed [Working 0] Top ?f [])"
    by (rule quiet_runs [OF demo_starts])
  then have "runs (system_step UNIV No) (started 5 ?f) (demo_server NotSubscribed [Working 0] Top ?f [''x''])"
    using run_step [where step = "system_step UNIV No"] link_logs [of 0 "demo_server NotSubscribed [Working 0] Top ?f []" UNIV No "''x''"]
    by (simp add: demo_server_def send_log_def)
  moreover obtain s where s: "runs (system_step UNIV No) (demo_server NotSubscribed [Working 0] Top ?f [''x'']) s" "phase s = Finished"
    "sent (log_writer s) = [''x'']"
    using demo_stops quiet_runs by blast
  ultimately have run: "runs (system_step UNIV No) (started 5 ?f) s"
    by (blast intro: runs_trans)
  show ?thesis
    using finished_shutdown_is_durable [OF run _ s(2)] run s(2,3) by (intro exI [of _ s]) simp
qed

text \<open>Property C17: a shutdown can complete only if everybody hears the signal. Take any reachable state after the signal. Somebody has missed
  it if the accept loop, the expiry task, the memory task or a connection has no subscription from before the signal that it will still
  look at, or if a connection waits in a \<^verbatim>\<open>BLPOP\<close> without a timeout or in a write: then the shutdown does not complete in any
  schedule, whatever clients connect and send, unless a connection breaks, \<^verbatim>\<open>accept\<close> fails, or what the connection waits for happens. Such
  are the memory task at work when the signal comes, an accept loop that takes a last connection, and any task that starts late. If
  nobody has missed it and no connection is in the middle of a batch, the tasks can complete the shutdown by themselves. (Unless the clock
  task has died before it is told to stop.)\<close>

theorem shutdown_needs_everyone_to_hear:
  assumes "runs (system_step acts policy) (started t f) s" and "0 < joined_after (phase s)"
    and "clock_task (clock_of s) \<noteq> ClockStopped \<or> 5 \<le> joined_after (phase s)"
  shows "(if deaf (signals s) (accepting s) \<or> list_ex (link_deaf (signals s)) (links s) \<or> deaf (signals s) (ttl_task s) \<or>
       evictor_deaf (signals s) (evictor s)
     then \<forall>acts' s'. acts' \<subseteq> {Connect, Request} \<and> runs (system_step acts' policy) s s' \<longrightarrow> phase s' \<noteq> Finished
     else list_all (\<lambda>l. \<forall>p. l \<noteq> Working p) (links s) \<longrightarrow> (\<exists>s'. runs (system_step {} policy) s s' \<and> phase s' = Finished))"
proof -
  have inv: "join_inv s"
    using join_run.runs_keep [OF assms(1) started_inv(1)] .
  have "phase s' \<noteq> Finished" if "missed s" "acts' \<subseteq> {Connect, Request}" "runs (system_step acts' policy) s s'" for acts' s'
    using missed_run.runs_keep [of acts' policy s s', unfolded inf_absorb1 [OF that(2)], OF that(3)] that(1) assms(2) not_finished_missed join_run.runs_keep [OF that(3) inv] by fastforce
  then show ?thesis
    using heard_finishes [OF _ _ inv assms(2,3)] unfolding missed_def [symmetric] by auto
qed

theorem shutdown_needs_everyone_to_hear_witness:
  "\<exists>s s'. runs (system_step UNIV No) (started 5 \<lparr>content = [], synced = 0\<rparr>) s \<and> phase s = JoinConnections \<and> links s = [Popping 0] \<and>
     (\<forall>s''. runs (system_step {Connect, Request} No) s s'' \<longrightarrow> phase s'' \<noteq> Finished) \<and>
     runs (system_step UNIV No) (started 5 \<lparr>content = [], synced = 0\<rparr>) s' \<and> phase s' = JoinConnections \<and> links s' = [Reading 0] \<and>
     (\<exists>s''. runs (system_step {} No) s' s'' \<and> phase s'' = Finished)"
proof -
  let ?f = "\<lparr>content = [], synced = 0\<rparr>"
  let ?S = "\<lambda>n a l t e ph. \<lparr>signals = n, infra_signals = 0, accepting = a, links = l, ttl_task = t, evictor = e,
      clock_of = boot_clock 5, log_writer = \<lparr>chan = [], disk = ?f, sent = []\<rparr>, writer_done = False, phase = ph\<rparr>"
  let ?R = "runs (system_step UNIV No) (started 5 ?f)"
  note go = run_step [where step = "system_step UNIV No"]
  have "?R (?S 0 (Subscribed 0) [] NotSubscribed Top Serving)"
    using go [OF run_refl accept_subscribes [of "started 5 ?f" UNIV No]] by (simp add: started_def)
  from go [OF go [OF this accept [where p = 0]] link_moves [where i = 0 and l = "Reading 0"]]
  have "?R (?S 0 NotSubscribed [Reading 0] NotSubscribed Top Serving)"
    by (simp add: link_step.subscribes)
  from go [OF go [OF go [OF this accept_subscribes] ttl_subscribes] evictor_moves [where st = "Patrol 0"]]
  have idle: "?R (?S 0 (Subscribed 0) [Reading 0] (Subscribed 0) (Patrol 0) Serving)"
    by (simp add: evictor_step.healthy)
  from go [OF idle link_moves [where i = 0 and l = "Working 0"]]
  have "?R (?S 0 (Subscribed 0) [Working 0] (Subscribed 0) (Patrol 0) Serving)"
    by (simp add: link_step.request)
  from go [OF go [OF this link_moves [where i = 0 and l = "Popping 0"]] signal]
  have lost: "?R (?S 1 (Subscribed 0) [Popping 0] (Subscribed 0) (Patrol 0) JoinConnections)"
    by (simp add: has_receiver_def link_step.pops)
  from go [OF idle signal] have heard: "?R (?S 1 (Subscribed 0) [Reading 0] (Subscribed 0) (Patrol 0) JoinConnections)"
    by (simp add: has_receiver_def)
  from shutdown_needs_everyone_to_hear [OF lost] have "\<forall>s''. runs (system_step {Connect, Request} No)
      (?S 1 (Subscribed 0) [Popping 0] (Subscribed 0) (Patrol 0) JoinConnections) s'' \<longrightarrow> phase s'' \<noteq> Finished"
    by (auto simp: boot_clock_def)
  moreover from shutdown_needs_everyone_to_hear [OF heard] have "\<exists>s''. runs (system_step {} No)
      (?S 1 (Subscribed 0) [Reading 0] (Subscribed 0) (Patrol 0) JoinConnections) s'' \<and> phase s'' = Finished"
    by (simp add: boot_clock_def)
  ultimately show ?thesis
    using lost heard by (intro exI [of _ "?S 1 (Subscribed 0) [Popping 0] (Subscribed 0) (Patrol 0) JoinConnections"]
        exI [of _ "?S 1 (Subscribed 0) [Reading 0] (Subscribed 0) (Patrol 0) JoinConnections"]) simp
qed

end
