(* ===== verification/Config.thy ===== *)
theory Config
  imports Lua Aof_Recovery
begin

text \<open>
  The configuration, \<^verbatim>\<open>src/src/config.rs\<close>, read from the environment at the first use, and the filling of
  the pool of Lua machines at startup. The environment is a map; the Unicode functions on strings, \<^verbatim>\<open>trim\<close>
  and \<^verbatim>\<open>to_uppercase\<close>, are parameters.
\<close>

record Config =
  eviction_type :: EvictionType
  server_addr :: string
  aof_file_path :: string
  lua_worker_count :: nat
  lua_queue_depth :: nat
  lua_vm_pool_size :: nat
  cfg_num_shards :: nat
  replica_of :: "string option"
  cluster_peers :: "string list"
  aof_fsync :: AofFsync

definition env_or :: "(string \<rightharpoonup> string) \<Rightarrow> string \<Rightarrow> string \<Rightarrow> string" where
  "env_or vars name dflt = (case vars name of Some s \<Rightarrow> s | None \<Rightarrow> dflt)"

definition env_usize :: "(string \<rightharpoonup> string) \<Rightarrow> string \<Rightarrow> string \<Rightarrow> nat \<Rightarrow> nat" where
  "env_usize vars name text dflt = (case parse_usize (env_or vars name text) of Some n \<Rightarrow> n | None \<Rightarrow> dflt)"

text \<open>\<^verbatim>\<open>s.split(',')\<close>.\<close>

fun split_commas :: "string \<Rightarrow> string list" where
  "split_commas [] = [[]]"
| "split_commas (c # s) =
     (if c = CHR '','' then [] # split_commas s
      else case split_commas s of [] \<Rightarrow> [[c]] | p # ps \<Rightarrow> (c # p) # ps)"

definition parse_eviction :: "ext \<Rightarrow> string \<Rightarrow> EvictionType" where
  "parse_eviction E s = (if to_uppercase E s = ''LFU'' then LFU else LRU)"

definition parse_fsync :: "ext \<Rightarrow> string \<Rightarrow> AofFsync" where
  "parse_fsync E s =
     (let u = to_uppercase E s in if u = ''ALWAYS'' then Always else if u = ''NO'' then No else EverySec)"

definition CONFIG :: "ext \<Rightarrow> (string \<Rightarrow> string) \<Rightarrow> (string \<rightharpoonup> string) \<Rightarrow> Config" where
  "CONFIG E trim vars =
     \<lparr>eviction_type = parse_eviction E (env_or vars ''EVICTION_POLICY'' ''LRU''),
      server_addr = env_or vars ''SERVER_ADDR'' ''0.0.0.0:6380'',
      aof_file_path = env_or vars ''AOF_FILE_PATH'' ''database.aof'',
      lua_worker_count = env_usize vars ''LUA_WORKER_COUNT'' ''8'' 8,
      lua_queue_depth = env_usize vars ''LUA_QUEUE_DEPTH'' ''100000'' 100000,
      lua_vm_pool_size = env_usize vars ''LUA_VM_POOL_SIZE'' ''50'' 50,
      cfg_num_shards = env_usize vars ''NUM_SHARDS'' ''64'' 64,
      replica_of = (case vars ''REPLICA_OF'' of None \<Rightarrow> None | Some s \<Rightarrow> if trim s = [] then None else Some s),
      cluster_peers = (case vars ''CLUSTER_PEERS'' of
          None \<Rightarrow> []
        | Some s \<Rightarrow> filter (\<lambda>p. p \<noteq> []) (map trim (split_commas s))),
      aof_fsync = parse_fsync E (env_or vars ''AOF_FSYNC'' ''EverySec'')\<rparr>"

definition with_config :: "Config \<Rightarrow> 'j env \<Rightarrow> 'j env" where
  "with_config c e = e\<lparr>num_shards := cfg_num_shards c\<rparr>"

section \<open>Values that are not checked\<close>

lemma env_usize_set:
  "vars name = Some (show_nat n) \<Longrightarrow> n < 2 ^ 64 \<Longrightarrow> env_usize vars name text dflt = n"
  by (simp add: env_usize_def env_or_def parse_unsigned_show_nat)

text \<open>The number of shards may be configured as zero: the server starts with no shard, and the
  first command that has a key panics on the remainder by zero.\<close>

lemma zero_shards_panics:
  assumes "vars ''NUM_SHARDS'' = Some ''0''" "single_key c" "\<forall>k vs. c \<noteq> LPush k vs" "\<forall>k p v. c \<noteq> JsonSet k p v"
  shows "execute (with_config (CONFIG E trim vars) e) ev ctx conn c w = None"
proof -
  have "cfg_num_shards (CONFIG E trim vars) = 0"
  proof -
    have "''0'' = show_nat 0"
      by code_simp
    then show ?thesis
      using env_usize_set [of vars "''NUM_SHARDS''" 0] assms(1) by (simp add: CONFIG_def)
  qed
  then have "get_shard_index (with_config (CONFIG E trim vars) e) k = None" for k
    by (simp add: get_shard_index_def with_config_def)
  then have "run_single (with_config (CONFIG E trim vars) e) ctx conn acc k c w = None" for acc k
    by (simp add: run_single_def with_lock_def)
  then show ?thesis
    using assms(2-4) by (cases c) (simp_all add: execute_def get_key_def)
qed

text \<open>The pool of Lua machines: fifty are put into a channel of the configured size before anything
  takes one out. A full channel blocks the sender: no result.\<close>

fun send_machines :: "nat \<Rightarrow> nat \<Rightarrow> nat \<Rightarrow> nat option" where
  "send_machines capacity queued 0 = Some queued"
| "send_machines capacity queued (Suc n) =
     (if queued < capacity then send_machines capacity (Suc queued) n else None)"

definition init_lua_vm :: "nat \<Rightarrow> nat option" where
  "init_lua_vm capacity = send_machines capacity 0 50"

lemma send_machines_iff: "send_machines capacity queued n \<noteq> None \<longleftrightarrow> queued + n \<le> capacity \<or> n = 0"
  by (induction n arbitrary: queued) auto

lemma init_lua_vm_needs_fifty: "init_lua_vm (lua_vm_pool_size c) \<noteq> None \<longleftrightarrow> 50 \<le> lua_vm_pool_size c"
  using send_machines_iff [of "lua_vm_pool_size c" 0 50] by (simp add: init_lua_vm_def)

text \<open>Without an environment the configuration is the documented default.\<close>

lemma config_defaults:
  assumes "ext_ok E"
  shows "CONFIG E trim Map.empty =
    \<lparr>eviction_type = LRU, server_addr = ''0.0.0.0:6380'', aof_file_path = ''database.aof'', lua_worker_count = 8,
     lua_queue_depth = 100000, lua_vm_pool_size = 50, cfg_num_shards = 64, replica_of = None, cluster_peers = [], aof_fsync = EverySec\<rparr>"
proof -
  have up: "to_uppercase E ''LRU'' = ''LRU''" "to_uppercase E ''EverySec'' = ''EVERYSEC''"
  proof -
    have "is_ascii ''LRU''" "ascii_upper ''LRU'' = ''LRU''" "is_ascii ''EverySec''" "ascii_upper ''EverySec'' = ''EVERYSEC''"
      by code_simp+
    then show "to_uppercase E ''LRU'' = ''LRU''" "to_uppercase E ''EverySec'' = ''EVERYSEC''"
      using assms unfolding ext_ok_def by metis+
  qed
  have "parse_usize ''8'' = Some 8" "parse_usize ''100000'' = Some 100000" "parse_usize ''50'' = Some 50" "parse_usize ''64'' = Some 64"
    using parse_unsigned_show_nat [where n = 8 and w = 64] parse_unsigned_show_nat [where n = 100000 and w = 64]
      parse_unsigned_show_nat [where n = 50 and w = 64] parse_unsigned_show_nat [where n = 64 and w = 64]
    by (simp_all add: show_nat.simps)
  then show ?thesis
    by (simp add: CONFIG_def env_or_def env_usize_def parse_eviction_def parse_fsync_def up)
qed

end
