(* ===== verification/Lifecycle.thy ===== *)
theory Lifecycle
  imports Durability Eviction Shutdown Config
begin

text \<open>
  The life of a server: the sequence of \<^verbatim>\<open>run\<close> in \<^verbatim>\<open>src/src/lib.rs\<close> up to the moment the tasks are spawned, the
  workers for scripts (\<^verbatim>\<open>start_multi_lua_actor\<close> in \<^verbatim>\<open>src/src/lua/lua_work.rs\<close>) and the state of a connection
  (\<^verbatim>\<open>src/src/context.rs\<close>); and the properties that need startup, work and shutdown together.

  What the environment decides is an argument: whether the listener can be bound, whether the writer task, which was spawned
  before, has already created the log file when recovery opens it, and the system time. Whatever stops the startup is a
  value of \<open>boot_error\<close>. The file found at startup is on disk.
\<close>

section \<open>Connections\<close>

record ConnectionState =
  selected_db :: nat
  client_address :: "string option"

definition initial_state :: "string \<Rightarrow> ConnectionState" where
  "initial_state addr = \<lparr>selected_db = 0, client_address = Some addr\<rparr>"

section \<open>The workers for scripts\<close>

text \<open>One channel per worker; a channel without places is refused by a panic.\<close>

fun spawn_workers :: "nat \<Rightarrow> nat \<Rightarrow> nat list \<Rightarrow> nat list option" where
  "spawn_workers 0 queue_size senders = Some senders"
| "spawn_workers (Suc n) queue_size senders =
     (if queue_size = 0 then None else spawn_workers n queue_size (senders @ [queue_size]))"

definition start_multi_lua_actor :: "nat \<Rightarrow> nat \<Rightarrow> nat list option" where
  "start_multi_lua_actor worker_num queue_size = spawn_workers worker_num queue_size []"

record LuaTask =
  task_command :: "string \<times> string list \<times> string list"
  connect_state :: ConnectionState

text \<open>The loop of a worker over the tasks of its queue: each one runs in the connection state it brought
  along, and its result goes back to whoever waits for it.\<close>

fun lua_worker :: "'j env \<Rightarrow> 'j lua_env \<Rightarrow> LuaTask list \<Rightarrow> 'j world \<Rightarrow> ('j world \<times> Frame kvres list) option" where
  "lua_worker e L [] w = Some (w, [])"
| "lua_worker e L (task # tasks) w =
     (case task_command task of (script, keys, args) \<Rightarrow>
        do { (w1, r) \<leftarrow> lua_engine e L (Some (selected_db (connect_state task))) script keys args w;
             (w2, rs) \<leftarrow> lua_worker e L tasks w1;
             Some (w2, r # rs) })"

lemma spawn_workers_spec:
  "spawn_workers n q senders = (if n = 0 \<or> q \<noteq> 0 then Some (senders @ replicate n q) else None)"
  by (induction n arbitrary: senders) (auto simp: replicate_app_Cons_same)

lemma start_multi_lua_actor_spec:
  "start_multi_lua_actor n q = (if n = 0 \<or> q \<noteq> 0 then Some (replicate n q) else None)"
  by (simp add: start_multi_lua_actor_def spawn_workers_spec)

text \<open>Without workers every script is refused; with workers and an empty start none is.\<close>

lemma started_workers_dispatch:
  "start_multi_lua_actor n q = Some senders \<Longrightarrow>
   (\<exists>b < n. dispatch_task senders random = Inr b) \<longleftrightarrow> n \<noteq> 0"
  using dispatch_least_loaded [of senders random]
  by (auto simp: start_multi_lua_actor_spec dispatch_task_def split: if_splits)

section \<open>Startup\<close>

datatype boot_error =
    LuaPoolBlocked
  | LuaQueueRefused
  | ListenerFailed
  | RecoveryFailed

record 'j booted =
  booted_db :: "'j world"
  lua_senders :: "nat list"
  tasks :: server

text \<open>The configured server before the clock has been started.\<close>

definition boot_env :: "Config \<Rightarrow> 'j env \<Rightarrow> 'j env" where
  "boot_env cfg e = (with_config cfg e)\<lparr>rt_of := (rt_of e)\<lparr>cached_time_ms := get_cached_time_ms (boot_clock 0)\<rparr>\<rparr>"

definition open_log :: "bool \<Rightarrow> bytes option \<Rightarrow> bytes option" where
  "open_log created path = (case path of None \<Rightarrow> if created then Some [] else None | Some file \<Rightarrow> Some file)"

definition run_startup ::
  "resp_env \<Rightarrow> 'j env \<Rightarrow> 'j engine \<Rightarrow> (nat \<Rightarrow> nat) \<Rightarrow> Config \<Rightarrow> bool \<Rightarrow> bool \<Rightarrow> int \<Rightarrow> bytes option \<Rightarrow>
   (boot_error, 'j booted) res" where
  "run_startup R e ev rd cfg binds created t path =
     (case init_lua_vm (lua_vm_pool_size cfg) of
        None \<Rightarrow> Inl LuaPoolBlocked
      | Some _ \<Rightarrow>
          (case start_multi_lua_actor (lua_worker_count cfg) (lua_queue_depth cfg) of
             None \<Rightarrow> Inl LuaQueueRefused
           | Some lua_sender \<Rightarrow>
               if \<not> binds then Inl ListenerFailed
               else
                 let e0 = boot_env cfg e; db = Storage_new e0 (eviction_type cfg);
                     state = initial_state ''192.168.1.10:54321''
                 in case explain_execute_aofcommand R e0 ev (Some (selected_db state)) rd (open_log created path) db of
                      Some (w, Some file, Inr _) \<Rightarrow>
                        Inr \<lparr>booted_db = w, lua_senders = lua_sender,
                             tasks = started t \<lparr>content = file, synced = length file\<rparr>\<rparr>
                    | _ \<Rightarrow> Inl RecoveryFailed))"

definition boot_ok :: "Config \<Rightarrow> bool" where
  "boot_ok cfg \<longleftrightarrow>
     50 \<le> lua_vm_pool_size cfg \<and> (lua_worker_count cfg = 0 \<or> lua_queue_depth cfg \<noteq> 0) \<and> 0 < cfg_num_shards cfg"

lemma boot_env_simps [simp]:
  "ext_of (boot_env cfg e) = ext_of e" "env_now (boot_env cfg e) = 0" "num_shards (boot_env cfg e) = cfg_num_shards cfg"
  "lexical_parse_i64 (boot_env cfg e) = lexical_parse_i64 e" "json_from_str (boot_env cfg e) = json_from_str e"
  "json_pointer_set (boot_env cfg e) = json_pointer_set e" "fx_hash (boot_env cfg e) = fx_hash e"
  by (simp_all add: boot_env_def with_config_def get_cached_time_ms_def boot_clock_def)

lemma boot_env_libs [simp]: "same_libs e' (boot_env cfg e) \<longleftrightarrow> same_libs e' e"
  by (simp add: same_libs_def)

lemma run_startup_reaches_recovery:
  "boot_ok cfg \<Longrightarrow> run_startup R e ev rd cfg True created t path =
     (case explain_execute_aofcommand R (boot_env cfg e) ev (Some 0) rd (open_log created path)
             (Storage_new (boot_env cfg e) (eviction_type cfg)) of
        Some (w, Some file, Inr _) \<Rightarrow>
          Inr \<lparr>booted_db = w, lua_senders = replicate (lua_worker_count cfg) (lua_queue_depth cfg),
               tasks = started t \<lparr>content = file, synced = length file\<rparr>\<rparr>
      | _ \<Rightarrow> Inl RecoveryFailed)"
  using init_lua_vm_needs_fifty [of cfg]
  by (auto simp: boot_ok_def run_startup_def start_multi_lua_actor_spec initial_state_def Let_def split: option.split)

text \<open>The very first start. Recovery does not create the log file: whether the server comes up depends on whether
  the writer task has run by then.\<close>

lemma first_start_races_writer:
  assumes "boot_ok cfg"
  shows "run_startup R e ev rd cfg True False t None = Inl RecoveryFailed"
    and "\<exists>b. run_startup R e ev rd cfg True True t None = Inr b"
proof -
  show "run_startup R e ev rd cfg True False t None = Inl RecoveryFailed"
    by (simp add: run_startup_reaches_recovery [OF assms] open_log_def explain_execute_aofcommand_def)
  have "recover_loop R (boot_env cfg e) ev (Some 0) rd FILE_DATA_LEN [] 0 [] st = Some (st, [], Inr ())" for st
    by (subst recover_loop.simps) (simp add: read_file_def FILE_DATA_LEN_def)
  then show "\<exists>b. run_startup R e ev rd cfg True True t None = Inr b"
    by (simp add: run_startup_reaches_recovery [OF assms] open_log_def explain_execute_aofcommand_def)
qed

text \<open>A connection may be served before the clock has been set for the first time: \<^verbatim>\<open>run\<close> does not wait for the
  task it spawned. A relative deadline computed then lies just after the epoch.\<close>

lemma served_before_clock:
  "\<exists>s. runs (system_step UNIV policy) (started t f) s \<and> Working 0 \<in> set (links s) \<and>
     calculate_expiration_timestamp_ms (get_cached_time_ms (clock_of s)) (Exp_PX ms) = ms"
proof -
  note go = run_step [where step = "system_step UNIV policy"]
  let ?s = "(started t f)\<lparr>links := [Working 0], accepting := NotSubscribed\<rparr>"
  have "runs (system_step UNIV policy) (started t f) ((started t f)\<lparr>accepting := Subscribed 0\<rparr>)"
    using go [OF run_refl accept_subscribes [of "started t f" UNIV policy]] by (simp add: started_def)
  from go [OF go [OF this accept [where p = 0]] link_moves [where i = 0 and l = "Reading 0"]]
  have "runs (system_step UNIV policy) (started t f) (?s\<lparr>links := [Reading 0]\<rparr>)"
    by (simp add: started_def link_step.subscribes)
  from go [OF this link_moves [where i = 0 and l = "Working 0"]] have "runs (system_step UNIV policy) (started t f) ?s"
    by (simp add: started_def link_step.request)
  then show ?thesis
    by (intro exI [of _ ?s]) (simp add: started_def boot_clock_def get_cached_time_ms_def)
qed

section \<open>Lives of a server\<close>

lemma history_boot [simp]: "history_ok R (boot_env cfg e) past A \<longleftrightarrow> history_ok R e past A"
  by (induction past arbitrary: A) auto

lemma boot_from_history:
  assumes "boot_ok cfg" "ext_ok (ext_of e)" "finder_ok R" "history_ok R e past Map.empty"
    and "length (concat (log_messages past Map.empty)) \<le> min (rd 0) FILE_DATA_LEN"
  shows "\<exists>b. run_startup R e ev rd cfg True created t (Some (concat (log_messages past Map.empty))) = Inr b \<and>
    db_rel (boot_env cfg e) (booted_db b) (arun past Map.empty) \<and> aof_sent (booted_db b) = [] \<and>
    tasks b = started t \<lparr>content = concat (log_messages past Map.empty), synced = length (concat (log_messages past Map.empty))\<rparr>"
proof -
  obtain w where "explain_execute_aofcommand R (boot_env cfg e) ev (Some 0) rd (Some (concat (log_messages past Map.empty)))
      (Storage_new (boot_env cfg e) (eviction_type cfg)) = Some (w, Some (concat (log_messages past Map.empty)), Inr ())"
    "db_rel (boot_env cfg e) w (arun past Map.empty)" "aof_sent w = []"
    using history_recovers [where er = "boot_env cfg e" and rd = rd and run = past and R = R and ev = ev and ty = "eviction_type cfg"]
      assms by (auto simp: boot_ok_def)
  then show ?thesis
    by (simp add: run_startup_reaches_recovery [OF assms(1)] open_log_def)
qed

text \<open>The running server: its tasks together with the store they work on. A connection that is at work executes a
  command, at the time the clock shows, and sends the messages of the command to the writer, before another command runs; every other step
  belongs to the tasks alone. The memory task never gets to work and the expiry task finds nothing to delete.\<close>

record 'j life =
  life_db :: "'j world"
  life_tasks :: server
  served :: "('j env \<times> Command) list"

definition life_begins :: "'j booted \<Rightarrow> 'j life" where
  "life_begins b = \<lparr>life_db = booted_db b, life_tasks = tasks b, served = []\<rparr>"

inductive life_step :: "act set \<Rightarrow> AofFsync \<Rightarrow> 'j engine \<Rightarrow> 'j life \<Rightarrow> 'j life \<Rightarrow> bool" for acts policy ev where
  life_tasks_move: "quiet_step acts policy (life_tasks x) s \<Longrightarrow> life_step acts policy ev x (x\<lparr>life_tasks := s\<rparr>)"
| life_serves: "Working p \<in> set (links (life_tasks x)) \<Longrightarrow> env_now e = get_cached_time_ms (clock_of (life_tasks x)) \<Longrightarrow>
    execute_command_normal e ev (Some (selected_db (initial_state addr))) c (life_db x) = Some (w, Done r) \<Longrightarrow>
    aof_sent w = aof_sent (life_db x) @ msgs \<Longrightarrow>
    life_step acts policy ev x (x\<lparr>life_db := w, served := served x @ [(e, c)],
      life_tasks := (life_tasks x)\<lparr>log_writer := send_log msgs (log_writer (life_tasks x))\<rparr>\<rparr>)"

lemma client_run_append:
  "client_run ev conn (xs @ ys) w = Option.bind (client_run ev conn xs w) (client_run ev conn ys)"
  by (induction ev conn xs w rule: client_run.induct) (auto split: option.splits exec_result.splits)

lemma link_logs_all:
  "Working p \<in> set (links s) \<Longrightarrow> runs (system_step acts policy) s (s\<lparr>log_writer := send_log msgs (log_writer s)\<rparr>)"
proof (induction msgs rule: rev_induct)
  case Nil
  then show ?case
    using run_refl [of "system_step acts policy" s] by (simp add: send_log_def)
next
  case (snoc m msgs)
  then show ?case
    using run_step [where step = "system_step acts policy", OF snoc.IH]
      link_logs [of p "s\<lparr>log_writer := send_log msgs (log_writer s)\<rparr>" acts policy m] by (simp add: send_log_def)
qed

lemma quiet_life:
  assumes "runs (quiet_step acts policy) s s'"
  shows "life_tasks x = s \<Longrightarrow> runs (life_step acts policy ev) x (x\<lparr>life_tasks := s'\<rparr>)"
  using assms
proof (induction rule: runs.induct)
  case (run_refl s)
  then show ?case
    using runs.run_refl [of "life_step acts policy ev" x] by (cases x) simp
next
  case (run_step s s1 s2)
  then show ?case
    using runs.run_step [where step = "life_step acts policy ev", OF run_step.IH [OF run_step.prems]]
      life_tasks_move [of acts policy "x\<lparr>life_tasks := s1\<rparr>" s2 ev] by simp
qed

text \<open>A run of the whole is a run of the tasks and a run of clients, with the same messages.\<close>

lemma life_decomposes:
  assumes "runs (life_step acts policy ev) (life_begins b) x" "aof_sent (booted_db b) = sent (log_writer (tasks b))"
  shows "runs (system_step acts policy) (tasks b) (life_tasks x) \<and> client_run ev (Some 0) (served x) (booted_db b) = Some (life_db x) \<and>
    sent (log_writer (life_tasks x)) = aof_sent (life_db x)"
  using assms
proof (induction "life_begins b" x rule: runs.induct)
  case run_refl
  then show ?case
    using runs.run_refl [of "system_step acts policy" "tasks b"] by (simp add: life_begins_def)
next
  case (run_step x y)
  note IH = run_step(2) [OF run_step(4)]
  from run_step(3) show ?case
  proof cases
    case (life_tasks_move s)
    then show ?thesis
      using IH runs.run_step [where step = "system_step acts policy"] by (auto simp: quiet_step_def)
  next
    case (life_serves p e addr c w r msgs)
    have "runs (system_step acts policy) (tasks b) ((life_tasks x)\<lparr>log_writer := send_log msgs (log_writer (life_tasks x))\<rparr>)"
      using IH link_logs_all [OF life_serves(2)] by (blast intro: runs_trans)
    then show ?thesis
      using IH life_serves by (simp add: client_run_append initial_state_def send_log_def)
  qed
qed

section \<open>A log that does not replay\<close>

lemma recover_fails:
  assumes R: "finder_ok R" and fs: "log_of R (ext_of e) fs cs" "replay e ev conn cs (None, w) = Some (st, Inr ())"
    and f: "request_frame R f" "try_from (ext_of e) f = Inr c" "apply_aof_command e ev conn c st = Some (st', Inl er)"
    and size: "length (wire fs @ serialize f) \<le> min (rd 0) FILE_DATA_LEN"
  shows "explain_execute_aofcommand R e ev conn rd (Some (wire fs @ serialize f)) w =
    Some (snd st', Some (wire fs @ serialize f), Inl (RecKv er))"
proof -
  let ?file = "wire fs @ serialize f"
  have ne: "?file \<noteq> []" "serialize f \<noteq> []"
    using serialize_nonempty by auto
  have "recover_pass R e ev conn (serialize f) st n m = Some (st', Inl (RecKv er))" for n m
    using parse_frame_serialize [OF R f(1), of "[]"] ne(2) f(2,3) by (subst recover_pass.simps) simp
  then have pass: "recover_pass R e ev conn ?file (None, w) 0 0 = Some (st', Inl (RecKv er))"
    using recover_pass_commands [OF R fs, of "serialize f" 0 0] by simp
  have "length ?file \<le> min (max 1 (rd 0)) FILE_DATA_LEN"
    using size by auto
  then have "read_file rd 0 FILE_DATA_LEN ?file = ?file"
    by (simp only: read_file_def drop_0 take_all)
  then have "recover_loop R e ev conn rd FILE_DATA_LEN ?file 0 [] (None, w) = Some (st', ?file, Inl (RecKv er))"
    using pass ne(1) by (subst recover_loop.simps) (simp add: FILE_DATA_LEN_def)
  then show ?thesis
    by (simp add: explain_execute_aofcommand_def)
qed

lemma eviction_memory_shrinks:
  assumes "\<And>h. set (order h) = set h"
  shows "world_ok e w \<Longrightarrow> eviction_memory e target budget order n w = Some w' \<Longrightarrow> world_ok e w' \<and> shrinks w w'"
proof (induction n arbitrary: w)
  case (Suc n)
  obtain w1 where "eviction_round e target budget order w = Some w1" "world_ok e w1" "shrinks w w1"
    using eviction_round_spec [OF Suc.prems(1) assms] by blast
  then show ?case
    using Suc shrinks_trans by auto
qed simp

lemma shrinks_rest: "shrinks w w' \<Longrightarrow> blocking_queues w' = blocking_queues w \<and> aof_sent w' = aof_sent w"
proof -
  assume "shrinks w w'"
  then obtain st g l where "w' = w\<lparr>store := st, global_memory := g, lua_sessions := l\<rparr>"
    unfolding shrinks_def same_rest_def by blast
  then show ?thesis
    by simp
qed

text \<open>A sorted-set command on a key that holds a string: an error that ends a recovery.\<close>

lemma zadd_replay_fails:
  assumes "db_rel e w A" "A k = Some (AStr b, ex)" "env_now e = 0" "\<not> f64_is_nan sc"
  shows "\<exists>w' er. apply_aof_command e ev (Some 0) (ZAdd k sc m) (None, w) = Some ((None, w'), Inl er)"
proof -
  have "redis e (ZAdd k sc m) (A k) = (A k, wrongtype_err, [])"
    by (simp add: assms(2) on_zset_def Let_def)
  from single_step [OF assms(1) _ _ fresh_at_start [OF assms(3)] _ _ this, of CtxRecovery ev] obtain w' where
    "execute e ev CtxRecovery (Some 0) (ZAdd k sc m) w = Some (w', Done wrongtype_err)"
    using assms(2,4) by (auto simp: get_key_def)
  then show ?thesis
    by (simp add: apply_outside run_recovered_def execute_command_def wrongtype_err_def)
qed

section \<open>Properties\<close>

text \<open>Property C2: a life of a server hands its history to the next one. The histories are those of \<open>history_ok\<close>: single-key
  commands and \<^verbatim>\<open>MSET\<close>, whose keys are not past their deadlines, without \<^verbatim>\<open>SET .. EX\<close>, scripts and \<^verbatim>\<open>BLPOP\<close>, each of which the log can
  represent. Start a server on a file that holds the log of such a history, short enough to be read at once. It comes up, and
  its store holds what the history computes. Now let it run, in any interleaving of connections, log writer, clock, background tasks and
  shutdown, with one command executed after the other, as long as nothing is evicted or expires: when the commands served so far continue the history, its store holds what
  the longer history computes; and when a shutdown has finished, the file holds exactly the log of the longer history, on disk, so that
  the next life starts under the same conditions. The number of shards, the eviction policy and the fsync policy may differ from life to
  life.\<close>

theorem server_life_extends_history:
  assumes "boot_ok cfg" and "ext_ok (ext_of e)" and "finder_ok R" and "history_ok R e past Map.empty"
    and "length (concat (log_messages past Map.empty)) \<le> min (rd 0) FILE_DATA_LEN"
  shows "\<exists>b. run_startup R e ev rd cfg True created t (Some (concat (log_messages past Map.empty))) = Inr b \<and>
    (\<forall>k. slot_rel e (peek (boot_env cfg e) 0 k (booted_db b)) (arun past Map.empty k)) \<and>
    (\<forall>acts x. runs (life_step acts (aof_fsync cfg) ev') (life_begins b) x \<and>
        servable_run R (boot_env cfg e) (served x) (arun past Map.empty) \<longrightarrow>
      (\<forall>k. slot_rel e (peek (boot_env cfg e) 0 k (life_db x)) (arun (past @ served x) Map.empty k)) \<and>
      history_ok R e (past @ served x) Map.empty \<and>
      (phase (life_tasks x) = Finished \<longrightarrow>
         content (disk (log_writer (life_tasks x))) = concat (log_messages (past @ served x) Map.empty) \<and>
         synced (disk (log_writer (life_tasks x))) = length (content (disk (log_writer (life_tasks x))))))"
proof -
  have libs: "same_libs (boot_env cfg e) e"
    by (simp add: same_libs_def)
  obtain b where b: "run_startup R e ev rd cfg True created t (Some (concat (log_messages past Map.empty))) = Inr b"
    "db_rel (boot_env cfg e) (booted_db b) (arun past Map.empty)" "aof_sent (booted_db b) = []"
    "tasks b = started t \<lparr>content = concat (log_messages past Map.empty), synced = length (concat (log_messages past Map.empty))\<rparr>"
    using boot_from_history [where rd = rd, OF assms(1-5)] by blast
  have slots: "slot_rel e (peek (boot_env cfg e) 0 k w) (A k)" if "db_rel (boot_env cfg e) w A" for w A k
    using that slot_rel_libs [OF libs] by (simp add: db_rel_def)
  have "(\<forall>k. slot_rel e (peek (boot_env cfg e) 0 k (life_db x)) (arun (past @ served x) Map.empty k)) \<and>
      history_ok R e (past @ served x) Map.empty \<and>
      (phase (life_tasks x) = Finished \<longrightarrow>
         content (disk (log_writer (life_tasks x))) = concat (log_messages (past @ served x) Map.empty) \<and>
         synced (disk (log_writer (life_tasks x))) = length (content (disk (log_writer (life_tasks x)))))"
    if run: "runs (life_step acts (aof_fsync cfg) ev') (life_begins b) x"
      and ok: "servable_run R (boot_env cfg e) (served x) (arun past Map.empty)" for acts x
  proof -
    have x: "runs (system_step acts (aof_fsync cfg)) (tasks b) (life_tasks x)" "client_run ev' (Some 0) (served x) (booted_db b) = Some (life_db x)"
      "sent (log_writer (life_tasks x)) = aof_sent (life_db x)"
      using life_decomposes [OF run] b(3,4) by (simp_all add: started_def)
    have w: "db_rel (boot_env cfg e) (life_db x) (arun (past @ served x) Map.empty)"
      "aof_sent (life_db x) = log_messages (served x) (arun past Map.empty)"
      using client_run_tracks [OF ok b(2), of ev'] x(2) b(3) by auto
    show ?thesis
      using slots [OF w(1)] assms(4) servable_history [OF ok libs] finished_log [OF x(1) [unfolded b(4)]] x(3) w(2) by simp
  qed
  then show ?thesis
    using b(1) slots [OF b(2)] by blast
qed

definition demo_config :: Config where
  "demo_config = \<lparr>eviction_type = LRU, server_addr = ''0.0.0.0:6380'', aof_file_path = ''database.aof'', lua_worker_count = 8,
     lua_queue_depth = 100, lua_vm_pool_size = 50, cfg_num_shards = 2, replica_of = None, cluster_peers = [], aof_fsync = EverySec\<rparr>"

lemma demo_config_ok: "boot_ok demo_config"
  by (simp add: boot_ok_def demo_config_def)

theorem server_life_extends_history_witness:
  "\<exists>b x. run_startup std_resp demo_env (\<lambda>_ _ _ _ _. None) (\<lambda>_. 4096) demo_config True True 5
       (Some (concat (log_messages demo_run Map.empty))) = Inr b \<and>
     runs (life_step UNIV EverySec (\<lambda>_ _ _ _ _. None)) (life_begins b) x \<and> phase (life_tasks x) = Finished \<and>
     map snd (served x) = [LPop ''k''] \<and> peek (boot_env demo_config demo_env) 0 ''k'' (life_db x) = None \<and>
     content (disk (log_writer (life_tasks x))) = concat (log_messages demo_run Map.empty) @ encode_lpop ''k''"
proof -
  let ?e = "demo_env\<lparr>rt_of := demo_rt\<lparr>cached_time_ms := 5\<rparr>\<rparr>" and ?ev = "\<lambda>_ _ _ _ _. None" and ?c = "LPop ''k''"
  let ?file = "concat (log_messages demo_run Map.empty)"
  let ?f = "\<lparr>content = ?file, synced = length ?file\<rparr>"
  have hist: "history_ok std_resp demo_env demo_run Map.empty"
    using servable_history [OF demo_run_ok(1), of demo_env] by (simp add: same_libs_def)
  have "utf8_valid ''k''"
    by (simp add: ascii_utf8_valid nat_of_char_def)
  then have run: "servable_run std_resp (boot_env demo_config demo_env) [(?e, ?c)] (arun demo_run Map.empty)"
    using demo_run_ok(2)
    by (simp add: servable_def same_conf_def same_libs_def get_key_def fresh_def demo_config_def std_resp_def
        vec_capacity_ok_def USIZE_MAX_def)
  have after: "arun (demo_run @ [(?e, ?c)]) Map.empty ''k'' = None" "log_messages [(?e, ?c)] (arun demo_run Map.empty) = [encode_lpop ''k'']"
    using demo_run_ok(2) by (simp_all add: astep_def alog_def get_key_def on_list_def log_bytes_def)
  have pre: "ext_ok (ext_of demo_env)" "length ?file \<le> min ((\<lambda>_. 4096) 0) FILE_DATA_LEN"
    using demo_run_ok(3) by (simp_all add: demo_ext_ok FILE_DATA_LEN_def)
  obtain b where b: "run_startup std_resp demo_env ?ev (\<lambda>_. 4096) demo_config True True 5 (Some ?file) = Inr b"
    "db_rel (boot_env demo_config demo_env) (booted_db b) (arun demo_run Map.empty)" "aof_sent (booted_db b) = []" "tasks b = started 5 ?f"
    using boot_from_history [where rd = "\<lambda>_. 4096", OF demo_config_ok pre(1) std_resp_ok hist pre(2)] by blast
  obtain w r where w: "execute_command_normal ?e ?ev (Some 0) ?c (booted_db b) = Some (w, Done r)" "aof_sent w = [encode_lpop ''k'']"
    using client_run_tracks [OF run b(2), of ?ev] b(3) after(2) by (auto split: option.splits exec_result.splits)
  let ?L = "runs (life_step UNIV EverySec ?ev)"
  let ?x = "(life_begins b)\<lparr>life_tasks := demo_server NotSubscribed [Working 0] Top ?f []\<rparr>"
  let ?y = "?x\<lparr>life_db := w, served := [(?e, ?c)], life_tasks := demo_server NotSubscribed [Working 0] Top ?f [encode_lpop ''k'']\<rparr>"
  have x: "?L (life_begins b) ?x"
    using quiet_life [OF demo_starts, of "life_begins b"] b(4) by (simp add: life_begins_def)
  have "life_step UNIV EverySec ?ev ?x ?y"
    using life_serves [of 0 ?x ?e ?ev "[]" ?c w r "[encode_lpop ''k'']" UNIV EverySec] w b(3)
    by (simp add: demo_server_def life_begins_def initial_state_def get_cached_time_ms_def send_log_def)
  from run_step [where step = "life_step UNIV EverySec ?ev", OF x this] have y: "?L (life_begins b) ?y" .
  obtain s where s: "runs (quiet_step UNIV EverySec) (demo_server NotSubscribed [Working 0] Top ?f [encode_lpop ''k'']) s" "phase s = Finished"
    using demo_stops by blast
  have z: "?L (life_begins b) (?y\<lparr>life_tasks := s\<rparr>)"
    using y quiet_life [OF s(1), of ?y ?ev] by (auto intro: runs_trans)
  have policy: "aof_fsync demo_config = EverySec"
    by (simp add: demo_config_def)
  from server_life_extends_history [where rd = "\<lambda>_. 4096" and t = 5 and created = True and ev = ?ev and ev' = ?ev,
      OF demo_config_ok pre(1) std_resp_ok hist pre(2), unfolded b(1) policy]
  have fin: "\<forall>acts x. runs (life_step acts EverySec ?ev) (life_begins b) x \<and>
      servable_run std_resp (boot_env demo_config demo_env) (served x) (arun demo_run Map.empty) \<longrightarrow>
    (\<forall>k. slot_rel demo_env (peek (boot_env demo_config demo_env) 0 k (life_db x)) (arun (demo_run @ served x) Map.empty k)) \<and>
    (phase (life_tasks x) = Finished \<longrightarrow> content (disk (log_writer (life_tasks x))) = concat (log_messages (demo_run @ served x) Map.empty))"
    by auto
  have "peek (boot_env demo_config demo_env) 0 ''k'' w = None" "content (disk (log_writer s)) = ?file @ encode_lpop ''k''"
    using fin [rule_format, OF conjI [OF z], THEN conjunct1, rule_format, of "''k''"]
      fin [rule_format, OF conjI [OF z], THEN conjunct2] run s(2) after by simp_all
  then show ?thesis
    using b(1) z s(2) by (intro exI [of _ b] exI [of _ "?y\<lparr>life_tasks := s\<rparr>"]) simp
qed

text \<open>Property C33: eviction can make a restart impossible. Nothing is logged when the memory task evicts a key. Take any
  server whose store holds a string under a key, let the memory task evict that key, and let a client use it for a sorted set:
  the command succeeds and is logged. From then on the server does not start any more: recovery replays the string, the
  sorted-set command fails on it, and \<^verbatim>\<open>run\<close> panics on the error, whatever the configuration.\<close>

theorem evicted_key_breaks_restart:
  assumes "boot_ok cfg" and "ext_ok (ext_of e)" and "finder_ok R" and "0 < num_shards e"
    and "servable_run R e past Map.empty" and "arun past Map.empty k = Some (AStr v, ex)"
    and "client_run ev (Some 0) past (Storage_new e ty) = Some w1"
    and "eviction_memory e target budget order n w1 = Some w2" and "\<forall>h. set (order h) = set h" and "peek e 0 k w2 = None"
    and "servable R e (ZAdd k sc m) Map.empty"
    and "length (concat (log_messages past Map.empty @ encode_aof_command (ext_of e) (env_now e) (ZAdd k sc m))) \<le> min (rd 0) FILE_DATA_LEN"
  shows "\<exists>w3. execute_command_normal e ev (Some 0) (ZAdd k sc m) w2 = Some (w3, Done (Inr (Integer 1))) \<and>
    run_startup R e ev' rd cfg True created t (Some (concat (aof_sent w3))) = Inl RecoveryFailed"
proof -
  let ?z = "ZAdd k sc m" and ?er = "boot_env cfg e"
  have w1: "db_rel e w1 (arun past Map.empty)" "aof_sent w1 = log_messages past Map.empty"
    using client_run_tracks [OF assms(5) db_rel_new [OF assms(4)], of ev ty] assms(7) by (auto simp: Storage_new_def)
  have w2: "world_ok e w2" "blocking_queues w2 = blocking_queues w1" "aof_sent w2 = log_messages past Map.empty"
    using eviction_memory_shrinks [OF _ _ assms(8)] shrinks_rest assms(9) w1 unfolding db_rel_def by metis+
  have nan: "\<not> f64_is_nan sc" and acc: "accepts ?z None"
    using assms(11) by (auto simp: servable_def get_key_def)
  have "effect e CtxNormal 0 k w2 (execute e ev CtxNormal (Some 0) ?z w2) (redis e ?z None)"
    using w1(1) w2(2) assms(10) acc
    by (intro execute_effect [OF w2(1)]) (simp_all add: db_rel_def get_key_def DB_COUNT_def)
  then obtain w3 where w3: "execute_command_normal e ev (Some 0) ?z w2 = Some (w3, Done (Inr (Integer 1)))"
    "aof_sent w3 = log_messages past Map.empty @ log_bytes e CtxNormal [?z]"
    using w2(3) by (auto simp: effect_def on_zset_def execute_command_normal_def)
  have E: "ext_ok (ext_of ?er)" and libs: "same_libs e ?er"
    using assms(2) by (simp_all add: same_libs_def)
  note readable = logged_readable [OF E libs assms(11), of ?z]
  have "no_empty_lists (Map.empty :: 'a adb)" "0 < num_shards ?er"
    using assms(1) by (simp_all add: no_empty_lists_def boot_ok_def)
  from history_replays [OF E _ servable_history [OF assms(5) libs] db_rel_new [OF this(2)] this(1), of ev' "eviction_type cfg"]
  obtain fs cs w where w: "log_messages past Map.empty = map serialize fs" "log_of R (ext_of ?er) fs cs"
    "replay ?er ev' (Some 0) cs (None, Storage_new ?er (eviction_type cfg)) = Some ((None, w), Inr ())" "db_rel ?er w (arun past Map.empty)"
    by auto
  obtain w' er where "apply_aof_command ?er ev' (Some 0) ?z (None, w) = Some ((None, w'), Inl er)"
    using zadd_replay_fails [OF w(4) assms(6) _ nan, of ev' m] by auto
  from recover_fails [where rd = rd, OF assms(3) w(2,3) _ _ this, of "command_frame (ext_of e) ?z"]
  have "explain_execute_aofcommand R ?er ev' (Some 0) rd (Some (concat (aof_sent w3))) (Storage_new ?er (eviction_type cfg)) =
      Some (w', Some (concat (aof_sent w3)), Inl (RecKv er))"
    using readable assms(12) w(1) w3(2) by (simp add: log_bytes_def)
  then show ?thesis
    using w3(1) by (intro exI [of _ w3]) (simp add: run_startup_reaches_recovery [OF assms(1)] open_log_def)
qed

text \<open>One key in a server with one shard per database: evicting down to nothing removes it.\<close>

definition demo_single :: "unit env" where
  "demo_single = demo_env\<lparr>num_shards := 1\<rparr>"

lemma single_shard_peek:
  assumes "world_ok demo_single w" "d < DB_COUNT"
  shows "peek demo_single d k w = db_store (store w ! d ! 0) k" "length (store w ! d) = 1"
  using world_ok_lengths [OF assms] by (simp_all add: peek_def get_shard_index_def demo_single_def)

lemma single_key_evicted:
  assumes w: "world_ok demo_single w" "\<forall>d < DB_COUNT. \<forall>k'. peek demo_single d k' w = (if d = 0 \<and> k' = k then Some en else None)"
    and en: "data_size en \<noteq> 0"
    and w': "world_ok demo_single w'" "shrinks w w'" "global_memory w' = 0"
  shows "peek demo_single 0 k w' = None"
proof (rule ccontr)
  assume "peek demo_single 0 k w' \<noteq> None"
  have le: "db_store (store w' ! d ! 0) \<subseteq>\<^sub>m db_store (store w ! d ! 0)" if "d < DB_COUNT" for d
    using w'(2) world_ok_lengths [OF w(1) that] that by (simp add: shrinks_def demo_single_def)
  have st: "db_store (store w ! d ! 0) = (if d = 0 then [k \<mapsto> en] else Map.empty)" if "d < DB_COUNT" for d
  proof
    show "db_store (store w ! d ! 0) k' = (if d = 0 then [k \<mapsto> en] else Map.empty) k'" for k'
      using w(2) that single_shard_peek(1) [OF w(1) that, of k'] by auto
  qed
  have "db_store (store w' ! 0 ! 0) = [k \<mapsto> en]"
    using le [of 0] st [of 0] single_shard_peek(1) [OF w'(1), of 0 k] \<open>peek demo_single 0 k w' \<noteq> None\<close>
    by (auto simp: map_le_def fun_eq_iff DB_COUNT_def dom_def split: if_splits)
  moreover have "db_store (store w' ! d ! 0) = Map.empty" if "d < DB_COUNT" "d \<noteq> 0" for d
    using le [OF that(1)] st [OF that(1)] that(2) by (auto simp: map_le_def dom_def fun_eq_iff)
  ultimately have mem: "approx_memory (store w' ! d ! 0) = (if d = 0 then data_size en else 0)" if "d < DB_COUNT" for d
    using world_ok_shard(2) [OF w'(1) that, of 0] that by (auto simp: shard_ok_def node_ok_def demo_single_def stored_size_def)
  have "total_memory (store w') = sum_list (map (\<lambda>d. approx_memory (store w' ! d ! 0)) [0..<DB_COUNT])"
  proof -
    have "(\<Sum>n \<leftarrow> nodes. approx_memory n) = approx_memory (nodes ! 0)" if "nodes \<in> set (store w')" for nodes
      using w'(1) that by (cases nodes) (auto simp: world_ok_def demo_single_def)
    then have "total_memory (store w') = sum_list (map (\<lambda>nodes. approx_memory (nodes ! 0)) (store w'))"
      by (simp add: total_memory_def cong: map_cong)
    moreover have "map (\<lambda>nodes. approx_memory (nodes ! 0)) (store w') = map (\<lambda>d. approx_memory (store w' ! d ! 0)) [0..<DB_COUNT]"
      using w'(1) by (intro nth_equalityI) (auto simp: world_ok_def)
    ultimately show ?thesis
      by simp
  qed
  also have "\<dots> = sum_list (map (\<lambda>d. if d = 0 then data_size en else 0) [0..<DB_COUNT])"
    using mem by (intro arg_cong [of _ _ sum_list] map_cong) auto
  also have "\<dots> = data_size en"
    by (simp add: DB_COUNT_def upt_conv_Cons)
  finally show False
    using w' en by (simp add: world_ok_def)
qed

theorem evicted_key_breaks_restart_witness:
  "\<exists>w1 w2 w3. client_run (\<lambda>_ _ _ _ _. None) (Some 0) [(demo_single, MSet [(''k'', ''a'')])] (Storage_new demo_single LRU) = Some w1 \<and>
     eviction_memory demo_single 0 (\<lambda>_. 3) rev (key_count w1) w1 = Some w2 \<and>
     execute_command_normal demo_single (\<lambda>_ _ _ _ _. None) (Some 0) (ZAdd ''k'' 0 ''m'') w2 = Some (w3, Done (Inr (Integer 1))) \<and>
     run_startup std_resp demo_single (\<lambda>_ _ _ _ _. None) (\<lambda>_. 4096) demo_config True True 5 (Some (concat (aof_sent w3))) =
       Inl RecoveryFailed"
proof -
  let ?past = "[(demo_single, MSet [(''k'', ''a'')])]" and ?ev = "\<lambda>_ _ _ _ _. None" and ?w = "Storage_new demo_single LRU :: unit world"
  have simps [simp]: "rt_of demo_single = demo_rt" "ext_of demo_single = demo_ext" "num_shards demo_single = 1"
    "lexical_parse_i64 demo_single v = None" for v
    by (simp_all add: demo_single_def)
  have ok: "world_ok demo_single ?w"
    by (rule world_ok_new) simp
  have none: "peek demo_single d k ?w = None" if "d < DB_COUNT" for d k
    using that by (simp add: peek_def get_shard_index_def Storage_new_def MemoryCache_new_def MemoryCacheNode_new_def)
  have k: "utf8_valid ''k''"
    by (simp add: ascii_utf8_valid nat_of_char_def)
  have m: "utf8_valid ''m''"
    by (simp add: ascii_utf8_valid nat_of_char_def)
  have past: "servable_run std_resp demo_single ?past Map.empty"
    using k by (simp add: servable_def same_conf_def same_libs_def get_key_def std_resp_def vec_capacity_ok_def USIZE_MAX_def)
  have zadd: "servable std_resp demo_single (ZAdd ''k'' 0 ''m'') Map.empty"
    using k m by (simp add: servable_def get_key_def std_resp_def vec_capacity_ok_def USIZE_MAX_def fresh_def demo_ext_def
        f64_is_nan_def f64_magnitude_def show_nat.simps)
  have held: "arun ?past Map.empty ''k'' = Some (AStr ''a'', None)"
    by (simp add: astep_def stored_bytes_def)
  obtain w1 where w1: "client_run ?ev (Some 0) ?past ?w = Some w1" "world_ok demo_single w1"
    "\<forall>d < DB_COUNT. \<forall>k'. peek demo_single d k' w1 = (if d = 0 \<and> k' = ''k'' then Some (simple_entry demo_single ''a'' None) else None)"
    using mset_effect [OF ok, of 0 CtxNormal ?ev "[(''k'', ''a'')]"] none
    by (auto simp: execute_command_normal_def DB_COUNT_def)
  obtain w2 where w2: "eviction_memory demo_single 0 (\<lambda>_. 3) rev (key_count w1) w1 = Some w2" "world_ok demo_single w2"
    "shrinks w1 w2" "global_memory w2 = 0"
    using eviction_memory_spec [of rev, OF _ w1(2) order_refl, of 0 "\<lambda>_. 3"] by (auto simp: unat_eq_0)
  have "data_size (simple_entry demo_single ''a'' None) \<noteq> (0 :: usize)"
    by (simp add: simple_entry_def bytes_to_i64_fast_def demo_rt_def)
  from single_key_evicted [OF w1(2,3) this w2(2-4)] have gone: "peek demo_single 0 ''k'' w2 = None" .
  have "length (concat (log_messages ?past Map.empty @ encode_aof_command (ext_of demo_single) (env_now demo_single) (ZAdd ''k'' 0 ''m'')))
      \<le> min ((\<lambda>_. 4096) 0) FILE_DATA_LEN"
    by (simp add: alog_def log_bytes_def encode_mset_def encode_zadd_def show_nat.simps crlf_def demo_ext_def FILE_DATA_LEN_def)
  from evicted_key_breaks_restart [where rd = "\<lambda>_. 4096" and ev' = ?ev and created = True and t = 5, OF demo_config_ok _ std_resp_ok
      _ past held w1(1) w2(1) _ gone zadd this]
  show ?thesis
    using w1(1) w2(1) by (auto simp: demo_ext_ok)
qed

end
