(* ===== verification/Spec2Isabelle.thy ===== *)
theory Spec2Isabelle
  imports Blocking Server Script_Log Replication Lifecycle
begin

text \<open>
  \<^bold>\<open>A verification of rust-kv\<close>, the key-value server in \<^verbatim>\<open>src/src\<close>: RESP protocol, sharded store with LRU and
  LFU eviction, strings, lists, hashes, sorted sets and JSON documents, blocking list operations, Lua scripts, an
  append-only log, replication.

  \<^bold>\<open>How the parts work together.\<close> A connection (\<^verbatim>\<open>server.rs\<close>) collects bytes, parses frames out of them
  (\<^verbatim>\<open>core_explain.rs\<close>), turns each frame into a command (\<^verbatim>\<open>core_exchange.rs\<close>, \<^verbatim>\<open>parser/\<close>), executes it
  (\<^verbatim>\<open>core_execute.rs\<close>, \<^verbatim>\<open>executor/\<close>) and writes the serialized reply. An executor locks the shard of its key
  (\<^verbatim>\<open>db/\<close>), works on the entries through one of the locked views, and sends a log entry (\<^verbatim>\<open>aof_encoder/\<close>) to the
  writer task (\<^verbatim>\<open>core_aof.rs\<close>) and to the replicas (\<^verbatim>\<open>replication/\<close>). Every access keeps the memory accounts and the
  eviction policy of the shard up to date; two background tasks (\<^verbatim>\<open>db/eviction/eviction_alo.rs\<close>) delete victims of the
  policy and expired entries. A script (\<^verbatim>\<open>lua/\<close>) locks the shards of its declared keys in order, buffers its writes
  and commits or drops them. At startup the log is replayed, then the clock (\<^verbatim>\<open>core_time.rs\<close>) and the other tasks are
  spawned; at shutdown the tasks are told to stop and joined in order (\<^verbatim>\<open>lib.rs\<close>, \<^verbatim>\<open>shutdown.rs\<close>).

  \<^bold>\<open>The theories.\<close>
  \<^item> Prelude: bytes, machine integers, decimal numbers, UTF-8, option folds, shared lemmas; runs of a step relation and the
    locale \<open>step_invariant\<close>, interpreted for every transition system below.
  \<^item> Domain: frames, errors, commands (\<^verbatim>\<open>domain/\<close>); \<^verbatim>\<open>f64\<close> as its bit pattern with its comparisons.
  \<^item> Resp: parser and serializer. Round trip, torn frames, stability under more input, termination, the one cause
    of a panic.
  \<^item> Command_Parser: the parser of every command; accepted commands are well formed.
  \<^item> Aof_Encoder: log entries and deadlines; log entries parse back to what was logged.
  \<^item> Lru_List, Lru_Node, Lfu_Node, Strategy: the pointer list over an explicit heap, the two policies and their
    dispatch. Memory safety, refinement of list specifications, victims, sampling; the locale \<open>eviction_policy\<close> is the contract
    of the trait \<^verbatim>\<open>EvictionPolicy\<close>, interpreted for both policies and their dispatch.
  \<^item> Skip_List, Skip_List_Inv, ZSet: the index arena with towers and spans, its invariant, and the sorted set as the
    sorted list of its elements.
  \<^item> Types, Cache_Store, Locked_Db: values and sizes, the shard with its account and policy, the locked views. The locale
    \<open>kv_operator\<close> is the contract of the trait \<^verbatim>\<open>KvOperator\<close>; it is interpreted for the direct view, the buffered view of a
    script and the dispatching \<^verbatim>\<open>LockedDb\<close>, and the executors are proved against it once.
  \<^item> Executors, Exec_Spec: the executors on a locked view, and the abstract commands (\<open>redis\<close>) they refine.
  \<^item> Storage: the world (databases, shards, global counter, waiting clients, sessions, log, replicas), the lock macros, every
    command in its three contexts. Preservation of the invariant \<open>world_ok\<close>, refinement of the abstract commands on the whole
    store with their log entries.
  \<^item> Blocking: LPUSH and BLPOP in all interleavings of their phases, with the log entries and the end of a wait as steps of their own.
  \<^item> Aof_Recovery, Durability: the writer task, recovery with partial reads, transactions and torn tails; a log written by any
    run of clients restores an equivalent store.
  \<^item> Eviction: the memory task and the expiry task.
  \<^item> Server: the pipeline and the connection loop.
  \<^item> Lua, Script: value conversions, \<^verbatim>\<open>redis.call\<close>, locking, commit and rollback, the router; the engine that the other
    theories take as an argument. Scripts do not deadlock and, whatever commands they call, are transactions of the abstract store.
  \<^item> Script_Log: the group of a script in the log. A committed script survives a restart, after any history; the calls for
    which the log of a group is wrong are excluded by name.
  \<^item> Config, Replication: configuration, the master's and the replica's side of replication and the election state.
  \<^item> Clock: the cached clock and its task, over a system clock that may be set back. Entries expire by what the system clock
    has shown.
  \<^item> Shutdown: the tasks of the server with the stop signals and the joins, as one transition system; a connection may be between two batches,
    inside one, in a wait without a timeout, in a write, or handed over to a replica. A finished shutdown loses nothing; it cannot complete when somebody
    missed the signal or waits for something else, and it can when everybody listens.
  \<^item> Lifecycle: the startup sequence, the script workers, the state of a connection, and the composition of the tasks with the store they
    work on. A life of a server with servable commands, without eviction, extends the history in its log and hands it to the next one; and a defect that spans the parts: an evicted key that is used again
    under another type makes every later startup fail.

  \<^bold>\<open>Modelling.\<close> Structs are records, enums are datatypes, fallible code returns a sum with the source's error, and \<open>None\<close> of a
  result is a panic, so a theorem that a result is \<open>Some\<close> says that nothing panics. 64-bit integers are words where
  their overflow matters. Locks are taken and released within one step of the world, as no code holds one across a wait
  except a script, whose sessions are part of the world, and some writers while they wait for room in the log channel, which is taken to
  be there. A command runs without a break, its log entry included, except in Blocking, where the parts of \<^verbatim>\<open>LPUSH\<close> and
  \<^verbatim>\<open>BLPOP\<close> and their log entries, sent after the lock is released, are steps of their own. Code that is not part of the repository enters as an argument: the
  CRLF search and the size of a frame (\<open>resp_env\<close>), number printing and case mapping (\<open>ext\<close>), the size of a type and the
  value of the clock (\<open>rt\<close>), the hash function, JSON and the random levels (\<open>env\<close>), the Lua interpreter and the iteration order of its hash
  maps (\<open>lua_env\<close>); what is assumed of them is a named predicate (\<open>finder_ok\<close>, \<open>ext_ok\<close>, \<open>drains_ok\<close>), and each property that
  uses one has a witness with a concrete instance.

  \<^bold>\<open>Bounds and fuel.\<close> The parser takes the nesting depth as fuel and \<^verbatim>\<open>parse_frame\<close> supplies the length of its input plus one,
  which is proved to be enough; all other loops are functions with a termination proof or recursion on data. \<open>world_room\<close>
  and \<open>NODE_LIMIT\<close> bound the nodes of a sorted set below \<^verbatim>\<open>usize::MAX\<close>, the index the code uses for no node.
  The time budgets of the background tasks are numbers of batches, left arbitrary.

  \<^bold>\<open>Not modelled.\<close> The metrics exporter and its gauge task, the options of sockets and which of the operating system's signals
  arrived (\<^verbatim>\<open>lib.rs\<close>, \<^verbatim>\<open>shutdown.rs\<close>): whether the listener can be bound is an argument, the arrival of a signal a step;
  printing; the native stack and a failing allocator; other commands between the keys of an \<^verbatim>\<open>MSET\<close>; the lengths of timers and the waits of the replica between attempts; the
  interpreter inside a Lua script, of which only the calls back into the server are seen; file errors of the log
  writer, which the code reports and ignores. \<^verbatim>\<open>main.rs\<close> and the module files hold no logic.
\<close>

end
